(* ===== verification/Gtg_Prelude.thy ===== *)
theory Gtg_Prelude
  imports Main "HOL-Library.AList" "HOL-Library.Char_ord" "HOL-Library.Code_Target_Nat"
begin

text \<open>
  Shared vocabulary of the development: Python strings as lists of code points, Python
  bytes as lists of byte values, the string methods the gateway uses (\<open>strip\<close>,
  \<open>split\<close>, \<open>partition\<close>, \<open>isdigit\<close>, \<open>int\<close>, number formatting), the exceptions it
  raises, and the generic lemmas the component theories share.

  A Python \<open>str\<close> is a sequence of code points (it may hold lone surrogates), so it is a
  \<open>nat list\<close>; ASCII literals are written \<open>str_of ''...''\<close>.  Python's integers do not
  overflow: byte values and septets are \<open>nat\<close>, and the places where the code builds a
  \<open>bytes\<close> object check the range explicitly.  The Unicode tables (white space, decimal
  digits, other digits) are those of Unicode 14, the version of CPython 3.11.  The limit
  of 4300 digits of CPython's \<open>int(str)\<close> is not modelled.
\<close>

section \<open>Lemma collections\<close>

named_theorems codec_simps \<open>evaluation of the encoders and decoders on their own output\<close>
named_theorems frame_simps \<open>which fields an operation leaves alone\<close>

section \<open>Strings, bytes, exceptions\<close>

type_synonym pystr = "nat list"
type_synonym pybytes = "nat list"

definition str_of :: "string \<Rightarrow> pystr" where
  "str_of s = map of_char s"

datatype exn =
    ValueError
  | IndexError
  | KeyError
  | TypeError
  | OverflowError
  | OtherError
  | OutOfFuel
  | OSError
  | ATError pystr
  | ATTimeout pystr

text \<open>A fallible call followed by its continuation: the exception propagates.\<close>

definition bind_exn :: "exn + 'a \<Rightarrow> ('a \<Rightarrow> exn + 'b) \<Rightarrow> exn + 'b" where
  "bind_exn r f = (case r of Inl e \<Rightarrow> Inl e | Inr x \<Rightarrow> f x)"

lemma bind_exn_simps [simp]:
  "bind_exn (Inl e) f = Inl e"
  "bind_exn (Inr x) f = f x"
  by (simp_all add: bind_exn_def)

lemma bind_exn_eq_Inr: "bind_exn r f = Inr y \<longleftrightarrow> (\<exists>x. r = Inr x \<and> f x = Inr y)"
  by (cases r) simp_all

fun traverse :: "('a \<Rightarrow> exn + 'b) \<Rightarrow> 'a list \<Rightarrow> exn + 'b list" where
  "traverse f [] = Inr []"
| "traverse f (x # xs) =
     bind_exn (f x) (\<lambda>y. bind_exn (traverse f xs) (\<lambda>ys. Inr (y # ys)))"

lemma traverse_all_Inr: "(\<And>x. x \<in> set xs \<Longrightarrow> f x = Inr (g x)) \<Longrightarrow> traverse f xs = Inr (map g xs)"
  by (induction xs) simp_all

lemma traverse_eq_Inr_length: "traverse f xs = Inr ys \<Longrightarrow> length ys = length xs"
  by (induction xs arbitrary: ys) (auto simp: bind_exn_eq_Inr)

lemma traverse_eq_Inr_nth:
  "traverse f xs = Inr ys \<Longrightarrow> i < length xs \<Longrightarrow> f (xs ! i) = Inr (ys ! i)"
proof (induction xs arbitrary: ys i)
  case Nil
  then show ?case by simp
next
  case (Cons x xs)
  then show ?case by (cases i) (auto simp: bind_exn_eq_Inr)
qed

text \<open>Sequence indexing: the code never uses a negative index on these.\<close>

definition py_index :: "'a list \<Rightarrow> nat \<Rightarrow> exn + 'a" where
  "py_index xs i = (if i < length xs then Inr (xs ! i) else Inl IndexError)"

lemma py_index_append1 [codec_simps]: "i < length xs \<Longrightarrow> py_index (xs @ ys) i = py_index xs i"
  by (simp add: py_index_def nth_append)

lemma py_index_Cons_0 [simp]: "py_index (x # xs) 0 = Inr x"
  by (simp add: py_index_def)

lemma py_index_Cons_Suc [simp]: "py_index (x # xs) (Suc i) = py_index xs i"
  by (simp add: py_index_def)

text \<open>\<open>bytes([...])\<close> and \<open>bytearray.append\<close> raise \<open>ValueError\<close> above 255.\<close>

definition py_bytes :: "nat list \<Rightarrow> exn + pybytes" where
  "py_bytes xs = (if list_all (\<lambda>b. b < 256) xs then Inr xs else Inl ValueError)"

section \<open>Dictionaries\<close>

text \<open>A dictionary in insertion order is an association list.\<close>

lemma map_fst_update: "map fst (AList.update k v al) = (if k \<in> fst ` set al then map fst al else map fst al @ [k])"
  by (induction al) auto

lemma map_fst_delete: "map fst (AList.delete k al) = filter (\<lambda>x. x \<noteq> k) (map fst al)"
  by (induction al) auto

lemma map_of_delete: "map_of (AList.delete k al) k' = (if k' = k then None else map_of al k')"
  by (simp add: AList.delete_conv')

lemma map_of_update: "map_of (AList.update k v al) k' = (if k' = k then Some v else map_of al k')"
  by (simp add: AList.update_conv')

lemma set_update_subset: "set (AList.update k v al) \<subseteq> insert (k, v) (set al)"
  by (induction al) auto

lemma update_fresh: "k \<notin> fst ` set al \<Longrightarrow> AList.update k v al = al @ [(k, v)]"
  by (induction al) auto

lemma map_fst_update_known: "map_of al k = Some v \<Longrightarrow> map fst (AList.update k v' al) = map fst al"
  by (auto simp: map_fst_update dest!: map_of_SomeD) force

section \<open>The end of a list\<close>

text \<open>\<open>xs[-n:]\<close> for a positive \<open>n\<close>, and a deque of bounded length.\<close>

definition last_n :: "nat \<Rightarrow> 'a list \<Rightarrow> 'a list" where
  "last_n n xs = drop (length xs - n) xs"

lemma last_n_short: "length xs \<le> n \<Longrightarrow> last_n n xs = xs"
  by (simp add: last_n_def)

lemma length_last_n [simp]: "length (last_n n xs) = min n (length xs)"
  by (simp add: last_n_def min_def)

lemma set_last_n: "set (last_n n xs) \<subseteq> set xs"
  by (simp add: last_n_def set_drop_subset)

lemma map_last_n: "map f (last_n n xs) = last_n n (map f xs)"
  by (simp add: last_n_def drop_map)

lemma sorted_wrt_last_n: "sorted_wrt R xs \<Longrightarrow> sorted_wrt R (last_n n xs)"
  by (simp add: last_n_def)

section \<open>Unicode classes\<close>

definition space_codes :: "nat list" where
  "space_codes = [9, 10, 11, 12, 13, 28, 29, 30, 31, 32, 133, 160, 5760, 8192, 8193, 8194,
     8195, 8196, 8197, 8198, 8199, 8200, 8201, 8202, 8232, 8233, 8239, 8287, 12288]"

definition py_isspace :: "nat \<Rightarrow> bool" where
  "py_isspace c \<longleftrightarrow> c \<in> set space_codes"

definition decimal_starts :: "nat list" where
  "decimal_starts = [48, 1632, 1776, 1984, 2406, 2534, 2662, 2790, 2918, 3046, 3174, 3302,
     3430, 3558, 3664, 3792, 3872, 4160, 4240, 6112, 6160, 6470, 6608, 6784, 6800, 6992,
     7088, 7232, 7248, 42528, 43216, 43264, 43472, 43504, 43600, 44016, 65296, 66720, 68912,
     69734, 69872, 69942, 70096, 70384, 70736, 70864, 71248, 71360, 71472, 71904, 72016,
     72784, 73040, 73120, 92768, 92864, 93008, 120782, 120792, 120802, 120812, 120822,
     123200, 123632, 125264, 130032]"

definition decimal_value :: "nat \<Rightarrow> nat option" where
  "decimal_value c =
     map_option (\<lambda>s. c - s) (List.find (\<lambda>s. s \<le> c \<and> c < s + 10) decimal_starts)"

definition other_digit_ranges :: "(nat \<times> nat) list" where
  "other_digit_ranges = [(178, 179), (185, 185), (4969, 4977), (6618, 6618), (8304, 8304),
     (8308, 8313), (8320, 8329), (9312, 9320), (9332, 9340), (9352, 9360), (9450, 9450),
     (9461, 9469), (9471, 9471), (10102, 10110), (10112, 10120), (10122, 10130),
     (68160, 68163), (69216, 69224), (69714, 69722), (127232, 127242)]"

definition is_digit :: "nat \<Rightarrow> bool" where
  "is_digit c \<longleftrightarrow> decimal_value c \<noteq> None
     \<or> list_ex (\<lambda>(a, b). a \<le> c \<and> c \<le> b) other_digit_ranges"

definition py_isdigit :: "pystr \<Rightarrow> bool" where
  "py_isdigit s \<longleftrightarrow> s \<noteq> [] \<and> list_all is_digit s"

definition ascii_digit :: "nat \<Rightarrow> bool" where
  "ascii_digit c \<longleftrightarrow> 48 \<le> c \<and> c \<le> 57"

lemma decimal_value_ascii [simp]: "d < 10 \<Longrightarrow> decimal_value (48 + d) = Some d"
  by (simp add: decimal_value_def decimal_starts_def)

lemma ascii_digitE:
  assumes "ascii_digit c"
  obtains d where "c = 48 + d" "d < 10"
proof -
  from assms have "c = 48 + (c - 48)" and "c - 48 < 10"
    unfolding ascii_digit_def by arith+
  then show thesis by (rule that)
qed

lemma ascii_digit_48 [simp]: "d < 10 \<Longrightarrow> ascii_digit (48 + d)"
  by (simp add: ascii_digit_def)

lemma decimal_value_ascii_digit: "ascii_digit c \<Longrightarrow> decimal_value c = Some (c - 48)"
  by (erule ascii_digitE) simp

lemma decimal_value_less: "decimal_value c = Some d \<Longrightarrow> d < 10"
  by (auto simp: decimal_value_def find_Some_iff)

lemma is_digit_ascii [simp]: "ascii_digit c \<Longrightarrow> is_digit c"
  by (simp add: is_digit_def decimal_value_ascii_digit)

lemma space_not_digit: "ascii_digit c \<Longrightarrow> \<not> py_isspace c"
  by (auto simp: ascii_digit_def py_isspace_def space_codes_def)

section \<open>String methods\<close>

definition py_startswith :: "pystr \<Rightarrow> pystr \<Rightarrow> bool" where
  "py_startswith s p \<longleftrightarrow> take (length p) s = p"

definition py_lstrip :: "(nat \<Rightarrow> bool) \<Rightarrow> pystr \<Rightarrow> pystr" where
  "py_lstrip P s = dropWhile P s"

definition py_rstrip :: "(nat \<Rightarrow> bool) \<Rightarrow> pystr \<Rightarrow> pystr" where
  "py_rstrip P s = rev (dropWhile P (rev s))"

definition py_strip :: "pystr \<Rightarrow> pystr" where
  "py_strip s = py_rstrip py_isspace (py_lstrip py_isspace s)"

text \<open>\<open>s.partition(c)\<close> for a one-character separator; \<open>None\<close>: the separator is absent.\<close>

definition py_partition :: "nat \<Rightarrow> pystr \<Rightarrow> pystr \<times> pystr option" where
  "py_partition c s =
     (takeWhile (\<lambda>x. x \<noteq> c) s,
      (case dropWhile (\<lambda>x. x \<noteq> c) s of [] \<Rightarrow> None | _ # r \<Rightarrow> Some r))"

text \<open>\<open>s.split(c)\<close>.\<close>

fun py_split :: "nat \<Rightarrow> pystr \<Rightarrow> pystr list" where
  "py_split c [] = [[]]"
| "py_split c (x # xs) =
     (if x = c then [] # py_split c xs
      else (case py_split c xs of [] \<Rightarrow> [[x]] | w # ws \<Rightarrow> (x # w) # ws))"

text \<open>\<open>s.rpartition(c)\<close>: (before, after the last separator), \<open>None\<close> before when absent.\<close>

definition py_rpartition :: "nat \<Rightarrow> pystr \<Rightarrow> pystr option \<times> pystr" where
  "py_rpartition c s =
     (case py_partition c (rev s) of (a, b) \<Rightarrow> (map_option rev b, rev a))"

text \<open>\<open>sep.join(parts)\<close>.\<close>

fun py_join :: "pystr \<Rightarrow> pystr list \<Rightarrow> pystr" where
  "py_join sep [] = []"
| "py_join sep [x] = x"
| "py_join sep (x # y # ys) = x @ sep @ py_join sep (y # ys)"

text \<open>Case mapping on ASCII, which is where the code relies on it.\<close>

definition ascii_lower :: "pystr \<Rightarrow> pystr" where
  "ascii_lower s = map (\<lambda>c. if 65 \<le> c \<and> c \<le> 90 then c + 32 else c) s"

definition ascii_upper :: "pystr \<Rightarrow> pystr" where
  "ascii_upper s = map (\<lambda>c. if 97 \<le> c \<and> c \<le> 122 then c - 32 else c) s"

lemma py_split_not_Nil [simp]: "py_split c s \<noteq> []"
  by (induction s) (auto split: list.splits)

lemma takeWhile_stop: "c \<notin> set a \<Longrightarrow> takeWhile (\<lambda>x. x \<noteq> c) (a @ c # b) = a"
  by (induction a) auto

lemma dropWhile_stop: "c \<notin> set a \<Longrightarrow> dropWhile (\<lambda>x. x \<noteq> c) (a @ c # b) = c # b"
  by (induction a) auto

lemma py_partition_append [simp]: "c \<notin> set a \<Longrightarrow> py_partition c (a @ c # b) = (a, Some b)"
  by (simp add: py_partition_def takeWhile_stop dropWhile_stop)

lemma py_split_append: "c \<notin> set a \<Longrightarrow> py_split c (a @ c # b) = a # py_split c b"
  by (induction a) auto

lemma py_split_one: "c \<notin> set a \<Longrightarrow> py_split c a = [a]"
  by (induction a) auto

lemma py_startswith_append [simp]: "py_startswith (p @ s) p"
  by (simp add: py_startswith_def)

lemma py_strip_id:
  assumes "s = [] \<or> \<not> py_isspace (hd s) \<and> \<not> py_isspace (last s)"
  shows "py_strip s = s"
proof (cases "s = []")
  case True
  then show ?thesis by (simp add: py_strip_def py_rstrip_def py_lstrip_def)
next
  case False
  with assms have h: "\<not> py_isspace (hd s)" and l: "\<not> py_isspace (last s)" by auto
  from False h have "dropWhile py_isspace s = s" by (cases s) auto
  moreover from False l have "dropWhile py_isspace (rev s) = rev s"
    by (cases "rev s") (auto simp: last_conv_nth hd_rev [symmetric])
  ultimately show ?thesis by (simp add: py_strip_def py_rstrip_def py_lstrip_def)
qed

lemma py_strip_no_space: "\<forall>c \<in> set s. \<not> py_isspace c \<Longrightarrow> py_strip s = s"
  by (rule py_strip_id) (cases "s = []"; simp)


section \<open>Integers as text\<close>

fun nat_dec :: "nat \<Rightarrow> pystr" where
  "nat_dec n = (if n < 10 then [48 + n] else nat_dec (n div 10) @ [48 + n mod 10])"

declare nat_dec.simps [simp del]

definition int_dec :: "int \<Rightarrow> pystr" where
  "int_dec i = (if i < 0 then 45 # nat_dec (nat (- i)) else nat_dec (nat i))"

text \<open>\<open>int(s)\<close>: surrounding white space, a sign, Unicode decimal digits, single
  underscores between digits.  \<open>None\<close> is \<open>ValueError\<close>.\<close>

fun scan_digits :: "nat \<Rightarrow> pystr \<Rightarrow> nat option" where
  "scan_digits acc [] = Some acc"
| "scan_digits acc (c # cs) =
     (case decimal_value c of
        Some d \<Rightarrow> scan_digits (10 * acc + d) cs
      | None \<Rightarrow>
          if c = 95 then
            (case cs of
               [] \<Rightarrow> None
             | c' # cs' \<Rightarrow> (case decimal_value c' of
                   Some d \<Rightarrow> scan_digits (10 * acc + d) cs'
                 | None \<Rightarrow> None))
          else None)"

definition scan_nat :: "pystr \<Rightarrow> nat option" where
  "scan_nat s =
     (case s of
        [] \<Rightarrow> None
      | c # cs \<Rightarrow> (case decimal_value c of Some d \<Rightarrow> scan_digits d cs | None \<Rightarrow> None))"

definition py_int :: "pystr \<Rightarrow> int option" where
  "py_int s =
     (case py_strip s of
        [] \<Rightarrow> None
      | c # cs \<Rightarrow>
          if c = 43 then map_option int (scan_nat cs)
          else if c = 45 then map_option (\<lambda>n. - int n) (scan_nat cs)
          else map_option int (scan_nat (c # cs)))"

lemma nat_dec_digits: "list_all ascii_digit (nat_dec n)"
proof (induction n rule: nat_dec.induct)
  case (1 n)
  then show ?case by (subst nat_dec.simps) auto
qed

lemma nat_dec_not_Nil [simp]: "nat_dec n \<noteq> []"
  by (subst nat_dec.simps) simp

lemma scan_digits_append:
  "list_all ascii_digit s \<Longrightarrow> scan_digits acc (s @ t) =
     scan_digits (fold (\<lambda>c a. 10 * a + (c - 48)) s acc) t"
  by (induction s arbitrary: acc) (auto simp: decimal_value_ascii_digit)

lemma scan_nat_digits:
  assumes "list_all ascii_digit s" "s \<noteq> []"
  shows "scan_nat s = Some (fold (\<lambda>c a. 10 * a + (c - 48)) s 0)"
  using assms scan_digits_append [of "tl s" "hd s - 48" "[]"]
  by (cases s) (auto simp: scan_nat_def decimal_value_ascii_digit)

lemma fold_nat_dec: "fold (\<lambda>c a. 10 * a + (c - 48)) (nat_dec n) 0 = n"
proof (induction n rule: nat_dec.induct)
  case (1 n)
  show ?case
  proof (cases "n < 10")
    case True
    then show ?thesis by (subst nat_dec.simps) simp
  next
    case False
    with 1 show ?thesis by (subst nat_dec.simps) simp
  qed
qed

lemma scan_nat_dec: "scan_nat (nat_dec n) = Some n"
  by (simp add: scan_nat_digits nat_dec_digits fold_nat_dec)

lemma nat_dec_strip: "py_strip (nat_dec n) = nat_dec n"
  using nat_dec_digits [of n] by (intro py_strip_no_space) (auto simp: list_all_iff space_not_digit)

lemma py_int_nat_dec [simp]: "py_int (nat_dec n) = Some (int n)"
proof -
  obtain c cs where c: "nat_dec n = c # cs" by (cases "nat_dec n") auto
  with nat_dec_digits [of n] have "c \<noteq> 43" "c \<noteq> 45" by (auto simp: ascii_digit_def)
  with c scan_nat_dec [of n] nat_dec_strip [of n] show ?thesis by (simp add: py_int_def)
qed

lemma py_int_int_dec [simp]: "py_int (int_dec i) = Some i"
proof (cases "i < 0")
  case True
  have "\<not> py_isspace 45" by code_simp
  then have "py_strip (45 # nat_dec n) = 45 # nat_dec n" for n
    using nat_dec_digits [of n] by (intro py_strip_no_space) (auto simp: list_all_iff space_not_digit)
  with True show ?thesis by (simp add: int_dec_def py_int_def scan_nat_dec)
next
  case False
  then show ?thesis by (simp add: int_dec_def)
qed

lemma int_dec_chars: "c \<in> set (int_dec n) \<Longrightarrow> ascii_digit c \<or> c = 45"
  using nat_dec_digits [of "nat n"] nat_dec_digits [of "nat (- n)"]
  by (auto simp: int_dec_def list_all_iff split: if_splits)

lemma inj_nat_dec: "nat_dec m = nat_dec n \<Longrightarrow> m = n"
  using fold_nat_dec by metis

section \<open>UTF-8\<close>

definition is_surrogate :: "nat \<Rightarrow> bool" where
  "is_surrogate c \<longleftrightarrow> 0xD800 \<le> c \<and> c \<le> 0xDFFF"

definition REPLACEMENT :: nat where "REPLACEMENT = 0xFFFD"

definition scalar_text :: "pystr \<Rightarrow> bool" where
  "scalar_text s \<longleftrightarrow> list_all (\<lambda>c. \<not> is_surrogate c \<and> c < 0x110000) s"

text \<open>\<open>s.encode()\<close>: a lone surrogate raises \<open>UnicodeEncodeError\<close>, a \<open>ValueError\<close>; there are no
  code points from 0x110000 on.\<close>

definition utf8_char :: "nat \<Rightarrow> exn + pybytes" where
  "utf8_char c =
     (if is_surrogate c then Inl ValueError
      else if c < 0x80 then Inr [c]
      else if c < 0x800 then Inr [0xC0 + c div 64, 0x80 + c mod 64]
      else if c < 0x10000 then Inr [0xE0 + c div 4096, 0x80 + c div 64 mod 64, 0x80 + c mod 64]
      else if c < 0x110000 then
        Inr [0xF0 + c div 262144, 0x80 + c div 4096 mod 64, 0x80 + c div 64 mod 64, 0x80 + c mod 64]
      else Inl ValueError)"

definition utf8_encode :: "pystr \<Rightarrow> exn + pybytes" where
  "utf8_encode s = bind_exn (traverse utf8_char s) (\<lambda>bs. Inr (concat bs))"

definition utf8_cont :: "nat \<Rightarrow> bool" where
  "utf8_cont b \<longleftrightarrow> 0x80 \<le> b \<and> b \<le> 0xBF"

definition utf8_second :: "nat \<Rightarrow> nat \<Rightarrow> bool" where
  "utf8_second b0 b1 \<longleftrightarrow>
     (if b0 = 0xE0 then 0xA0 \<le> b1 \<and> b1 \<le> 0xBF
      else if b0 = 0xED then 0x80 \<le> b1 \<and> b1 \<le> 0x9F
      else if b0 = 0xF0 then 0x90 \<le> b1 \<and> b1 \<le> 0xBF
      else if b0 = 0xF4 then 0x80 \<le> b1 \<and> b1 \<le> 0x8F
      else utf8_cont b1)"

text \<open>\<open>b.decode("utf-8", errors="replace")\<close>: each maximal ill-formed prefix is one
  replacement character.\<close>

fun utf8_decode :: "pybytes \<Rightarrow> pystr" where
  "utf8_decode [] = []"
| "utf8_decode (b0 # r) =
     (if b0 < 0x80 then b0 # utf8_decode r
      else if 0xC2 \<le> b0 \<and> b0 \<le> 0xDF then
        (case r of
           [] \<Rightarrow> [REPLACEMENT]
         | b1 # r1 \<Rightarrow>
             if utf8_cont b1 then ((b0 - 0xC0) * 64 + (b1 - 0x80)) # utf8_decode r1
             else REPLACEMENT # utf8_decode r)
      else if 0xE0 \<le> b0 \<and> b0 \<le> 0xEF then
        (case r of
           [] \<Rightarrow> [REPLACEMENT]
         | b1 # r1 \<Rightarrow>
             if \<not> utf8_second b0 b1 then REPLACEMENT # utf8_decode r
             else (case r1 of
                 [] \<Rightarrow> [REPLACEMENT]
               | b2 # r2 \<Rightarrow>
                   if utf8_cont b2
                   then ((b0 - 0xE0) * 4096 + (b1 - 0x80) * 64 + (b2 - 0x80)) # utf8_decode r2
                   else REPLACEMENT # utf8_decode r1))
      else if 0xF0 \<le> b0 \<and> b0 \<le> 0xF4 then
        (case r of
           [] \<Rightarrow> [REPLACEMENT]
         | b1 # r1 \<Rightarrow>
             if \<not> utf8_second b0 b1 then REPLACEMENT # utf8_decode r
             else (case r1 of
                 [] \<Rightarrow> [REPLACEMENT]
               | b2 # r2 \<Rightarrow>
                   if \<not> utf8_cont b2 then REPLACEMENT # utf8_decode r1
                   else (case r2 of
                       [] \<Rightarrow> [REPLACEMENT]
                     | b3 # r3 \<Rightarrow>
                         if utf8_cont b3
                         then ((b0 - 0xF0) * 262144 + (b1 - 0x80) * 4096 + (b2 - 0x80) * 64
                               + (b3 - 0x80)) # utf8_decode r3
                         else REPLACEMENT # utf8_decode r2)))
      else REPLACEMENT # utf8_decode r)"

declare utf8_decode.simps(2) [simp del]

lemma utf8_encode_Cons:
  "utf8_encode (c # cs) =
     bind_exn (utf8_char c) (\<lambda>b. bind_exn (utf8_encode cs) (\<lambda>bs. Inr (b @ bs)))"
  by (cases "utf8_char c"; cases "traverse utf8_char cs") (simp_all add: utf8_encode_def)

lemma utf8_encode_Nil [simp]: "utf8_encode [] = Inr []"
  by (simp add: utf8_encode_def)

text \<open>\<open>b.decode("utf-8")\<close>, strictly: an ill-formed sequence is a \<open>UnicodeDecodeError\<close>, a
  \<open>ValueError\<close>; a well-formed one is the encoding of its text.\<close>

definition utf8_decode_strict :: "pybytes \<Rightarrow> exn + pystr" where
  "utf8_decode_strict bs =
     (let s = utf8_decode bs in if utf8_encode s = Inr bs then Inr s else Inl ValueError)"

lemma utf8_encode_scalar: "scalar_text s \<Longrightarrow> \<exists>bs. utf8_encode s = Inr bs"
  by (induction s) (auto simp: utf8_encode_Cons scalar_text_def utf8_char_def)

text \<open>Decoding gives the encoded text back.\<close>

lemma digits64_3: "(c :: nat) = c div 4096 * 4096 + c div 64 mod 64 * 64 + c mod 64"
proof -
  have "c = c div 64 * 64 + c mod 64" by simp
  moreover have "c div 64 = c div 64 div 64 * 64 + c div 64 mod 64" by simp
  moreover have "c div 64 div 64 = c div 4096" by (simp flip: div_mult2_eq)
  ultimately show ?thesis by linarith
qed

lemma digits64_4: "(c :: nat) = c div 262144 * 262144 + c div 4096 mod 64 * 4096 + c div 64 mod 64 * 64 + c mod 64"
proof -
  have "c div 4096 = c div 4096 div 64 * 64 + c div 4096 mod 64" by simp
  moreover have "c div 4096 div 64 = c div 262144" by (simp flip: div_mult2_eq)
  ultimately show ?thesis using digits64_3 [of c] by linarith
qed

lemma utf8_decode_char:
  assumes "utf8_char c = Inr b"
  shows "utf8_decode (b @ r) = c # utf8_decode r"
proof -
  have ns: "\<not> is_surrogate c" using assms by (auto simp: utf8_char_def)
  consider "c < 0x80" | "0x80 \<le> c" "c < 0x800" | "0x800 \<le> c" "c < 0x10000" | "0x10000 \<le> c" "c < 0x110000"
    using assms by (auto simp: utf8_char_def split: if_splits)
  then show ?thesis
  proof cases
    case 1
    then have "b = [c]" using assms ns by (simp add: utf8_char_def)
    with 1 show ?thesis by (simp add: utf8_decode.simps(2))
  next
    case 2
    define h d where "h = c div 64" and "d = c mod 64"
    have c: "c = h * 64 + d" "d < 64" by (simp_all add: h_def d_def)
    with 2 have "2 \<le> h" "h < 32" by auto
    moreover have "b = [0xC0 + h, 0x80 + d]" using 2 assms ns by (simp add: utf8_char_def h_def d_def)
    ultimately show ?thesis using c by (simp add: utf8_decode.simps(2) utf8_cont_def)
  next
    case 3
    define h m d where "h = c div 4096" and "m = c div 64 mod 64" and "d = c mod 64"
    have c: "c = h * 4096 + m * 64 + d" "m < 64" "d < 64"
      using digits64_3 [of c] by (simp_all add: h_def m_def d_def)
    with 3 have "h < 16" by auto
    moreover have "h = 0 \<Longrightarrow> 32 \<le> m" using 3 c by simp
    moreover have "h = 13 \<Longrightarrow> m < 32" using ns c by (simp add: is_surrogate_def)
    moreover have "b = [0xE0 + h, 0x80 + m, 0x80 + d]"
      using 3 assms ns by (simp add: utf8_char_def h_def m_def d_def)
    ultimately show ?thesis using c by (auto simp: utf8_decode.simps(2) utf8_cont_def utf8_second_def)
  next
    case 4
    define g h m d where "g = c div 262144" and "h = c div 4096 mod 64" and "m = c div 64 mod 64" and "d = c mod 64"
    have c: "c = g * 262144 + h * 4096 + m * 64 + d" "h < 64" "m < 64" "d < 64"
      using digits64_4 [of c] by (simp_all add: g_def h_def m_def d_def)
    with 4 have "g < 5" by auto
    moreover have "g = 0 \<Longrightarrow> 16 \<le> h" using 4 c by simp
    moreover have "g = 4 \<Longrightarrow> h < 16" using 4 c by simp
    moreover have "b = [0xF0 + g, 0x80 + h, 0x80 + m, 0x80 + d]"
      using 4 assms ns by (simp add: utf8_char_def g_def h_def m_def d_def)
    ultimately show ?thesis using c by (auto simp: utf8_decode.simps(2) utf8_cont_def utf8_second_def)
  qed
qed

lemma utf8_decode_encode: "utf8_encode s = Inr b \<Longrightarrow> utf8_decode b = s"
  by (induction s arbitrary: b) (auto simp: utf8_encode_Cons bind_exn_eq_Inr utf8_decode_char)

lemma utf8_encode_inj: "utf8_encode s = Inr b \<Longrightarrow> utf8_encode t = Inr b \<Longrightarrow> s = t"
  using utf8_decode_encode by metis

lemma utf8_decode_strict_encode: "utf8_encode s = Inr b \<Longrightarrow> utf8_decode_strict b = Inr s"
  by (simp add: utf8_decode_strict_def utf8_decode_encode)

end
