(* ===== verification/Sms_Codec.thy ===== *)
theory Sms_Codec
  imports Gtg_Prelude
begin

unbundle bit_operations_syntax

text \<open>
  The SMS PDU codec, \<open>server/gtg_server/modem/sms_codec.py\<close>: the GSM 7-bit alphabet,
  septet packing, semi-octet addresses, the split of long texts, the SMS-SUBMIT encoder
  and the SMS-DELIVER decoder.  Byte values and septets are \<open>nat\<close>; the bit operations are
  those of the code (\<open>AND\<close>, \<open>OR\<close>, \<open>push_bit\<close>, \<open>drop_bit\<close>).
\<close>

section \<open>The GSM 7-bit default alphabet\<close>

definition GSM7_BASIC :: "nat list" where
  "GSM7_BASIC =
    [64, 163, 36, 165, 232, 233, 249, 236, 242, 199, 10, 216, 248, 13, 197, 229,
     916, 95, 934, 915, 923, 937, 928, 936, 931, 920, 926, 27, 198, 230, 223, 201,
     32, 33, 34, 35, 164, 37, 38, 39, 40, 41, 42, 43, 44, 45, 46, 47,
     48, 49, 50, 51, 52, 53, 54, 55, 56, 57, 58, 59, 60, 61, 62, 63,
     161, 65, 66, 67, 68, 69, 70, 71, 72, 73, 74, 75, 76, 77, 78, 79,
     80, 81, 82, 83, 84, 85, 86, 87, 88, 89, 90, 196, 214, 209, 220, 167,
     191, 97, 98, 99, 100, 101, 102, 103, 104, 105, 106, 107, 108, 109, 110, 111,
     112, 113, 114, 115, 116, 117, 118, 119, 120, 121, 122, 228, 246, 241, 252, 224]"

definition GSM7_EXT :: "(nat \<times> nat) list" where
  "GSM7_EXT = [(94, 0x14), (123, 0x28), (125, 0x29), (92, 0x2F), (91, 0x3C), (126, 0x3D),
     (93, 0x3E), (124, 0x40), (8364, 0x65)]"

definition GSM7_MAP :: "(nat \<times> nat) list" where
  "GSM7_MAP = filter (\<lambda>(c, i). c \<noteq> 0x1B) (zip GSM7_BASIC [0..<length GSM7_BASIC])"

definition GSM7_EXT_REV :: "(nat \<times> nat) list" where
  "GSM7_EXT_REV = map (\<lambda>(k, v). (v, k)) GSM7_EXT"

definition SINGLE_GSM7 :: nat where "SINGLE_GSM7 = 160"
definition MULTI_GSM7 :: nat where "MULTI_GSM7 = 153"
definition SINGLE_UCS2 :: nat where "SINGLE_UCS2 = 140"
definition MULTI_UCS2 :: nat where "MULTI_UCS2 = 134"

definition gsm7_char :: "nat \<Rightarrow> bool" where
  "gsm7_char c \<longleftrightarrow> map_of GSM7_MAP c \<noteq> None \<or> map_of GSM7_EXT c \<noteq> None"

definition is_gsm7 :: "pystr \<Rightarrow> bool" where
  "is_gsm7 text = list_all gsm7_char text"

definition septet_len :: "nat \<Rightarrow> nat" where
  "septet_len c = (if map_of GSM7_EXT c \<noteq> None then 2 else 1)"

fun to_septets :: "pystr \<Rightarrow> exn + nat list" where
  "to_septets [] = Inr []"
| "to_septets (c # cs) =
     (case map_of GSM7_MAP c of
        Some s \<Rightarrow> bind_exn (to_septets cs) (\<lambda>r. Inr (s # r))
      | None \<Rightarrow> (case map_of GSM7_EXT c of
          Some s \<Rightarrow> bind_exn (to_septets cs) (\<lambda>r. Inr (0x1B # s # r))
        | None \<Rightarrow> Inl ValueError))"

fun from_septets_esc :: "bool \<Rightarrow> nat list \<Rightarrow> pystr" where
  "from_septets_esc esc [] = []"
| "from_septets_esc esc (s # ss) =
     (if esc then
        (case map_of GSM7_EXT_REV s of Some c \<Rightarrow> c | None \<Rightarrow> REPLACEMENT)
          # from_septets_esc False ss
      else if s = 0x1B then from_septets_esc True ss
      else (if s < 128 then GSM7_BASIC ! s else REPLACEMENT) # from_septets_esc False ss)"

definition from_septets :: "nat list \<Rightarrow> pystr" where
  "from_septets septets = from_septets_esc False septets"

subsection \<open>Facts about the tables\<close>

lemma GSM7_BASIC_length [simp]: "length GSM7_BASIC = 128"
  by (simp add: GSM7_BASIC_def)

text \<open>The dictionary written out, so that the kernel evaluates look-ups in it without building it
anew for every character.\<close>

lemma GSM7_MAP_table [code]: "GSM7_MAP = [(64,0), (163,1), (36,2), (165,3), (232,4), (233,5), (249,6), (236,7), (242,8), (199,9),
  (10,10), (216,11), (248,12), (13,13), (197,14), (229,15), (916,16), (95,17), (934,18), (915,19), (923,20), (937,21), (928,22),
  (936,23), (931,24), (920,25), (926,26), (198,28), (230,29), (223,30), (201,31), (32,32), (33,33), (34,34), (35,35), (164,36),
  (37,37), (38,38), (39,39), (40,40), (41,41), (42,42), (43,43), (44,44), (45,45), (46,46), (47,47), (48,48), (49,49), (50,50),
  (51,51), (52,52), (53,53), (54,54), (55,55), (56,56), (57,57), (58,58), (59,59), (60,60), (61,61), (62,62), (63,63), (161,64),
  (65,65), (66,66), (67,67), (68,68), (69,69), (70,70), (71,71), (72,72), (73,73), (74,74), (75,75), (76,76), (77,77), (78,78),
  (79,79), (80,80), (81,81), (82,82), (83,83), (84,84), (85,85), (86,86), (87,87), (88,88), (89,89), (90,90), (196,91), (214,92),
  (209,93), (220,94), (167,95), (191,96), (97,97), (98,98), (99,99), (100,100), (101,101), (102,102), (103,103), (104,104),
  (105,105), (106,106), (107,107), (108,108), (109,109), (110,110), (111,111), (112,112), (113,113), (114,114), (115,115),
  (116,116), (117,117), (118,118), (119,119), (120,120), (121,121), (122,122), (228,123), (246,124), (241,125), (252,126), (224,127)]"
  by code_simp

lemma GSM7_BASIC_distinct: "distinct GSM7_BASIC"
  by code_simp

lemma GSM7_BASIC_esc: "s < 128 \<Longrightarrow> GSM7_BASIC ! s = 0x1B \<Longrightarrow> s = 0x1B"
proof -
  assume s: "s < 128" and e: "GSM7_BASIC ! s = 0x1B"
  have "GSM7_BASIC ! 27 = 0x1B" by (simp add: GSM7_BASIC_def)
  with s e show "s = 0x1B"
    using nth_eq_iff_index_eq [OF GSM7_BASIC_distinct, of s 27] by simp
qed

lemma GSM7_MAP_Some:
  assumes "map_of GSM7_MAP c = Some s"
  shows "s < 128" "s \<noteq> 0x1B" "GSM7_BASIC ! s = c"
proof -
  from map_of_SomeD [OF assms] have m: "(c, s) \<in> set (zip GSM7_BASIC [0..<128])" and c: "c \<noteq> 27"
    by (auto simp: GSM7_MAP_def)
  from m show s: "s < 128" and n: "GSM7_BASIC ! s = c" by (auto simp: set_zip)
  have "GSM7_BASIC ! 27 = 27" by (simp add: GSM7_BASIC_def)
  with c n show "s \<noteq> 0x1B" by auto
qed

lemma GSM7_EXT_table:
  "list_all (\<lambda>(c, s). s < 128 \<and> map_of GSM7_EXT_REV s = Some c
     \<and> c \<notin> set GSM7_BASIC) GSM7_EXT"
  by code_simp

lemma GSM7_MAP_dom: "map_of GSM7_MAP c \<noteq> None \<Longrightarrow> c \<in> set GSM7_BASIC"
  using GSM7_MAP_Some(1,3) [of c] by (auto simp flip: GSM7_BASIC_length)

lemma GSM7_EXT_Some:
  assumes "map_of GSM7_EXT c = Some s"
  shows "s < 128" "map_of GSM7_EXT_REV s = Some c" "map_of GSM7_MAP c = None"
proof -
  from map_of_SomeD [OF assms] GSM7_EXT_table
  have *: "s < 128" "map_of GSM7_EXT_REV s = Some c" "c \<notin> set GSM7_BASIC"
    by (auto simp: list_all_iff)
  then show "s < 128" and "map_of GSM7_EXT_REV s = Some c" by auto
  from * GSM7_MAP_dom [of c] show "map_of GSM7_MAP c = None" by blast
qed

lemma gsm7_char_cases:
  assumes "gsm7_char c"
  obtains (basic) s where "map_of GSM7_MAP c = Some s" "septet_len c = 1"
  | (ext) s where "map_of GSM7_EXT c = Some s" "map_of GSM7_MAP c = None" "septet_len c = 2"
proof (cases "map_of GSM7_EXT c")
  case None
  with assms basic show thesis by (auto simp: gsm7_char_def septet_len_def)
next
  case (Some s)
  with ext GSM7_EXT_Some(3) [OF Some] show thesis by (simp add: septet_len_def)
qed

subsection \<open>Septets and text\<close>

lemma to_septets_gsm7:
  assumes "is_gsm7 t"
  obtains ss where "to_septets t = Inr ss" "from_septets ss = t"
    "length ss = sum_list (map septet_len t)" "\<forall>s \<in> set ss. s < 128"
proof -
  have "is_gsm7 t \<Longrightarrow> \<exists>ss. to_septets t = Inr ss \<and> from_septets_esc False ss = t
      \<and> length ss = sum_list (map septet_len t) \<and> (\<forall>s \<in> set ss. s < 128)"
  proof (induction t)
    case Nil
    then show ?case by simp
  next
    case (Cons c cs)
    then obtain ss where ss: "to_septets cs = Inr ss" "from_septets_esc False ss = cs"
        "length ss = sum_list (map septet_len cs)" "\<forall>s \<in> set ss. s < 128"
      by (auto simp: is_gsm7_def)
    from Cons.prems have "gsm7_char c" by (simp add: is_gsm7_def)
    then show ?case
      by (cases rule: gsm7_char_cases)
         (use ss in \<open>auto dest: GSM7_MAP_Some GSM7_EXT_Some\<close>)
  qed
  with assms that show thesis by (auto simp: from_septets_def)
qed

lemma to_septets_not_gsm7: "\<not> is_gsm7 t \<Longrightarrow> to_septets t = Inl ValueError"
proof (induction t)
  case Nil
  then show ?case by (simp add: is_gsm7_def)
next
  case (Cons c cs)
  then show ?case
    by (cases "gsm7_char c")
       (auto simp: is_gsm7_def gsm7_char_def split: option.splits)
qed


section \<open>Septet packing\<close>

text \<open>The inner \<open>while shift >= 8\<close> loop of \<open>pack_septets\<close>: the bytes it appends, and the
  accumulator and shift it leaves.\<close>

fun flush_bytes :: "nat \<Rightarrow> nat \<Rightarrow> pybytes \<times> nat \<times> nat" where
  "flush_bytes val shift =
     (if 8 \<le> shift then
        (case flush_bytes (drop_bit 8 val) (shift - 8) of
           (out, v, sh) \<Rightarrow> ((val AND 0xFF) # out, v, sh))
      else ([], val, shift))"

declare flush_bytes.simps [simp del]

fun pack_loop :: "nat list \<Rightarrow> nat \<Rightarrow> nat \<Rightarrow> pybytes" where
  "pack_loop [] val shift = (if shift \<noteq> 0 then [val AND 0xFF] else [])"
| "pack_loop (s # ss) val shift =
     (case flush_bytes (val OR push_bit shift (s AND 0x7F)) (shift + 7) of
        (out, v, sh) \<Rightarrow> out @ pack_loop ss v sh)"

definition pack_septets :: "nat list \<Rightarrow> nat \<Rightarrow> pybytes" where
  "pack_septets septets fill_bits = pack_loop septets 0 fill_bits"

text \<open>\<open>int.from_bytes(data, "little")\<close>.\<close>

fun from_le :: "pybytes \<Rightarrow> nat" where
  "from_le [] = 0"
| "from_le (b # bs) = b + 256 * from_le bs"

definition unpack_septets :: "pybytes \<Rightarrow> int \<Rightarrow> nat \<Rightarrow> nat list" where
  "unpack_septets data count fill_bits =
     (let val = drop_bit fill_bits (from_le data)
      in map (\<lambda>i. drop_bit (7 * i) val AND 0x7F) [0..<nat count])"

subsection \<open>Packing as arithmetic\<close>

lemma and_127: "(x::nat) AND 127 = x mod 128"
  using take_bit_eq_mask [of 7 x] by (simp add: take_bit_eq_mod mask_eq_exp_minus_1)

lemma and_255: "(x::nat) AND 255 = x mod 256"
  using take_bit_eq_mask [of 8 x] by (simp add: take_bit_eq_mod mask_eq_exp_minus_1)

lemma and_15: "(x::nat) AND 15 = x mod 16"
  using take_bit_eq_mask [of 4 x] by (simp add: take_bit_eq_mod mask_eq_exp_minus_1)

lemma or_push_bit:
  fixes v x :: nat
  assumes "v < 2 ^ n"
  shows "v OR push_bit n x = v + x * 2 ^ n"
proof -
  have "take_bit n v = v" using assms by (simp add: take_bit_nat_eq_self)
  then have "v AND push_bit n x = 0"
    by (metis take_bit_push_bit diff_self_eq_0 and_zero_eq take_bit_0 take_bit_eq_mask
        and.assoc and.commute)
  then show ?thesis
    by (simp add: disjunctive_add_eq_or [symmetric] push_bit_eq_mult)
qed


text \<open>The septets a packed stream carries, as one number.\<close>

fun septets_val :: "nat list \<Rightarrow> nat" where
  "septets_val [] = 0"
| "septets_val (s # ss) = s mod 128 + 128 * septets_val ss"

lemma from_le_append: "from_le (xs @ ys) = from_le xs + 256 ^ length xs * from_le ys"
  by (induction xs) (simp_all add: algebra_simps)

lemma flush_bytes_spec:
  "flush_bytes v sh = (out, v', sh') \<Longrightarrow>
     v = from_le out + 2 ^ (8 * length out) * v' \<and> sh = 8 * length out + sh' \<and> sh' < 8
     \<and> (v < 2 ^ sh \<longrightarrow> v' < 2 ^ sh') \<and> (\<forall>b \<in> set out. b < 256)"
proof (induction v sh arbitrary: out v' sh' rule: flush_bytes.induct)
  case (1 v sh)
  show ?case
  proof (cases "8 \<le> sh")
    case False
    with "1.prems" show ?thesis by (subst (asm) flush_bytes.simps) auto
  next
    case True
    obtain o1 v1 s1 where f: "flush_bytes (drop_bit 8 v) (sh - 8) = (o1, v1, s1)"
      by (metis prod_cases3)
    with "1.prems" True have r: "out = (v AND 255) # o1" "v' = v1" "sh' = s1"
      by (subst (asm) flush_bytes.simps, simp)+
    from "1.IH" [OF True f]
    have ih: "v div 256 = from_le o1 + 2 ^ (8 * length o1) * v1" "sh - 8 = 8 * length o1 + s1"
      "s1 < 8" "v div 256 < 2 ^ (sh - 8) \<longrightarrow> v1 < 2 ^ s1" "\<forall>b \<in> set o1. b < 256"
      by (simp_all add: drop_bit_eq_div)
    have "v = v mod 256 + 256 * (v div 256)" by simp
    also have "\<dots> = from_le out + 2 ^ (8 * length out) * v'"
      by (simp add: ih(1) r and_255 algebra_simps power_add)
    finally have "v = from_le out + 2 ^ (8 * length out) * v'" .
    moreover have "v div 256 < 2 ^ (sh - 8)" if "v < 2 ^ sh"
    proof -
      have "(2::nat) ^ sh = 2 ^ (sh - 8) * 256"
        using True power_add [of "2::nat" "sh - 8" 8] by simp
      with that show ?thesis by (simp add: less_mult_imp_div_less)
    qed
    ultimately show ?thesis using ih True r by (auto simp: and_255)
  qed
qed

lemma pack_loop_spec:
  assumes "v < 2 ^ sh" "ss \<noteq> [] \<or> sh < 8"
  shows "from_le (pack_loop ss v sh) = v + 2 ^ sh * septets_val ss
     \<and> length (pack_loop ss v sh) = (sh + 7 * length ss + 7) div 8
     \<and> (\<forall>b \<in> set (pack_loop ss v sh). b < 256)"
  using assms
proof (induction ss arbitrary: v sh)
  case Nil
  then have "(2::nat) ^ sh \<le> 2 ^ 8" by (intro power_increasing) auto
  with Nil have "v < 256" by simp
  with Nil show ?case by (auto simp: and_255)
next
  case (Cons s ss)
  let ?w = "v OR push_bit sh (s AND 127)"
  obtain out v' sh' where f: "flush_bytes ?w (sh + 7) = (out, v', sh')"
    by (metis prod_cases3)
  have w: "?w = v + (s mod 128) * 2 ^ sh" using Cons.prems(1) by (simp add: or_push_bit and_127)
  have "v + (s mod 128) * 2 ^ sh < 2 ^ sh + 127 * 2 ^ sh"
    using Cons.prems(1) by (intro add_less_le_mono mult_le_mono1) auto
  then have "?w < 2 ^ (sh + 7)" unfolding w by (simp add: power_add)
  with flush_bytes_spec [OF f] have
    f': "?w = from_le out + 2 ^ (8 * length out) * v'" "sh + 7 = 8 * length out + sh'"
      "sh' < 8" "v' < 2 ^ sh'" "\<forall>b \<in> set out. b < 256" by auto
  from Cons.IH [OF f'(4)] f'(3) have
    ih: "from_le (pack_loop ss v' sh') = v' + 2 ^ sh' * septets_val ss"
      "length (pack_loop ss v' sh') = (sh' + 7 * length ss + 7) div 8"
      "\<forall>b \<in> set (pack_loop ss v' sh'). b < 256" by auto
  have p: "pack_loop (s # ss) v sh = out @ pack_loop ss v' sh'"
    by (simp only: pack_loop.simps f prod.case)
  have "(256::nat) ^ length out = 2 ^ (8 * length out)" by (simp add: power_mult)
  then have "from_le (pack_loop (s # ss) v sh)
      = ?w + 2 ^ (8 * length out + sh') * septets_val ss"
    unfolding p f'(1) by (simp add: from_le_append ih(1) power_add algebra_simps)
  also have "\<dots> = v + 2 ^ sh * septets_val (s # ss)"
    unfolding f'(2) [symmetric] w by (simp add: power_add algebra_simps)
  finally have 1: "from_le (pack_loop (s # ss) v sh) = v + 2 ^ sh * septets_val (s # ss)" .
  have "length (pack_loop (s # ss) v sh) = length out + (sh' + 7 * length ss + 7) div 8"
    by (simp only: p length_append ih(2))
  also have "\<dots> = (8 * length out + sh' + 7 * length ss + 7) div 8" by simp
  also have "\<dots> = (sh + 7 * length (s # ss) + 7) div 8" by (simp add: f'(2) [symmetric])
  finally have 2: "length (pack_loop (s # ss) v sh) = (sh + 7 * length (s # ss) + 7) div 8" .
  from ih(3) f'(5) have "\<forall>b \<in> set (pack_loop (s # ss) v sh). b < 256"
    by (auto simp only: p set_append)
  with 1 2 show ?case by blast
qed

lemma septets_val_nth:
  "i < length ss \<Longrightarrow> septets_val ss div 2 ^ (7 * i) mod 128 = ss ! i mod 128"
proof (induction ss arbitrary: i)
  case Nil
  then show ?case by simp
next
  case (Cons s ss)
  show ?case
  proof (cases i)
    case 0
    then show ?thesis by simp
  next
    case (Suc j)
    have "septets_val (s # ss) div 2 ^ (7 * i) = (s mod 128 + 128 * septets_val ss) div 128 div 2 ^ (7 * j)"
      by (simp add: Suc power_add div_mult2_eq)
    also have "\<dots> = septets_val ss div 2 ^ (7 * j)" by simp
    finally show ?thesis using Cons Suc by simp
  qed
qed

lemma unpack_val:
  assumes "from_le data = 2 ^ fill * septets_val ss"
  shows "unpack_septets data (int (length ss)) fill = map (\<lambda>s. s mod 128) ss"
  by (rule nth_equalityI)
     (simp_all add: unpack_septets_def assms drop_bit_eq_div and_127 septets_val_nth)

lemma pack_septets_val:
  assumes "ss \<noteq> [] \<or> fill < 8"
  shows "from_le (pack_septets ss fill) = 2 ^ fill * septets_val ss"
    and "length (pack_septets ss fill) = (fill + 7 * length ss + 7) div 8"
    and "\<forall>b \<in> set (pack_septets ss fill). b < 256"
  using pack_loop_spec [of 0 fill ss] assms by (simp_all add: pack_septets_def)

lemma unpack_pack:
  assumes "ss \<noteq> [] \<or> fill < 8" "\<forall>s \<in> set ss. s < 128"
  shows "unpack_septets (pack_septets ss fill) (int (length ss)) fill = ss"
  using unpack_val [OF pack_septets_val(1) [OF assms(1)]] assms(2) by (simp add: map_idI)


section \<open>Addresses\<close>

text \<open>\<open>int(c, 16)\<close> for one character: any Unicode decimal digit, or a hexadecimal letter.\<close>

definition hex_value :: "nat \<Rightarrow> nat option" where
  "hex_value c =
     (case decimal_value c of
        Some d \<Rightarrow> Some d
      | None \<Rightarrow> if 97 \<le> c \<and> c \<le> 102 then Some (c - 87)
               else if 65 \<le> c \<and> c \<le> 70 then Some (c - 55) else None)"

fun encode_bcd :: "pystr \<Rightarrow> exn + pybytes" where
  "encode_bcd (a # b # rest) =
     (case (hex_value a, hex_value b) of
        (Some lo, Some hi) \<Rightarrow>
          bind_exn (encode_bcd rest) (\<lambda>r. Inr ((push_bit 4 hi OR lo) # r))
      | _ \<Rightarrow> Inl ValueError)"
| "encode_bcd _ = Inr []"

definition encode_address :: "pystr \<Rightarrow> exn + (nat \<times> nat \<times> pybytes)" where
  "encode_address number =
     (let n = py_strip number;
          (toa, digits) = (if py_startswith n (str_of ''+'') then (0x91, drop 1 n) else (0x81, n))
      in if \<not> py_isdigit digits then Inl ValueError
         else
           (let padded = digits @ (if odd (length digits) then str_of ''F'' else [])
            in bind_exn (encode_bcd padded) (\<lambda>bcd. Inr (length digits, toa, bcd))))"

text \<open>\<open>f"{n:x}"\<close> for a nibble.\<close>

definition hex_digit :: "nat \<Rightarrow> nat" where
  "hex_digit n = (if n < 10 then 48 + n else 87 + n)"

definition decode_address :: "nat \<Rightarrow> nat \<Rightarrow> pybytes \<Rightarrow> pystr" where
  "decode_address digit_count toa data =
     (if toa AND 0x70 = 0x50 then
        from_septets (unpack_septets data (int (digit_count * 4 div 7)) 0)
      else
        (let digits = concat (map (\<lambda>b. [hex_digit (b AND 0x0F), hex_digit (drop_bit 4 b AND 0x0F)]) data);
             s = filter (\<lambda>c. c \<noteq> 70) (ascii_upper (take digit_count digits))
         in if toa AND 0x70 = 0x10 then str_of ''+'' @ s else s))"

subsection \<open>Round trip of addresses\<close>

definition ascii_digits :: "pystr \<Rightarrow> bool" where
  "ascii_digits ds \<longleftrightarrow> ds \<noteq> [] \<and> list_all ascii_digit ds"

lemma ascii_digits_isdigit: "ascii_digits ds \<Longrightarrow> py_isdigit ds"
  by (auto simp: ascii_digits_def py_isdigit_def list_all_iff)

lemma hex_value_digit [simp]: "d < 10 \<Longrightarrow> hex_value (48 + d) = Some d"
  by (simp add: hex_value_def)

lemma nibbles:
  fixes lo hi :: nat
  assumes "lo < 16" "hi < 16"
  shows "(push_bit 4 hi OR lo) AND 15 = lo" "drop_bit 4 (push_bit 4 hi OR lo) AND 15 = hi"
    "push_bit 4 hi OR lo < 256"
proof -
  have "push_bit 4 hi OR lo = lo + 16 * hi"
    using or_push_bit [of lo 4 hi] assms(1) by (simp add: or.commute)
  with assms show "(push_bit 4 hi OR lo) AND 15 = lo" "drop_bit 4 (push_bit 4 hi OR lo) AND 15 = hi"
    "push_bit 4 hi OR lo < 256"
    by (simp_all add: and_15 drop_bit_eq_div)
qed

definition unpack_nibbles :: "pybytes \<Rightarrow> pystr" where
  "unpack_nibbles data =
     concat (map (\<lambda>b. [hex_digit (b AND 0x0F), hex_digit (drop_bit 4 b AND 0x0F)]) data)"

lemma encode_bcd_digits:
  assumes "list_all ascii_digit ds"
  shows "\<exists>bcd. encode_bcd (ds @ (if odd (length ds) then [70] else [])) = Inr bcd
     \<and> length bcd = (length ds + 1) div 2 \<and> (\<forall>b \<in> set bcd. b < 256)
     \<and> take (length ds) (unpack_nibbles bcd) = ds"
  using assms
proof (induction ds rule: induct_list012)
  case 1
  then show ?case by (simp add: unpack_nibbles_def)
next
  case (2 v)
  then obtain x where x: "v = 48 + x" "x < 10" by (auto elim!: ascii_digitE)
  have "hex_value 70 = Some 15" by code_simp
  then show ?case using x nibbles [of x 15] by (simp add: unpack_nibbles_def hex_digit_def)
next
  case (3 a b rest)
  then obtain x y where xy: "a = 48 + x" "x < 10" "b = 48 + y" "y < 10"
    by (auto elim!: ascii_digitE)
  from 3 obtain bcd where
    "encode_bcd (rest @ (if odd (length rest) then [70] else [])) = Inr bcd"
    "length bcd = (length rest + 1) div 2" "\<forall>b \<in> set bcd. b < 256"
    "take (length rest) (unpack_nibbles bcd) = rest" by auto
  then show ?case using xy nibbles [of x y]
    by (simp add: unpack_nibbles_def hex_digit_def)
qed

lemma ascii_digits_plain: "list_all ascii_digit ds \<Longrightarrow> filter (\<lambda>c. c \<noteq> 70) (ascii_upper ds) = ds"
  by (induction ds) (auto simp: ascii_upper_def ascii_digit_def)

lemma strip_digits: "list_all ascii_digit ds \<Longrightarrow> py_strip ds = ds"
  by (rule py_strip_no_space) (auto simp: list_all_iff space_not_digit)

lemma encode_address_national:
  assumes "ascii_digits ds"
  obtains bcd where "encode_address ds = Inr (length ds, 0x81, bcd)"
    "length bcd = (length ds + 1) div 2" "\<forall>b \<in> set bcd. b < 256"
    "decode_address (length ds) 0x81 bcd = ds"
proof -
  from assms have d: "list_all ascii_digit ds" "ds \<noteq> []" by (auto simp: ascii_digits_def)
  from encode_bcd_digits [OF d(1)] obtain bcd where b:
    "encode_bcd (ds @ (if odd (length ds) then [70] else [])) = Inr bcd"
    "length bcd = (length ds + 1) div 2" "\<forall>b \<in> set bcd. b < 256"
    "take (length ds) (unpack_nibbles bcd) = ds" by blast
  have "hd ds \<noteq> 43" using d by (cases ds) (auto simp: ascii_digit_def)
  then have "\<not> py_startswith ds (str_of ''+'')"
    using d(2) by (cases ds) (auto simp: py_startswith_def str_of_def)
  then have "encode_address ds = Inr (length ds, 0x81, bcd)"
    using b(1) d ascii_digits_isdigit [OF assms]
    by (simp add: encode_address_def strip_digits str_of_def split: if_splits)
  moreover have "decode_address (length ds) 0x81 bcd = ds"
    using b(4) by (simp add: decode_address_def Let_def ascii_digits_plain [OF d(1)]
        flip: unpack_nibbles_def)
  ultimately show thesis using that b(2,3) by blast
qed

lemma encode_address_international:
  assumes "ascii_digits ds"
  obtains bcd where "encode_address (43 # ds) = Inr (length ds, 0x91, bcd)"
    "length bcd = (length ds + 1) div 2" "\<forall>b \<in> set bcd. b < 256"
    "decode_address (length ds) 0x91 bcd = 43 # ds"
proof -
  from assms have d: "list_all ascii_digit ds" "ds \<noteq> []" by (auto simp: ascii_digits_def)
  from encode_bcd_digits [OF d(1)] obtain bcd where b:
    "encode_bcd (ds @ (if odd (length ds) then [70] else [])) = Inr bcd"
    "length bcd = (length ds + 1) div 2" "\<forall>b \<in> set bcd. b < 256"
    "take (length ds) (unpack_nibbles bcd) = ds" by blast
  have "\<not> py_isspace 43" by code_simp
  then have "py_strip (43 # ds) = 43 # ds"
    using d by (intro py_strip_no_space) (auto simp: list_all_iff space_not_digit)
  then have "encode_address (43 # ds) = Inr (length ds, 0x91, bcd)"
    using b(1) ascii_digits_isdigit [OF assms]
    by (simp add: encode_address_def str_of_def py_startswith_def split: if_splits)
  moreover have "decode_address (length ds) 0x91 bcd = 43 # ds"
    using b(4) by (simp add: decode_address_def Let_def ascii_digits_plain [OF d(1)] str_of_def
        flip: unpack_nibbles_def)
  ultimately show thesis using that b(2,3) by blast
qed


section \<open>UTF-16, big endian\<close>

text \<open>A character's UTF-16-BE bytes; a lone surrogate raises \<open>UnicodeEncodeError\<close>, a
  \<open>ValueError\<close>.\<close>

definition be16 :: "nat \<Rightarrow> pybytes" where
  "be16 u = [u div 256, u mod 256]"

definition utf16_char :: "nat \<Rightarrow> exn + pybytes" where
  "utf16_char c =
     (if is_surrogate c then Inl ValueError
      else if c < 0x10000 then Inr (be16 c)
      else Inr (be16 (0xD800 + (c - 0x10000) div 1024) @ be16 (0xDC00 + (c - 0x10000) mod 1024)))"

definition utf16_encode :: "pystr \<Rightarrow> exn + pybytes" where
  "utf16_encode s = bind_exn (traverse utf16_char s) (\<lambda>bs. Inr (concat bs))"

text \<open>\<open>decode("utf-16-be", errors="replace")\<close>: an unpaired surrogate is one replacement
  character, and so is a truncated tail.\<close>

fun utf16_decode :: "pybytes \<Rightarrow> pystr" where
  "utf16_decode [] = []"
| "utf16_decode [b] = [REPLACEMENT]"
| "utf16_decode [b1, b2] =
     (let u = 256 * b1 + b2 in if is_surrogate u then [REPLACEMENT] else [u])"
| "utf16_decode [b1, b2, b3] =
     (let u = 256 * b1 + b2
      in if 0xD800 \<le> u \<and> u \<le> 0xDBFF then [REPLACEMENT]
         else [if is_surrogate u then REPLACEMENT else u, REPLACEMENT])"
| "utf16_decode (b1 # b2 # b3 # b4 # bs) =
     (let u = 256 * b1 + b2; v = 256 * b3 + b4
      in if 0xD800 \<le> u \<and> u \<le> 0xDBFF then
           (if 0xDC00 \<le> v \<and> v \<le> 0xDFFF
            then (0x10000 + (u - 0xD800) * 1024 + (v - 0xDC00)) # utf16_decode bs
            else REPLACEMENT # utf16_decode (b3 # b4 # bs))
         else (if is_surrogate u then REPLACEMENT else u) # utf16_decode (b3 # b4 # bs))"

definition utf16_len :: "nat \<Rightarrow> nat" where
  "utf16_len c = (if c < 0x10000 then 2 else 4)"

section \<open>Splitting a long text\<close>

text \<open>The loop of \<open>_split_gsm7\<close> and \<open>_split_ucs2\<close>: the two differ in the cost of a
  character and the limit only.\<close>

fun split_loop :: "(nat \<Rightarrow> nat) \<Rightarrow> nat \<Rightarrow> pystr \<Rightarrow> pystr \<Rightarrow> nat \<Rightarrow> pystr list" where
  "split_loop cost limit [] cur cur_len = (if cur \<noteq> [] then [cur] else [])"
| "split_loop cost limit (c # cs) cur cur_len =
     (if cur_len + cost c > limit then cur # split_loop cost limit cs [c] (cost c)
      else split_loop cost limit cs (cur @ [c]) (cur_len + cost c))"

definition split_gsm7 :: "pystr \<Rightarrow> pystr list" where
  "split_gsm7 s = split_loop septet_len MULTI_GSM7 s [] 0"

definition split_ucs2 :: "pystr \<Rightarrow> exn + pystr list" where
  "split_ucs2 s =
     (if list_ex is_surrogate s then Inl ValueError
      else Inr (split_loop utf16_len MULTI_UCS2 s [] 0))"

section \<open>SMS-SUBMIT\<close>

text \<open>The recipient pattern \<open>\+?[0-9]{3,20}\<close> (a full match) that \<open>api.py\<close> and
  \<open>worker.py\<close> check before a number reaches the encoder.\<close>

definition e164 :: "pystr \<Rightarrow> bool" where
  "e164 number =
     (let d = (if take 1 number = [43] then drop 1 number else number)
      in 3 \<le> length d \<and> length d \<le> 20 \<and> list_all ascii_digit d)"

definition hex_lower :: "pybytes \<Rightarrow> pystr" where
  "hex_lower bs = concat (map (\<lambda>b. [hex_digit (b div 16), hex_digit (b mod 16)]) bs)"

definition fill_bits :: "nat \<Rightarrow> nat" where
  "fill_bits udh_full_len = (7 - (udh_full_len * 8) mod 7) mod 7"

text \<open>The user data of one part: (TP-UDL, TP-UD).\<close>

definition submit_ud :: "bool \<Rightarrow> pybytes \<Rightarrow> pystr \<Rightarrow> exn + (nat \<times> pybytes)" where
  "submit_ud gsm7 udh part =
     (if gsm7 then
        bind_exn (to_septets part) (\<lambda>septets.
          if udh \<noteq> [] then
            (let udh_full = length udh # udh;
                 fill = fill_bits (length udh_full)
             in Inr ((length udh_full * 8 + fill) div 7 + length septets,
                     udh_full @ pack_septets septets fill))
          else Inr (length septets, pack_septets septets 0))
      else
        bind_exn (utf16_encode part) (\<lambda>payload.
          let ud = (if udh \<noteq> [] then length udh # udh @ payload else payload)
          in Inr (length ud, ud)))"

text \<open>One iteration of the loop over the parts: the TPDU bytes.\<close>

definition submit_tpdu ::
  "pystr \<Rightarrow> bool \<Rightarrow> bool \<Rightarrow> nat \<Rightarrow> nat \<Rightarrow> nat \<Rightarrow> pystr \<Rightarrow> exn + pybytes" where
  "submit_tpdu number gsm7 multi ref n_parts seq part =
     bind_exn (if multi then py_bytes [0x00, 0x03, ref, n_parts, seq] else Inr []) (\<lambda>udh.
     bind_exn (encode_address number) (\<lambda>(digit_count, toa, bcd).
     bind_exn (py_bytes [0x01 OR (if udh \<noteq> [] then 0x40 else 0), 0x00, digit_count, toa]) (\<lambda>head.
     bind_exn (submit_ud gsm7 udh part) (\<lambda>(udl, ud).
     bind_exn (py_bytes [udl]) (\<lambda>udl_byte.
       Inr (head @ bcd @ [0x00, if gsm7 then 0x00 else 0x08] @ udl_byte @ ud))))))"

definition submit_parts :: "pystr \<Rightarrow> exn + pystr list" where
  "submit_parts s =
     (if is_gsm7 s then
        Inr (if sum_list (map septet_len s) \<le> SINGLE_GSM7 then [s] else split_gsm7 s)
      else
        bind_exn (utf16_encode s) (\<lambda>enc.
          if length enc \<le> SINGLE_UCS2 then Inr [s] else split_ucs2 s))"

text \<open>\<open>rnd\<close> is the byte \<open>os.urandom(1)[0]\<close> returns.\<close>

definition build_submit_pdus :: "nat \<Rightarrow> pystr \<Rightarrow> pystr \<Rightarrow> exn + (pystr \<times> nat) list" where
  "build_submit_pdus rnd number s =
     bind_exn (submit_parts s) (\<lambda>parts.
       let multi = length parts > 1; ref = (if multi then rnd else 0)
       in traverse (\<lambda>(seq, part).
            bind_exn (submit_tpdu number (is_gsm7 s) multi ref (length parts) seq part)
              (\<lambda>tpdu. Inr (str_of ''00'' @ ascii_upper (hex_lower tpdu), length tpdu)))
            (zip [1..<Suc (length parts)] parts))"


section \<open>SMS-DELIVER\<close>

record deliver =
  sender :: pystr
  content :: pystr
  scts :: pystr
  concat_ref :: "(nat \<times> nat \<times> nat) option"

datatype decoded = StatusReport | OtherTpdu | Deliver deliver

text \<open>\<open>f"{n:02d}"\<close>.\<close>

definition dec02 :: "nat \<Rightarrow> pystr" where
  "dec02 n = (if n < 10 then 48 # nat_dec n else nat_dec n)"

definition sw :: "nat \<Rightarrow> nat" where
  "sw b = (b AND 0x0F) * 10 + (drop_bit 4 b AND 0x0F)"

definition decode_scts :: "pybytes \<Rightarrow> exn + pystr" where
  "decode_scts data =
     (case map sw (take 6 data) of
        [yy, mm, dd, hh, mi, ss] \<Rightarrow>
          bind_exn (py_index data 6) (\<lambda>tz_raw.
            let sign = (if tz_raw AND 0x08 \<noteq> 0 then str_of ''-'' else str_of ''+'');
                quarters = (tz_raw AND 0x07) * 10 + (drop_bit 4 tz_raw AND 0x0F)
            in Inr (str_of ''20'' @ dec02 yy @ str_of ''-'' @ dec02 mm @ str_of ''-'' @ dec02 dd
                 @ str_of ''T'' @ dec02 hh @ str_of '':'' @ dec02 mi @ str_of '':'' @ dec02 ss
                 @ sign @ dec02 (quarters * 15 div 60) @ str_of '':'' @ dec02 (quarters * 15 mod 60)))
      | _ \<Rightarrow> Inl ValueError)"

text \<open>\<open>bytes.fromhex\<close>: ASCII white space between byte pairs is skipped.\<close>

definition ascii_hex_value :: "nat \<Rightarrow> nat option" where
  "ascii_hex_value c =
     (if 48 \<le> c \<and> c \<le> 57 then Some (c - 48)
      else if 97 \<le> c \<and> c \<le> 102 then Some (c - 87)
      else if 65 \<le> c \<and> c \<le> 70 then Some (c - 55) else None)"

fun fromhex :: "pystr \<Rightarrow> exn + pybytes" where
  "fromhex [] = Inr []"
| "fromhex (c # cs) =
     (if c \<in> {9, 10, 11, 12, 13, 32} then fromhex cs
      else (case cs of
          [] \<Rightarrow> Inl ValueError
        | d # ds \<Rightarrow>
            (case (ascii_hex_value c, ascii_hex_value d) of
               (Some h, Some l) \<Rightarrow> bind_exn (fromhex ds) (\<lambda>r. Inr ((16 * h + l) # r))
             | _ \<Rightarrow> Inl ValueError)))"

definition dcs_alphabet :: "nat \<Rightarrow> nat" where
  "dcs_alphabet dcs =
     (if dcs AND 0xC0 = 0x00 then drop_bit 2 dcs AND 0x03
      else if dcs AND 0xF0 \<in> {0xF0, 0xE0, 0xC0, 0xD0} then drop_bit 2 dcs AND 0x01
      else 0)"

text \<open>The loop over the information elements of the user data header; the list is what is
  left of the header at index \<open>j\<close>.\<close>

fun parse_udh :: "pybytes \<Rightarrow> (nat \<times> nat \<times> nat) option \<Rightarrow> exn + (nat \<times> nat \<times> nat) option" where
  "parse_udh (iei # ie_len # rest) cr =
     (let ie = take ie_len rest
      in bind_exn
           (if iei = 0x00 \<and> ie_len = 3 then
              bind_exn (py_index ie 0) (\<lambda>r. bind_exn (py_index ie 1) (\<lambda>t.
              bind_exn (py_index ie 2) (\<lambda>s. Inr (Some (r, t, s)))))
            else if iei = 0x08 \<and> ie_len = 4 then
              bind_exn (py_index ie 0) (\<lambda>r1. bind_exn (py_index ie 1) (\<lambda>r2.
              bind_exn (py_index ie 2) (\<lambda>t. bind_exn (py_index ie 3) (\<lambda>s.
                Inr (Some (push_bit 8 r1 OR r2, t, s))))))
            else Inr cr)
           (\<lambda>cr'. parse_udh (drop ie_len rest) cr'))"
| "parse_udh _ cr = Inr cr"

text \<open>From the user data header indicator on: (text, concatenation reference).\<close>

definition decode_ud ::
  "nat \<Rightarrow> bool \<Rightarrow> nat \<Rightarrow> pybytes \<Rightarrow> exn + (pystr \<times> (nat \<times> nat \<times> nat) option)" where
  "decode_ud dcs udhi udl ud =
     (let alphabet = dcs_alphabet dcs;
          with_udh = udhi \<and> ud \<noteq> [];
          udh = (if with_udh then take (hd ud) (drop 1 ud) else []);
          udh_full_len = (if with_udh then hd ud + 1 else 0);
          payload = (if with_udh then drop udh_full_len ud else ud)
      in bind_exn (if with_udh then parse_udh udh None else Inr None) (\<lambda>cr.
           let txt =
             (if alphabet = 0 then
                (if udh_full_len \<noteq> 0 then
                   (let fill = fill_bits udh_full_len
                    in from_septets (unpack_septets payload
                         (int udl - int ((udh_full_len * 8 + fill) div 7)) fill))
                 else from_septets (unpack_septets payload (int udl) 0))
              else if alphabet = 2 then utf16_decode payload
              else payload)
           in Inr (txt, cr)))"

definition decode_deliver :: "pystr \<Rightarrow> exn + decoded" where
  "decode_deliver pdu_hex =
     bind_exn (fromhex (py_strip pdu_hex)) (\<lambda>b.
     bind_exn (py_index b 0) (\<lambda>smsc_len.
     let i = 1 + smsc_len in
     bind_exn (py_index b i) (\<lambda>fo.
     let i = i + 1; mti = fo AND 0x03 in
     if mti = 0x02 then Inr StatusReport
     else if mti \<noteq> 0x00 then Inr OtherTpdu
     else
       bind_exn (py_index b i) (\<lambda>digit_count.
       bind_exn (py_index b (i + 1)) (\<lambda>toa.
       let addr_bytes = (digit_count + 1) div 2;
           snd_addr = decode_address digit_count toa (take addr_bytes (drop (i + 2) b));
           i = i + 2 + addr_bytes in
       bind_exn (py_index b i) (\<lambda>pid.
       bind_exn (py_index b (i + 1)) (\<lambda>dcs.
       let i = i + 2 in
       bind_exn (decode_scts (take 7 (drop i b))) (\<lambda>ts.
       let i = i + 7 in
       bind_exn (py_index b i) (\<lambda>udl.
       bind_exn (decode_ud dcs (fo AND 0x40 \<noteq> 0) udl (drop (i + 1) b)) (\<lambda>(txt, cr).
         Inr (Deliver \<lparr>sender = snd_addr, content = txt, scts = ts, concat_ref = cr\<rparr>)))))))))))"

end
