(* ===== verification/Sms_Roundtrip.thy ===== *)
theory Sms_Roundtrip
  imports Sms_Codec
begin

unbundle bit_operations_syntax

text \<open>
  What the SMS codec guarantees end to end: UTF-16 round trips, the split of a long text
  loses nothing and fills every part within the limit of a short message, an SMS-SUBMIT
  never needs more than 255 parts for a text the API accepts, and the SMS-DELIVER decoder
  reads back the text and the concatenation reference of every part the encoder built.
\<close>

section \<open>UTF-16\<close>

lemma be16_value: "256 * (c div 256) + c mod 256 = (c::nat)"
  by simp

lemma utf16_decode_plain:
  "\<not> is_surrogate (256 * b1 + b2) \<Longrightarrow>
     utf16_decode (b1 # b2 # rest) = (256 * b1 + b2) # utf16_decode rest"
  by (cases "b1 # b2 # rest" rule: utf16_decode.cases) (auto simp: Let_def is_surrogate_def)

lemma utf16_decode_pair:
  assumes "0xD800 \<le> 256 * b1 + b2" "256 * b1 + b2 \<le> 0xDBFF"
    "0xDC00 \<le> 256 * b3 + b4" "256 * b3 + b4 \<le> 0xDFFF"
  shows "utf16_decode (b1 # b2 # b3 # b4 # rest) =
    (0x10000 + (256 * b1 + b2 - 0xD800) * 1024 + (256 * b3 + b4 - 0xDC00)) # utf16_decode rest"
  using assms by (simp only: utf16_decode.simps Let_def simp_thms if_True)

lemma utf16_char_scalar:
  assumes "\<not> is_surrogate c" "c < 0x110000"
  obtains bs where "utf16_char c = Inr bs" "length bs = utf16_len c" "\<forall>b \<in> set bs. b < 256"
    "\<forall>rest. utf16_decode (bs @ rest) = c # utf16_decode rest"
proof (cases "c < 0x10000")
  case True
  have d: "\<forall>rest. utf16_decode (be16 c @ rest) = c # utf16_decode rest"
    using utf16_decode_plain [of "c div 256" "c mod 256"] assms(1) by (simp add: be16_def)
  have e: "utf16_char c = Inr (be16 c)" using assms(1) True by (simp add: utf16_char_def)
  have l: "length (be16 c) = utf16_len c" using True by (simp add: be16_def utf16_len_def)
  have "\<forall>b \<in> set (be16 c). b < 256" using True by (auto simp: be16_def)
  from that [OF e l this d] show thesis .
next
  case False
  define h where "h = 0xD800 + (c - 0x10000) div 1024"
  define l where "l = 0xDC00 + (c - 0x10000) mod 1024"
  have q: "(c - 0x10000) div 1024 < 1024" using assms(2) by (simp add: less_mult_imp_div_less)
  have r: "(c - 0x10000) mod 1024 < 1024" by simp
  have hb: "0xD800 \<le> h" "h \<le> 0xDBFF" and lb: "0xDC00 \<le> l" "l \<le> 0xDFFF"
    using q r unfolding h_def l_def by linarith+
  have "0x10000 + (h - 0xD800) * 1024 + (l - 0xDC00) = c"
    using False div_mult_mod_eq [of "c - 0x10000" 1024] by (simp add: h_def l_def)
  then have d: "\<forall>rest. utf16_decode ((be16 h @ be16 l) @ rest) = c # utf16_decode rest"
    using utf16_decode_pair [of "h div 256" "h mod 256" "l div 256" "l mod 256"] hb lb
    by (simp add: be16_def)
  have e: "utf16_char c = Inr (be16 h @ be16 l)"
    using assms(1) False by (simp add: utf16_char_def h_def l_def)
  have l: "length (be16 h @ be16 l) = utf16_len c"
    using False by (simp add: be16_def utf16_len_def)
  have "\<forall>b \<in> set (be16 h @ be16 l). b < 256"
    using hb lb by (auto simp: be16_def)
  from that [OF e l this d] show thesis .
qed

lemma utf16_encode_Cons:
  "utf16_encode (c # cs) =
     bind_exn (utf16_char c) (\<lambda>b. bind_exn (utf16_encode cs) (\<lambda>bs. Inr (b @ bs)))"
  by (cases "utf16_char c"; cases "traverse utf16_char cs") (simp_all add: utf16_encode_def)

lemma utf16_encode_scalar:
  assumes "scalar_text s"
  obtains bs where "utf16_encode s = Inr bs" "length bs = sum_list (map utf16_len s)"
    "\<forall>b \<in> set bs. b < 256" "utf16_decode bs = s"
proof -
  have "scalar_text s \<Longrightarrow> \<exists>bs. utf16_encode s = Inr bs \<and> length bs = sum_list (map utf16_len s)
     \<and> (\<forall>b \<in> set bs. b < 256) \<and> utf16_decode bs = s"
  proof (induction s)
    case Nil
    then show ?case by (simp add: utf16_encode_def)
  next
    case (Cons c cs)
    then obtain bs where bs: "utf16_encode cs = Inr bs" "length bs = sum_list (map utf16_len cs)"
        "\<forall>b \<in> set bs. b < 256" "utf16_decode bs = cs"
      by (auto simp: scalar_text_def)
    from Cons.prems have "\<not> is_surrogate c" "c < 0x110000" by (auto simp: scalar_text_def)
    then obtain b where "utf16_char c = Inr b" "length b = utf16_len c" "\<forall>x \<in> set b. x < 256"
        "\<forall>rest. utf16_decode (b @ rest) = c # utf16_decode rest"
      by (rule utf16_char_scalar)
    with bs show ?case by (auto simp: utf16_encode_Cons)
  qed
  with assms that show thesis by blast
qed

lemma utf16_encode_surrogate: "list_ex is_surrogate s \<Longrightarrow> utf16_encode s = Inl ValueError"
  by (induction s) (auto simp: utf16_encode_Cons utf16_char_def be16_def)

section \<open>Splitting\<close>

abbreviation cost_sum :: "(nat \<Rightarrow> nat) \<Rightarrow> pystr \<Rightarrow> nat" where
  "cost_sum cost s \<equiv> sum_list (map cost s)"

lemma concat_split_loop: "concat (split_loop cost limit cs cur n) = cur @ cs"
  by (induction cost limit cs cur n rule: split_loop.induct) auto

lemma split_loop_chunks:
  assumes "\<forall>c \<in> set cs. cost c \<le> limit" "cost_sum cost cur = n" "n \<le> limit" "part \<in> set (split_loop cost limit cs cur n)"
  shows "cost_sum cost part \<le> limit"
  using assms
  by (induction cost limit cs cur n rule: split_loop.induct) (auto split: if_splits)

lemma split_loop_nonempty:
  "part \<in> set (split_loop cost limit cs cur n) \<Longrightarrow> cur \<noteq> [] \<or> n = 0 \<Longrightarrow>
     \<forall>c \<in> set cs. cost c \<le> limit \<Longrightarrow> part \<noteq> []"
  by (induction cost limit cs cur n rule: split_loop.induct) (auto split: if_splits)

lemma split_loop_not_Nil: "cur \<noteq> [] \<or> cs \<noteq> [] \<Longrightarrow> split_loop cost limit cs cur n \<noteq> []"
  by (induction cost limit cs cur n rule: split_loop.induct) auto

text \<open>Every part but the last is full: a new part is opened only when the next character
  does not fit, so with characters of cost at most \<open>m\<close> a closed part holds more than
  \<open>limit - m\<close>.\<close>

lemma split_loop_count:
  assumes "\<forall>c \<in> set cs. cost c \<le> m" "m \<le> limit"
  shows "(length (split_loop cost limit cs cur n) - 1) * (limit + 1 - m) \<le> n + cost_sum cost cs"
  using assms
proof (induction cost limit cs cur n rule: split_loop.induct)
  case (1 cost limit cur n)
  then show ?case by simp
next
  case (2 cost limit c cs cur n)
  show ?case
  proof (cases "n + cost c > limit")
    case False
    with 2 show ?thesis by (simp add: add.assoc)
  next
    case True
    let ?rest = "split_loop cost limit cs [c] (cost c)"
    have ih: "(length ?rest - 1) * (limit + 1 - m) \<le> cost c + cost_sum cost cs"
      using 2 True by simp
    have "?rest \<noteq> []" by (rule split_loop_not_Nil) simp
    then have "length ?rest * (limit + 1 - m) = (length ?rest - 1) * (limit + 1 - m) + (limit + 1 - m)"
      by (cases ?rest) simp_all
    moreover from 2(3) have "cost c \<le> m" by simp
    with True 2(4) have "limit + 1 - m \<le> n" by simp
    ultimately have "length ?rest * (limit + 1 - m) \<le> n + (cost c + cost_sum cost cs)"
      using ih by linarith
    with True show ?thesis by simp
  qed
qed

lemma septet_len_le: "septet_len c \<le> 2"
  by (simp add: septet_len_def)

lemma utf16_len_le: "utf16_len c \<le> 4"
  by (simp add: utf16_len_def)

lemma cost_sum_le: "\<forall>c \<in> set s. cost c \<le> m \<Longrightarrow> cost_sum cost s \<le> m * length s"
  by (induction s) auto

lemma split_parts_bound:
  assumes "parts = split_loop cost limit s [] 0" "\<forall>c \<in> set s. cost c \<le> m" "m \<le> limit"
    "m * length s \<le> k * (limit + 1 - m)"
  shows "length parts \<le> k + 1"
proof (rule ccontr)
  assume "\<not> length parts \<le> k + 1"
  then have "k + 1 \<le> length parts - 1" by simp
  then have "(k + 1) * (limit + 1 - m) \<le> (length parts - 1) * (limit + 1 - m)"
    by (rule mult_le_mono1)
  also have "\<dots> \<le> cost_sum cost s"
    using split_loop_count [OF assms(2,3), of "[]" 0] assms(1) by simp
  also have "\<dots> \<le> m * length s" by (rule cost_sum_le [OF assms(2)])
  also have "\<dots> \<le> k * (limit + 1 - m)" by (rule assms(4))
  finally show False using assms(3) by simp
qed


section \<open>Hexadecimal text\<close>

lemma hex_digit_value:
  assumes "n < 16"
  shows "ascii_hex_value (hex_digit n) = Some n" "ascii_hex_value (hd (ascii_upper [hex_digit n])) = Some n"
    "hex_digit n \<notin> {9, 10, 11, 12, 13, 32}" "hd (ascii_upper [hex_digit n]) \<notin> {9, 10, 11, 12, 13, 32}"
  using assms by (auto simp: hex_digit_def ascii_hex_value_def ascii_upper_def)

definition pdu_hex :: "pybytes \<Rightarrow> pystr" where
  "pdu_hex bs = ascii_upper (hex_lower bs)"

lemma pdu_hex_Cons: "pdu_hex (b # bs) =
    hd (ascii_upper [hex_digit (b div 16)]) # hd (ascii_upper [hex_digit (b mod 16)]) # pdu_hex bs"
  by (simp add: pdu_hex_def hex_lower_def ascii_upper_def)

lemma fromhex_pdu_hex: "\<forall>b \<in> set bs. b < 256 \<Longrightarrow> fromhex (pdu_hex bs) = Inr bs"
proof (induction bs)
  case Nil
  then show ?case by (simp add: pdu_hex_def hex_lower_def ascii_upper_def)
next
  case (Cons b bs)
  then have "b div 16 < 16" "b mod 16 < 16" by auto
  from hex_digit_value(2,4) [OF this(1)] hex_digit_value(2,4) [OF this(2)] Cons show ?case
    by (simp add: pdu_hex_Cons)
qed

lemma pdu_hex_no_space: "\<forall>b \<in> set bs. b < 256 \<Longrightarrow> \<forall>c \<in> set (pdu_hex bs). \<not> py_isspace c"
proof (induction bs)
  case Nil
  then show ?case by (simp add: pdu_hex_def hex_lower_def ascii_upper_def)
next
  case (Cons b bs)
  have h: "\<not> py_isspace (hd (ascii_upper [hex_digit n]))" if "n < 16" for n
    using that by (auto simp: hex_digit_def ascii_upper_def py_isspace_def space_codes_def)
  from Cons.prems have "b div 16 < 16" "b mod 16 < 16" by auto
  with Cons h show ?case by (simp add: pdu_hex_Cons)
qed

lemma pdu_hex_strip: "\<forall>b \<in> set bs. b < 256 \<Longrightarrow> py_strip (pdu_hex bs) = pdu_hex bs"
  by (intro py_strip_no_space pdu_hex_no_space)

lemma pdu_hex_0: "str_of ''00'' @ pdu_hex bs = pdu_hex (0 # bs)"
  by (simp add: pdu_hex_Cons str_of_def hex_digit_def ascii_upper_def)

section \<open>User data\<close>

lemma decode_submit_gsm7:
  assumes "is_gsm7 part"
  obtains udl ud where "submit_ud True [] part = Inr (udl, ud)"
    "decode_ud 0 False udl ud = Inr (part, None)"
    "udl = cost_sum septet_len part" "length ud = (7 * udl + 7) div 8" "\<forall>b \<in> set ud. b < 256"
proof -
  from assms obtain ss where ss: "to_septets part = Inr ss" "from_septets ss = part"
    "length ss = cost_sum septet_len part" "\<forall>s \<in> set ss. s < 128" by (rule to_septets_gsm7)
  have "unpack_septets (pack_septets ss 0) (int (length ss)) 0 = ss"
    by (rule unpack_pack) (simp_all add: ss)
  with ss pack_septets_val [of ss 0] show thesis
    by (intro that [of "length ss" "pack_septets ss 0"])
       (simp_all add: submit_ud_def decode_ud_def Let_def dcs_alphabet_def)
qed

lemma parse_concat_udh: "parse_udh [0, 3, r, n, k] None = Inr (Some (r, n, k))"
  by (simp add: py_index_def)

lemma decode_submit_gsm7_udh:
  assumes "is_gsm7 part" "r < 256" "n < 256" "k < 256"
  obtains udl ud where "submit_ud True [0, 3, r, n, k] part = Inr (udl, ud)"
    "decode_ud 0 True udl ud = Inr (part, Some (r, n, k))"
    "udl = cost_sum septet_len part + 7" "length ud = 6 + (7 * cost_sum septet_len part + 8) div 8"
    "\<forall>b \<in> set ud. b < 256"
proof -
  from assms(1) obtain ss where ss: "to_septets part = Inr ss" "from_septets ss = part"
    "length ss = cost_sum septet_len part" "\<forall>s \<in> set ss. s < 128" by (rule to_septets_gsm7)
  have "unpack_septets (pack_septets ss 1) (int (length ss)) 1 = ss"
    by (rule unpack_pack) (simp_all add: ss)
  moreover have "fill_bits 6 = 1" "fill_bits (Suc (Suc (Suc (Suc (Suc (Suc 0)))))) = 1"
    by (simp_all add: fill_bits_def)
  ultimately show thesis using ss pack_septets_val [of ss 1] assms
    by (intro that [of "length ss + 7" "[5, 0, 3, r, n, k] @ pack_septets ss 1"])
       (simp_all add: submit_ud_def decode_ud_def Let_def dcs_alphabet_def parse_concat_udh
         del: parse_udh.simps)
qed

lemma decode_submit_ucs2:
  assumes "scalar_text part"
  obtains ud where "submit_ud False [] part = Inr (length ud, ud)"
    "decode_ud 8 False (length ud) ud = Inr (part, None)"
    "length ud = cost_sum utf16_len part" "\<forall>b \<in> set ud. b < 256"
proof -
  from assms obtain bs where "utf16_encode part = Inr bs" "length bs = cost_sum utf16_len part"
    "\<forall>b \<in> set bs. b < 256" "utf16_decode bs = part" by (rule utf16_encode_scalar)
  moreover have "dcs_alphabet 8 = 2" by code_simp
  ultimately show thesis by (intro that [of bs]) (simp_all add: submit_ud_def decode_ud_def)
qed

lemma decode_submit_ucs2_udh:
  assumes "scalar_text part" "r < 256" "n < 256" "k < 256"
  obtains ud where "submit_ud False [0, 3, r, n, k] part = Inr (length ud, ud)"
    "decode_ud 8 True (length ud) ud = Inr (part, Some (r, n, k))"
    "length ud = 6 + cost_sum utf16_len part" "\<forall>b \<in> set ud. b < 256"
proof -
  from assms(1) obtain bs where "utf16_encode part = Inr bs" "length bs = cost_sum utf16_len part"
    "\<forall>b \<in> set bs. b < 256" "utf16_decode bs = part" by (rule utf16_encode_scalar)
  moreover have "dcs_alphabet 8 = 2" by code_simp
  ultimately show thesis using assms
    by (intro that [of "[5, 0, 3, r, n, k] @ bs"])
       (simp_all add: submit_ud_def decode_ud_def Let_def parse_concat_udh del: parse_udh.simps)
qed


section \<open>The parts of a message\<close>

lemma is_gsm7_concat: "is_gsm7 (concat parts) \<Longrightarrow> part \<in> set parts \<Longrightarrow> is_gsm7 part"
  by (auto simp: is_gsm7_def list_all_iff)

lemma scalar_text_concat: "scalar_text (concat parts) \<Longrightarrow> part \<in> set parts \<Longrightarrow> scalar_text part"
  by (auto simp: scalar_text_def list_all_iff)

text \<open>The limits of a user data field: 160 septets or 140 bytes alone, 153 septets or 134
  bytes beside a concatenation header.\<close>

definition part_fits :: "bool \<Rightarrow> bool \<Rightarrow> pystr \<Rightarrow> bool" where
  "part_fits gsm7 multi part \<longleftrightarrow>
     (if gsm7 then is_gsm7 part \<and> cost_sum septet_len part \<le> (if multi then MULTI_GSM7 else SINGLE_GSM7)
      else scalar_text part \<and> cost_sum utf16_len part \<le> (if multi then MULTI_UCS2 else SINGLE_UCS2))"

lemma parts_of_split:
  assumes "parts = split_loop cost limit s [] 0" "\<forall>c. cost c \<le> limit"
  shows "concat parts = s" "\<forall>p \<in> set parts. cost_sum cost p \<le> limit"
  using assms concat_split_loop [of cost limit s "[]" 0] split_loop_chunks [of s cost limit "[]" 0]
  by auto

lemma submit_parts_scalar:
  assumes "scalar_text s" "length s \<le> 5000"
  obtains parts where "submit_parts s = Inr parts" "concat parts = s" "length parts \<le> 255"
    "parts \<noteq> []" "\<forall>p \<in> set parts. part_fits (is_gsm7 s) (length parts > 1) p"
proof (cases "is_gsm7 s")
  case True
  show thesis
  proof (cases "cost_sum septet_len s \<le> SINGLE_GSM7")
    case single: True
    with True show thesis
      by (intro that [of "[s]"]) (simp_all add: submit_parts_def part_fits_def)
  next
    case False
    define parts where "parts = split_gsm7 s"
    have split: "parts = split_loop septet_len MULTI_GSM7 s [] 0" "\<forall>c. septet_len c \<le> MULTI_GSM7"
      by (auto simp: parts_def split_gsm7_def MULTI_GSM7_def septet_len_def)
    note p = parts_of_split [OF split]
    have "length parts \<le> 66 + 1"
      using assms(2) septet_len_le
      by (intro split_parts_bound [of parts septet_len MULTI_GSM7 s 2 66])
         (auto simp: parts_def split_gsm7_def MULTI_GSM7_def)
    moreover have "parts \<noteq> []" using p(1) False by auto
    moreover have "length parts > 1"
    proof (rule ccontr)
      assume "\<not> length parts > 1"
      with \<open>parts \<noteq> []\<close> have "parts = [s]" using p(1) by (cases parts) auto
      with p(2) False show False by (simp add: MULTI_GSM7_def SINGLE_GSM7_def)
    qed
    moreover have "\<forall>p \<in> set parts. is_gsm7 p" using True p(1) is_gsm7_concat [of parts] by auto
    ultimately show thesis using True False p
      by (intro that [of parts]) (simp_all add: submit_parts_def part_fits_def parts_def)
  qed
next
  case False
  obtain enc where enc: "utf16_encode s = Inr enc" "length enc = cost_sum utf16_len s"
    using utf16_encode_scalar [OF assms(1)] by metis
  show thesis
  proof (cases "cost_sum utf16_len s \<le> SINGLE_UCS2")
    case single: True
    with False enc assms(1) show thesis
      by (intro that [of "[s]"]) (simp_all add: submit_parts_def part_fits_def)
  next
    case long: False
    define parts where "parts = split_loop utf16_len MULTI_UCS2 s [] 0"
    have "\<forall>c. utf16_len c \<le> MULTI_UCS2" by (auto simp: MULTI_UCS2_def utf16_len_def)
    note p = parts_of_split [OF parts_def this]
    have "length parts \<le> 153 + 1"
      using assms(2) utf16_len_le
      by (intro split_parts_bound [of parts utf16_len MULTI_UCS2 s 4 153])
         (auto simp: parts_def MULTI_UCS2_def)
    moreover have "parts \<noteq> []" using p(1) long by auto
    moreover have "length parts > 1"
    proof (rule ccontr)
      assume "\<not> length parts > 1"
      with \<open>parts \<noteq> []\<close> have "parts = [s]" using p(1) by (cases parts) auto
      with p(2) long show False by (simp add: MULTI_UCS2_def SINGLE_UCS2_def)
    qed
    moreover have "\<forall>p \<in> set parts. scalar_text p"
      using assms(1) p(1) scalar_text_concat [of parts] by auto
    moreover have "split_ucs2 s = Inr parts"
      using assms(1) by (auto simp: split_ucs2_def parts_def scalar_text_def list_ex_iff list_all_iff)
    ultimately show thesis using False long p enc
      by (intro that [of parts]) (simp_all add: submit_parts_def part_fits_def)
  qed
qed


section \<open>Transport frames\<close>

lemma encode_address_e164:
  assumes "e164 number"
  obtains dc toa bcd where "encode_address number = Inr (dc, toa, bcd)" "dc \<le> 20" "toa < 256"
    "length bcd = (dc + 1) div 2" "\<forall>b \<in> set bcd. b < 256" "decode_address dc toa bcd = number"
proof (cases "take 1 number = [43]")
  case True
  then obtain ds where n: "number = 43 # ds" by (cases number) auto
  with assms have "ascii_digits ds" "length ds \<le> 20"
    by (auto simp: e164_def ascii_digits_def)
  with n that show thesis by (auto elim!: encode_address_international)
next
  case False
  with assms have "ascii_digits number" "length number \<le> 20"
    by (auto simp: e164_def ascii_digits_def)
  with that show thesis by (auto elim!: encode_address_national)
qed

definition part_dcs :: "bool \<Rightarrow> nat" where
  "part_dcs gsm7 = (if gsm7 then 0 else 8)"

lemma submit_ud_part:
  assumes "part_fits gsm7 multi part" "r < 256" "n < 256" "k < 256"
  obtains udl ud where
    "submit_ud gsm7 (if multi then [0, 3, r, n, k] else []) part = Inr (udl, ud)"
    "decode_ud (part_dcs gsm7) multi udl ud = Inr (part, if multi then Some (r, n, k) else None)"
    "udl < 256" "length ud \<le> 140" "\<forall>b \<in> set ud. b < 256"
proof (cases gsm7)
  case True
  show thesis
  proof (cases multi)
    case m: True
    with True assms have "is_gsm7 part" "cost_sum septet_len part \<le> 153"
      by (auto simp: part_fits_def MULTI_GSM7_def)
    with True m assms that show thesis
      by (auto elim!: decode_submit_gsm7_udh [where r = r and n = n and k = k] simp: part_dcs_def)
  next
    case m: False
    with True assms have "is_gsm7 part" "cost_sum septet_len part \<le> 160"
      by (auto simp: part_fits_def SINGLE_GSM7_def)
    with True m that show thesis
      by (auto elim!: decode_submit_gsm7 simp: part_dcs_def)
  qed
next
  case False
  show thesis
  proof (cases multi)
    case m: True
    with False assms have "scalar_text part" "cost_sum utf16_len part \<le> 134"
      by (auto simp: part_fits_def MULTI_UCS2_def)
    with False m assms that show thesis
      by (auto elim!: decode_submit_ucs2_udh [where r = r and n = n and k = k] simp: part_dcs_def)
  next
    case m: False
    with False assms have "scalar_text part" "cost_sum utf16_len part \<le> 140"
      by (auto simp: part_fits_def SINGLE_UCS2_def)
    with False m that show thesis
      by (auto elim!: decode_submit_ucs2 simp: part_dcs_def)
  qed
qed

text \<open>The TPDU layout the encoder emits (no SMSC, TP-VPF absent).\<close>

definition submit_frame :: "bool \<Rightarrow> nat \<Rightarrow> nat \<Rightarrow> pybytes \<Rightarrow> nat \<Rightarrow> nat \<Rightarrow> pybytes \<Rightarrow> pybytes" where
  "submit_frame udhi dc toa bcd dcs udl ud =
     [if udhi then 0x41 else 0x01, 0, dc, toa] @ bcd @ [0, dcs] @ [udl] @ ud"

lemma submit_tpdu_part:
  assumes "e164 number" "part_fits gsm7 multi part" "r < 256" "n < 256" "k < 256"
  obtains dc toa bcd udl ud where
    "submit_tpdu number gsm7 multi r n k part = Inr (submit_frame multi dc toa bcd (part_dcs gsm7) udl ud)"
    "decode_ud (part_dcs gsm7) multi udl ud = Inr (part, if multi then Some (r, n, k) else None)"
    "encode_address number = Inr (dc, toa, bcd)"
    "length ud \<le> 140" "\<forall>b \<in> set (submit_frame multi dc toa bcd (part_dcs gsm7) udl ud). b < 256"
proof -
  obtain dc toa bcd where a: "encode_address number = Inr (dc, toa, bcd)" "dc \<le> 20" "toa < 256"
    "length bcd = (dc + 1) div 2" "\<forall>b \<in> set bcd. b < 256"
    using encode_address_e164 [OF assms(1)] by metis
  obtain udl ud where u:
    "submit_ud gsm7 (if multi then [0, 3, r, n, k] else []) part = Inr (udl, ud)"
    "decode_ud (part_dcs gsm7) multi udl ud = Inr (part, if multi then Some (r, n, k) else None)"
    "udl < 256" "length ud \<le> 140" "\<forall>b \<in> set ud. b < 256"
    using submit_ud_part [OF assms(2-5)] by metis
  have "(1::nat) OR 64 = 65" by code_simp
  with a u assms(3-5) have
    "submit_tpdu number gsm7 multi r n k part = Inr (submit_frame multi dc toa bcd (part_dcs gsm7) udl ud)"
    by (cases multi) (simp_all add: submit_tpdu_def py_bytes_def submit_frame_def part_dcs_def)
  moreover have "\<forall>b \<in> set (submit_frame multi dc toa bcd (part_dcs gsm7) udl ud). b < 256"
    using a u by (auto simp: submit_frame_def part_dcs_def)
  ultimately show thesis using that a(1) u by blast
qed

text \<open>The SMS-DELIVER layout that carries such a user data field to its destination: SMSC
  header, first octet with the same user data header indicator, originator, time stamp.\<close>

definition deliver_frame ::
  "pybytes \<Rightarrow> bool \<Rightarrow> nat \<Rightarrow> nat \<Rightarrow> pybytes \<Rightarrow> nat \<Rightarrow> pybytes \<Rightarrow> nat \<Rightarrow> pybytes \<Rightarrow> pybytes" where
  "deliver_frame smsc udhi dc toa bcd dcs ts udl ud =
     [length smsc] @ smsc @ [if udhi then 0x44 else 0x04, dc, toa] @ bcd @ [0, dcs] @ ts @ [udl] @ ud"

lemma py_index_at: "py_index (a @ x # r) (length a) = Inr x"
  by (simp add: py_index_def)

lemma deliver_octet:
  "((if udhi then 0x44 else 0x04) AND 3 :: nat) = 0"
  "((if udhi then 0x44 else 0x04) AND 64 \<noteq> (0::nat)) = udhi"
  "(0 < (if udhi then 0x44 else 0x04) AND (64::nat)) = udhi"
proof -
  have "(68::nat) AND 3 = 0" "(4::nat) AND 3 = 0" "(68::nat) AND 64 = 64" "(4::nat) AND 64 = 0"
    by code_simp+
  then show "((if udhi then 0x44 else 0x04) AND 3 :: nat) = 0"
    "((if udhi then 0x44 else 0x04) AND 64 \<noteq> (0::nat)) = udhi"
    "(0 < (if udhi then 0x44 else 0x04) AND (64::nat)) = udhi" by simp_all
qed

lemma decode_deliver_frame:
  assumes "\<forall>b \<in> set (deliver_frame smsc udhi dc toa bcd dcs ts udl ud). b < 256"
    and "length bcd = (dc + 1) div 2" "length ts = 7" "decode_scts ts = Inr stamp"
    and "decode_ud dcs udhi udl ud = Inr (txt, cr)"
  shows "decode_deliver (pdu_hex (deliver_frame smsc udhi dc toa bcd dcs ts udl ud)) =
    Inr (Deliver \<lparr>sender = decode_address dc toa bcd, content = txt, scts = stamp, concat_ref = cr\<rparr>)"
proof -
  let ?fo = "if udhi then 0x44 else 0x04 :: nat"
  define b where "b = deliver_frame smsc udhi dc toa bcd dcs ts udl ud"
  define i where "i = 1 + length smsc"
  have h: "fromhex (py_strip (pdu_hex b)) = Inr b"
    using assms(1) by (simp add: b_def pdu_hex_strip fromhex_pdu_hex)
  have b: "b = [length smsc] @ smsc @ [?fo, dc, toa] @ bcd @ [0, dcs] @ ts @ [udl] @ ud"
    by (simp add: b_def deliver_frame_def)
  have p: "py_index b 0 = Inr (length smsc)" "py_index b i = Inr ?fo"
    "py_index b (i + 1) = Inr dc" "py_index b (i + 1 + 1) = Inr toa"
    "py_index b (i + 1 + 2 + length bcd) = Inr 0" "py_index b (i + 1 + 2 + length bcd + 1) = Inr dcs"
    "py_index b (i + 1 + 2 + length bcd + 2 + 7) = Inr udl"
    using assms(3) unfolding b i_def by (simp_all add: py_index_def nth_append)
  have d: "take (length bcd) (drop (i + 1 + 2) b) = bcd"
    "take 7 (drop (i + 1 + 2 + length bcd + 2) b) = ts"
    "drop (i + 1 + 2 + length bcd + 2 + 7 + 1) b = ud"
  proof -
    let ?x = "[length smsc] @ smsc @ [?fo, dc, toa] @ bcd"
    have x: "b = ?x @ [0, dcs] @ ts @ udl # ud" and l: "length ?x = i + 1 + 2 + length bcd"
      by (simp_all add: b i_def)
    show "take (length bcd) (drop (i + 1 + 2) b) = bcd" unfolding b i_def by simp
    show "take 7 (drop (i + 1 + 2 + length bcd + 2) b) = ts"
      using assms(3) unfolding x l [symmetric] by (simp only: drop_append) simp
    show "drop (i + 1 + 2 + length bcd + 2 + 7 + 1) b = ud"
      using assms(3) unfolding x l [symmetric] by (simp only: drop_append) simp
  qed
  show ?thesis
    unfolding decode_deliver_def b_def [symmetric] h bind_exn_simps Let_def p(1) i_def [symmetric]
    using p d assms(2,4,5)
    by (simp add: deliver_octet split del: if_split del: add_2_eq_Suc' add_Suc_right)
qed


section \<open>Building a message\<close>

lemma traverse_zip_upt:
  assumes "\<And>k. k < length xs \<Longrightarrow> f (Suc k, xs ! k) = Inr (g k)"
  shows "traverse f (zip [1..<Suc (length xs)] xs) = Inr (map g [0..<length xs])"
proof -
  let ?zs = "zip [1..<Suc (length xs)] xs"
  have "traverse f ?zs = Inr (map (\<lambda>z. case f z of Inr y \<Rightarrow> y | Inl _ \<Rightarrow> undefined) ?zs)"
    using assms by (intro traverse_all_Inr) (auto simp: set_zip simp del: upt_Suc)
  also have "map (\<lambda>z. case f z of Inr y \<Rightarrow> y | Inl _ \<Rightarrow> undefined) ?zs = map g [0..<length xs]"
    by (rule nth_equalityI) (simp_all add: assms del: upt_Suc)
  finally show ?thesis .
qed

text \<open>What a receiver gets for part \<open>k\<close> of \<open>n\<close>.\<close>

definition part_ref :: "nat \<Rightarrow> nat \<Rightarrow> nat \<Rightarrow> (nat \<times> nat \<times> nat) option" where
  "part_ref rnd n k = (if n > 1 then Some (rnd, n, k + 1) else None)"

text \<open>The PDU of part \<open>k\<close> is an SMS-SUBMIT whose user data a decoder reads back as that
  part.\<close>

definition submit_pdu_ok :: "nat \<Rightarrow> pystr \<Rightarrow> bool \<Rightarrow> pystr list \<Rightarrow> nat \<Rightarrow> pystr \<times> nat \<Rightarrow> bool" where
  "submit_pdu_ok rnd number gsm7 parts k pdu \<longleftrightarrow>
     (\<exists>dc toa bcd udl ud. let tpdu = submit_frame (length parts > 1) dc toa bcd (part_dcs gsm7) udl ud in
        encode_address number = Inr (dc, toa, bcd)
        \<and> pdu = (pdu_hex (0 # tpdu), length tpdu)
        \<and> length ud \<le> 140 \<and> (\<forall>b \<in> set tpdu. b < 256)
        \<and> decode_ud (part_dcs gsm7) (length parts > 1) udl ud
            = Inr (parts ! k, part_ref rnd (length parts) k))"

lemma build_submit_pdus_parts:
  assumes "scalar_text s" "length s \<le> 5000" "e164 number" "rnd < 256"
  obtains parts pdus where "submit_parts s = Inr parts" "build_submit_pdus rnd number s = Inr pdus"
    "length pdus = length parts" "parts \<noteq> []" "length parts \<le> 255" "concat parts = s"
    "\<forall>k < length parts. submit_pdu_ok rnd number (is_gsm7 s) parts k (pdus ! k)"
proof -
  obtain parts where p: "submit_parts s = Inr parts" "concat parts = s" "length parts \<le> 255"
    "parts \<noteq> []" "\<forall>p \<in> set parts. part_fits (is_gsm7 s) (length parts > 1) p"
    using submit_parts_scalar [OF assms(1,2)] by metis
  let ?multi = "length parts > 1"
  let ?ref = "if ?multi then rnd else 0"
  let ?f = "\<lambda>(seq, part). bind_exn (submit_tpdu number (is_gsm7 s) ?multi ?ref (length parts) seq part)
              (\<lambda>tpdu. Inr (str_of ''00'' @ ascii_upper (hex_lower tpdu), length tpdu))"
  define P where "P = (\<lambda>k pdu. ?f (Suc k, parts ! k) = Inr pdu
      \<and> submit_pdu_ok rnd number (is_gsm7 s) parts k pdu)"
  have "\<exists>pdu. P k pdu" if k: "k < length parts" for k
  proof -
    have "part_fits (is_gsm7 s) ?multi (parts ! k)" using p(5) k by simp
    moreover have "?ref < 256" "length parts < 256" "Suc k < 256" using p(3) k assms(4) by auto
    ultimately obtain dc toa bcd udl ud where
      t: "submit_tpdu number (is_gsm7 s) ?multi ?ref (length parts) (Suc k) (parts ! k)
            = Inr (submit_frame ?multi dc toa bcd (part_dcs (is_gsm7 s)) udl ud)"
      and u: "decode_ud (part_dcs (is_gsm7 s)) ?multi udl ud
            = Inr (parts ! k, if ?multi then Some (?ref, length parts, Suc k) else None)"
      and a: "encode_address number = Inr (dc, toa, bcd)" and l: "length ud \<le> 140"
      and b: "\<forall>b \<in> set (submit_frame ?multi dc toa bcd (part_dcs (is_gsm7 s)) udl ud). b < 256"
      by (rule submit_tpdu_part [OF assms(3)])
    have f: "?f (Suc k, parts ! k) = Inr
        (pdu_hex (0 # submit_frame ?multi dc toa bcd (part_dcs (is_gsm7 s)) udl ud),
         length (submit_frame ?multi dc toa bcd (part_dcs (is_gsm7 s)) udl ud))"
      by (simp only: prod.case t bind_exn_simps pdu_hex_0 flip: pdu_hex_def)
    have u': "decode_ud (part_dcs (is_gsm7 s)) ?multi udl ud
        = Inr (parts ! k, part_ref rnd (length parts) k)"
      by (cases ?multi) (use u in \<open>simp_all add: part_ref_def\<close>)
    have ok: "submit_pdu_ok rnd number (is_gsm7 s) parts k
        (pdu_hex (0 # submit_frame ?multi dc toa bcd (part_dcs (is_gsm7 s)) udl ud),
         length (submit_frame ?multi dc toa bcd (part_dcs (is_gsm7 s)) udl ud))"
      unfolding submit_pdu_ok_def Let_def
      by (rule exI [of _ dc], rule exI [of _ toa], rule exI [of _ bcd], rule exI [of _ udl],
          rule exI [of _ ud], intro conjI a l b u' refl)
    show ?thesis unfolding P_def by (rule exI, rule conjI, rule f, rule ok)
  qed
  then obtain g where g: "\<And>k. k < length parts \<Longrightarrow> P k (g k)" by metis
  have "build_submit_pdus rnd number s = Inr (map g [0..<length parts])"
    unfolding build_submit_pdus_def p(1) bind_exn_simps Let_def
    by (rule traverse_zip_upt) (use g in \<open>unfold P_def, blast\<close>)
  moreover have "\<forall>k < length parts. submit_pdu_ok rnd number (is_gsm7 s) parts k (map g [0..<length parts] ! k)"
    using g by (simp add: P_def)
  ultimately show thesis using p
    by (intro that [of parts "map g [0..<length parts]"]) simp_all
qed


section \<open>The network between the two\<close>

text \<open>What an SMS centre does to an SMS-SUBMIT on its way to the recipient (the specification
  side of the round trip, 3GPP TS 23.040): the user data, its length, its coding scheme and
  the header indicator are copied into an SMS-DELIVER; the originator \<open>oa\<close>, the time stamp
  \<open>ts\<close> and the SMSC header are the centre's.\<close>

definition relay :: "pybytes \<Rightarrow> nat \<times> nat \<times> pybytes \<Rightarrow> pybytes \<Rightarrow> pybytes \<Rightarrow> pybytes" where
  "relay smsc oa ts sub =
     (let tpdu = drop 1 sub;
          n = (tpdu ! 2 + 1) div 2
      in deliver_frame smsc (tpdu ! 0 AND 0x40 \<noteq> 0) (fst oa) (fst (snd oa)) (snd (snd oa))
           (tpdu ! (5 + n)) ts (tpdu ! (6 + n)) (drop (7 + n) tpdu))"

definition relay_hex :: "pybytes \<Rightarrow> nat \<times> nat \<times> pybytes \<Rightarrow> pybytes \<Rightarrow> pystr \<Rightarrow> pystr" where
  "relay_hex smsc oa ts pdu =
     (case fromhex pdu of Inr b \<Rightarrow> pdu_hex (relay smsc oa ts b) | Inl _ \<Rightarrow> [])"

lemma submit_octet: "((if udhi then 0x41 else 0x01) AND 64 \<noteq> (0::nat)) = udhi"
proof -
  have "(65::nat) AND 64 = 64" "(1::nat) AND 64 = 0" by code_simp+
  then show ?thesis by simp
qed

lemma drop_1_Cons: "drop 1 (x # xs) = xs"
  by simp

lemma relay_submit_frame:
  assumes "length bcd = (dc + 1) div 2"
  shows "relay smsc (odc, otoa, obcd) ts (0 # submit_frame udhi dc toa bcd dcs udl ud)
    = deliver_frame smsc udhi odc otoa obcd dcs ts udl ud"
proof -
  define tpdu where "tpdu = submit_frame udhi dc toa bcd dcs udl ud"
  have t: "tpdu = [if udhi then 0x41 else 0x01, 0, dc, toa] @ bcd @ [0, dcs, udl] @ ud"
    by (simp add: tpdu_def submit_frame_def)
  have "tpdu ! 0 = (if udhi then 0x41 else 0x01)" "tpdu ! 2 = dc"
    "tpdu ! (5 + length bcd) = dcs" "tpdu ! (6 + length bcd) = udl"
    unfolding t by (simp_all add: nth_append)
  moreover have "drop (7 + length bcd) tpdu = ud"
  proof -
    let ?x = "[if udhi then 0x41 else 0x01, 0, dc, toa] @ bcd @ [0, dcs, udl]"
    have "tpdu = ?x @ ud" "length ?x = 7 + length bcd" by (simp_all add: t)
    then show ?thesis by (metis append_eq_conv_conj)
  qed
  ultimately show ?thesis
    unfolding relay_def tpdu_def [symmetric] assms
    by (simp only: Let_def submit_octet fst_conv snd_conv drop_1_Cons)
qed

text \<open>A well-formed delivery: the bytes of the SMSC header, an originator the encoder
  accepts, a seven-byte time stamp.\<close>

definition envelope_ok :: "pybytes \<Rightarrow> pystr \<Rightarrow> nat \<times> nat \<times> pybytes \<Rightarrow> pybytes \<Rightarrow> bool" where
  "envelope_ok smsc orig oa ts \<longleftrightarrow> length smsc < 256 \<and> (\<forall>b \<in> set smsc. b < 256)
     \<and> e164 orig \<and> encode_address orig = Inr oa \<and> length ts = 7 \<and> (\<forall>b \<in> set ts. b < 256)"

lemma decode_scts_total: "length ts = 7 \<Longrightarrow> \<exists>stamp. decode_scts ts = Inr stamp"
proof -
  assume "length ts = 7"
  then obtain a b c d e f g where "ts = [a, b, c, d, e, f, g]"
    by (auto simp: length_Suc_conv numeral_eq_Suc)
  then show ?thesis by (simp add: decode_scts_def py_index_def Let_def)
qed

lemma decode_relayed_part:
  assumes "submit_pdu_ok rnd number gsm7 parts k pdu" "envelope_ok smsc orig oa ts" "e164 number"
    and "decode_scts ts = Inr stamp"
  shows "decode_deliver (relay_hex smsc oa ts (fst pdu)) = Inr (Deliver
    \<lparr>sender = orig, content = parts ! k, scts = stamp, concat_ref = part_ref rnd (length parts) k\<rparr>)"
proof -
  let ?multi = "length parts > 1"
  from assms(1) obtain dc toa bcd udl ud where
    p: "fst pdu = pdu_hex (0 # submit_frame ?multi dc toa bcd (part_dcs gsm7) udl ud)"
    and b: "\<forall>b \<in> set (submit_frame ?multi dc toa bcd (part_dcs gsm7) udl ud). b < 256"
    and u: "decode_ud (part_dcs gsm7) ?multi udl ud = Inr (parts ! k, part_ref rnd (length parts) k)"
    and a: "encode_address number = Inr (dc, toa, bcd)"
    by (auto simp: submit_pdu_ok_def Let_def)
  have "length bcd = (dc + 1) div 2" using encode_address_e164 [OF assms(3)] a by auto
  moreover obtain odc otoa obcd where oa: "oa = (odc, otoa, obcd)" by (cases oa)
  moreover have "fromhex (fst pdu) = Inr (0 # submit_frame ?multi dc toa bcd (part_dcs gsm7) udl ud)"
    using b by (simp add: p fromhex_pdu_hex)
  ultimately have r: "relay_hex smsc oa ts (fst pdu)
      = pdu_hex (deliver_frame smsc ?multi odc otoa obcd (part_dcs gsm7) ts udl ud)"
    by (simp only: relay_hex_def sum.case relay_submit_frame)
  from assms(2) oa have e: "e164 orig" "encode_address orig = Inr (odc, otoa, obcd)"
    by (auto simp: envelope_ok_def)
  from encode_address_e164 [OF e(1)] e(2) have o: "odc \<le> 20" "otoa < 256"
    "length obcd = (odc + 1) div 2" "\<forall>b \<in> set obcd. b < 256" "decode_address odc otoa obcd = orig"
    by auto
  have "\<forall>b \<in> set (deliver_frame smsc ?multi odc otoa obcd (part_dcs gsm7) ts udl ud). b < 256"
    using assms(2) b o by (auto simp: deliver_frame_def submit_frame_def envelope_ok_def)
  from decode_deliver_frame [OF this o(3) _ assms(4) u] assms(2) show ?thesis
    unfolding r by (simp add: o(5) envelope_ok_def)
qed

end
