(* ===== verification/Receive.thy ===== *)
theory Receive
  imports Sms_Roundtrip "HOL-Library.Multiset"
begin

text \<open>
  Inbound messages, \<open>server/gtg_server/modem/receive.py\<close>: the parsers of the modem's
  answers (\<open>+CMGL\<close>, \<open>+CMGR\<close>, \<open>+CMTI\<close>, \<open>+CPMS\<close>), the identity hash of a message, and
  the \<open>Assembler\<close> that puts concatenated messages together.  The dictionaries keep their
  insertion order, so they are association lists with \<open>AList.update\<close> and
  \<open>AList.delete\<close>; times are in milliseconds.  \<open>hashlib.sha256(...).hexdigest()\<close> is the
  parameter \<open>digest\<close>.
\<close>

section \<open>Messages\<close>

text \<open>An inbound message as the assembler builds it, with what the worker adds before it
  publishes it, with the id the hub gives it.\<close>

record inbound =
  in_sender :: pystr
  in_text :: pystr
  in_scts :: pystr
  in_partial :: bool

record stamped = inbound +
  received_at :: pystr
  msg_hash :: pystr

record published = stamped +
  msg_id :: int

section \<open>Identity of a message\<close>

definition message_hash :: "(pybytes \<Rightarrow> pystr) \<Rightarrow> pystr \<Rightarrow> pystr \<Rightarrow> pystr \<Rightarrow> exn + pystr" where
  "message_hash digest snd_addr ts txt =
     bind_exn (utf8_encode snd_addr) (\<lambda>a. bind_exn (utf8_encode ts) (\<lambda>b.
     bind_exn (utf8_encode txt) (\<lambda>c.
       Inr (take 24 (digest (a @ [124] @ b @ [124] @ c))))))"

section \<open>Answers of the modem\<close>

text \<open>\<open>line.split(":", 1)[1]\<close>; \<open>None\<close> is \<open>IndexError\<close>.\<close>

definition after_colon :: "pystr \<Rightarrow> pystr option" where
  "after_colon line = snd (py_partition 58 line)"

fun cmgl_loop :: "int option \<Rightarrow> pystr list \<Rightarrow> (int \<times> pystr) list" where
  "cmgl_loop idx [] = []"
| "cmgl_loop idx (line # lines) =
     (if py_startswith line (str_of ''+CMGL:'') then
        cmgl_loop (case after_colon line of
            Some rest \<Rightarrow> py_int (hd (py_split 44 rest)) | None \<Rightarrow> None) lines
      else (case idx of
          Some i \<Rightarrow> (i, py_strip line) # cmgl_loop None lines
        | None \<Rightarrow> cmgl_loop None lines))"

definition parse_cmgl_pdu :: "pystr list \<Rightarrow> (int \<times> pystr) list" where
  "parse_cmgl_pdu lines = cmgl_loop None lines"

fun cmgr_loop :: "bool \<Rightarrow> pystr list \<Rightarrow> pystr option" where
  "cmgr_loop grab [] = None"
| "cmgr_loop grab (line # lines) =
     (if py_startswith line (str_of ''+CMGR:'') then cmgr_loop True lines
      else if grab then Some (py_strip line) else cmgr_loop grab lines)"

definition parse_cmgr_pdu :: "pystr list \<Rightarrow> pystr option" where
  "parse_cmgr_pdu lines = cmgr_loop False lines"

text \<open>\<open>s.strip('"')\<close>.\<close>

definition strip_quotes :: "pystr \<Rightarrow> pystr" where
  "strip_quotes s = py_rstrip (\<lambda>c. c = 34) (py_lstrip (\<lambda>c. c = 34) s)"

definition parse_cmti :: "pystr \<Rightarrow> (pystr \<times> int) option" where
  "parse_cmti line =
     (if \<not> py_startswith line (str_of ''+CMTI:'') then None
      else (case after_colon line of
          None \<Rightarrow> None
        | Some rest \<Rightarrow>
            (case py_split 44 rest of
               storage # index # _ \<Rightarrow>
                 map_option (\<lambda>i. (strip_quotes (py_strip storage), i)) (py_int (py_strip index))
             | _ \<Rightarrow> None)))"

text \<open>The parsing half of \<open>storage_usage\<close>: the first \<open>+CPMS:\<close> line decides.\<close>

fun parse_cpms :: "pystr list \<Rightarrow> (int option \<times> int option)" where
  "parse_cpms [] = (None, None)"
| "parse_cpms (line # lines) =
     (if py_startswith line (str_of ''+CPMS:'') then
        (case after_colon line of
           Some rest \<Rightarrow>
             (case py_split 44 rest of
                _ # used # tot # _ \<Rightarrow>
                  (case (py_int used, py_int tot) of
                     (Some u, Some t) \<Rightarrow> (Some u, Some t) | _ \<Rightarrow> (None, None))
              | _ \<Rightarrow> (None, None))
         | None \<Rightarrow> (None, None))
      else parse_cpms lines)"

section \<open>The assembler\<close>

type_synonym part = "deliver \<times> int option"
type_synonym part_key = "pystr \<times> nat \<times> nat"

record slot =
  slot_t :: int
  slot_parts :: "(nat \<times> part) list"

type_synonym assembler = "(part_key \<times> slot) list"

definition stale_after :: int where "stale_after = 300000"

definition ordered_parts :: "(nat \<times> part) list \<Rightarrow> part list" where
  "ordered_parts parts = map (\<lambda>s. the (map_of parts s)) (sort (map fst parts))"

definition merge_parts :: "bool \<Rightarrow> (nat \<times> part) list \<Rightarrow> exn + (inbound \<times> int list)" where
  "merge_parts partial parts =
     (let ordered = ordered_parts parts;
          txt = concat (map (\<lambda>(d, _). content d) ordered);
          indices = concat (map (\<lambda>(_, i). case i of Some x \<Rightarrow> [x] | None \<Rightarrow> []) ordered)
      in bind_exn (py_index ordered 0) (\<lambda>(first, _).
           Inr (\<lparr>in_sender = sender first, in_text = txt, in_scts = scts first,
                  in_partial = partial\<rparr>, indices)))"

text \<open>\<open>Assembler.add\<close> at clock \<open>now\<close>: the complete message and its modem indices, if any,
  and the new state.\<close>

definition assembler_add ::
  "int \<Rightarrow> assembler \<Rightarrow> deliver \<Rightarrow> int option \<Rightarrow> (exn + (inbound \<times> int list) option) \<times> assembler" where
  "assembler_add now asm decoded index =
     (case concat_ref decoded of
        None \<Rightarrow>
          (Inr (Some (\<lparr>in_sender = sender decoded, in_text = content decoded,
             in_scts = scts decoded, in_partial = False\<rparr>,
             case index of Some i \<Rightarrow> [i] | None \<Rightarrow> [])), asm)
      | Some (ref, n_total, seq) \<Rightarrow>
          (let key = (sender decoded, ref, n_total);
               slot = (case map_of asm key of
                   Some sl \<Rightarrow> sl | None \<Rightarrow> \<lparr>slot_t = now, slot_parts = []\<rparr>);
               parts = AList.update seq (decoded, index) (slot_parts slot)
           in if length parts = n_total
              then (bind_exn (merge_parts False parts) (\<lambda>m. Inr (Some m)), AList.delete key asm)
              else (Inr None, AList.update key (slot\<lparr>slot_parts := parts\<rparr>) asm)))"

text \<open>\<open>flush_stale\<close>: the keys past the timeout are popped in order.\<close>

definition is_stale :: "int \<Rightarrow> slot \<Rightarrow> bool" where
  "is_stale now sl \<longleftrightarrow> now - slot_t sl > stale_after"

definition flush_stale ::
  "int \<Rightarrow> assembler \<Rightarrow> (exn + (inbound \<times> int list) list) \<times> assembler" where
  "flush_stale now asm =
     (traverse (\<lambda>(_, sl). merge_parts True (slot_parts sl)) (filter (\<lambda>(_, sl). is_stale now sl) asm),
      filter (\<lambda>(_, sl). \<not> is_stale now sl) asm)"

section \<open>The assembler's invariant\<close>

text \<open>Every open slot holds at least one part under distinct sequence numbers, and is not
  complete; the keys are distinct.\<close>

definition slot_ok :: "part_key \<Rightarrow> slot \<Rightarrow> bool" where
  "slot_ok key sl \<longleftrightarrow> slot_parts sl \<noteq> [] \<and> distinct (map fst (slot_parts sl))
     \<and> length (slot_parts sl) \<noteq> snd (snd key)"

definition assembler_ok :: "assembler \<Rightarrow> bool" where
  "assembler_ok asm \<longleftrightarrow> distinct (map fst asm) \<and> (\<forall>(key, sl) \<in> set asm. slot_ok key sl)"

lemma assembler_ok_Nil [simp]: "assembler_ok []"
  by (simp add: assembler_ok_def)

lemma ordered_parts_not_Nil: "parts \<noteq> [] \<Longrightarrow> ordered_parts parts \<noteq> []"
  by (cases parts) (simp_all add: ordered_parts_def)

lemma merge_parts_ok:
  assumes "parts \<noteq> []"
  shows "\<exists>m. merge_parts partial parts = Inr m"
proof -
  obtain p ps where "ordered_parts parts = p # ps"
    using ordered_parts_not_Nil [OF assms] by (cases "ordered_parts parts") auto
  then have "merge_parts partial parts = Inr (
      \<lparr>in_sender = sender (fst p), in_text = concat (map (\<lambda>(d, _). content d) (p # ps)),
        in_scts = scts (fst p), in_partial = partial\<rparr>,
      concat (map (\<lambda>(_, i). case i of Some x \<Rightarrow> [x] | None \<Rightarrow> []) (p # ps)))"
    unfolding merge_parts_def by (simp add: Let_def case_prod_beta)
  then show ?thesis by blast
qed

lemma assembler_ok_update:
  assumes "assembler_ok asm" "slot_ok key sl"
  shows "assembler_ok (AList.update key sl asm)"
  using assms set_update_subset [of key sl asm]
  by (auto simp: assembler_ok_def AList.distinct_update)

lemma assembler_ok_delete: "assembler_ok asm \<Longrightarrow> assembler_ok (AList.delete key asm)"
  by (auto simp: assembler_ok_def AList.delete_eq distinct_map_filter)

lemma assembler_ok_slot: "assembler_ok asm \<Longrightarrow> map_of asm key = Some sl \<Longrightarrow> slot_ok key sl"
  by (auto simp: assembler_ok_def dest: map_of_SomeD)

lemma assembler_add_concat:
  assumes "concat_ref decoded = Some (ref, n, seq)"
    and "key = (sender decoded, ref, n)"
    and "sl = (case map_of asm key of Some sl \<Rightarrow> sl | None \<Rightarrow> \<lparr>slot_t = now, slot_parts = []\<rparr>)"
    and "parts = AList.update seq (decoded, index) (slot_parts sl)"
  shows "assembler_add now asm decoded index =
    (if length parts = n
     then (bind_exn (merge_parts False parts) (\<lambda>m. Inr (Some m)), AList.delete key asm)
     else (Inr None, AList.update key (sl\<lparr>slot_parts := parts\<rparr>) asm))"
  unfolding assembler_add_def assms(1) assms(2-) Let_def by simp

lemma assembler_add_single:
  "concat_ref decoded = None \<Longrightarrow> assembler_add now asm decoded index =
     (Inr (Some (\<lparr>in_sender = sender decoded, in_text = content decoded,
        in_scts = scts decoded, in_partial = False\<rparr>,
        case index of Some i \<Rightarrow> [i] | None \<Rightarrow> [])), asm)"
  by (simp add: assembler_add_def)

lemma assembler_add_ok:
  assumes "assembler_ok asm"
  shows "assembler_ok (snd (assembler_add now asm decoded index))
    \<and> (\<exists>r. fst (assembler_add now asm decoded index) = Inr r)"
proof (cases "concat_ref decoded")
  case None
  with assms show ?thesis by (simp add: assembler_add_single)
next
  case (Some c)
  obtain ref n seq where c: "c = (ref, n, seq)" by (cases c)
  define key where "key = (sender decoded, ref, n)"
  define sl where "sl = (case map_of asm key of Some sl \<Rightarrow> sl | None \<Rightarrow> \<lparr>slot_t = now, slot_parts = []\<rparr>)"
  define parts where "parts = AList.update seq (decoded, index) (slot_parts sl)"
  note add = assembler_add_concat [OF Some [unfolded c] key_def sl_def parts_def]
  have "distinct (map fst (slot_parts sl))"
    using assembler_ok_slot [OF assms] by (auto simp: sl_def slot_ok_def split: option.splits)
  then have dp: "distinct (map fst parts)" by (simp add: parts_def AList.distinct_update)
  have "parts \<noteq> []" by (simp add: parts_def)
  show ?thesis
  proof (cases "length parts = n")
    case True
    with merge_parts_ok [OF \<open>parts \<noteq> []\<close>, of False] assms show ?thesis
      by (auto simp: add assembler_ok_delete)
  next
    case False
    then have "slot_ok key (sl\<lparr>slot_parts := parts\<rparr>)"
      using dp \<open>parts \<noteq> []\<close> by (simp add: slot_ok_def key_def)
    with False assms show ?thesis by (simp add: add assembler_ok_update)
  qed
qed

lemma flush_stale_ok:
  assumes "assembler_ok asm"
  shows "assembler_ok (snd (flush_stale now asm))" "\<exists>r. fst (flush_stale now asm) = Inr r"
proof -
  show "assembler_ok (snd (flush_stale now asm))"
    using assms by (auto simp: flush_stale_def assembler_ok_def distinct_map_filter)
  have "\<exists>m. merge_parts True (slot_parts sl) = Inr m" if "(key, sl) \<in> set asm" for key sl
    using assms that by (intro merge_parts_ok) (auto simp: assembler_ok_def slot_ok_def)
  then have "\<forall>x \<in> set asm. \<exists>m. merge_parts True (slot_parts (snd x)) = Inr m" by auto
  then obtain g where "\<And>x. x \<in> set asm \<Longrightarrow> merge_parts True (slot_parts (snd x)) = Inr (g x)"
    by metis
  then show "\<exists>r. fst (flush_stale now asm) = Inr r"
    using traverse_all_Inr [of "filter (\<lambda>(_, sl). is_stale now sl) asm"
        "\<lambda>(_, sl). merge_parts True (slot_parts sl)" g]
    by (auto simp: flush_stale_def)
qed


section \<open>Reassembly in any order\<close>

text \<open>A run of the assembler over deliveries (clock, decoded message, modem index), with
  the messages it completes.\<close>

fun add_all ::
  "assembler \<Rightarrow> (int \<times> deliver \<times> int option) list \<Rightarrow> (exn + (inbound \<times> int list)) list \<times> assembler" where
  "add_all asm [] = ([], asm)"
| "add_all asm ((now, d, i) # ds) =
     (case assembler_add now asm d i of
        (r, asm') \<Rightarrow> (case add_all asm' ds of
          (out, asm'') \<Rightarrow>
            ((case r of Inl e \<Rightarrow> [Inl e] | Inr None \<Rightarrow> [] | Inr (Some m) \<Rightarrow> [Inr m]) @ out, asm'')))"

lemma add_all_append:
  "add_all asm (xs @ ys) =
     (case add_all asm xs of (o1, a1) \<Rightarrow> (case add_all a1 ys of (o2, a2) \<Rightarrow> (o1 @ o2, a2)))"
  by (induction asm xs rule: add_all.induct) (auto split: prod.splits)

text \<open>The deliveries of one concatenated message: part \<open>k\<close> of \<open>n\<close> (from 0) arrives as
  \<open>dlv k\<close> at time \<open>t k\<close> with modem index \<open>idx k\<close>.\<close>

definition parts_of_message ::
  "pystr \<Rightarrow> nat \<Rightarrow> nat \<Rightarrow> (nat \<Rightarrow> deliver) \<Rightarrow> bool" where
  "parts_of_message a ref n dlv \<longleftrightarrow>
     (\<forall>k < n. sender (dlv k) = a \<and> concat_ref (dlv k) = Some (ref, n, Suc k))"

abbreviation entry_of :: "(nat \<Rightarrow> deliver) \<Rightarrow> (nat \<Rightarrow> int option) \<Rightarrow> nat \<Rightarrow> nat \<times> part" where
  "entry_of dlv idx k \<equiv> (Suc k, dlv k, idx k)"

lemma add_all_prefix:
  assumes "parts_of_message a ref n dlv" "map_of asm (a, ref, n) = None"
  shows "distinct ks \<Longrightarrow> set ks \<subseteq> {..<n} \<Longrightarrow> length ks < n \<Longrightarrow>
    add_all asm (map (\<lambda>k. (t k, dlv k, idx k)) ks) =
      ([], if ks = [] then asm
           else AList.update (a, ref, n)
             \<lparr>slot_t = t (hd ks), slot_parts = map (entry_of dlv idx) ks\<rparr> asm)"
proof (induction ks rule: rev_induct)
  case Nil
  then show ?case by simp
next
  case (snoc k ks)
  let ?key = "(a, ref, n)"
  let ?asm = "if ks = [] then asm else AList.update ?key
      \<lparr>slot_t = t (hd ks), slot_parts = map (entry_of dlv idx) ks\<rparr> asm"
  from snoc have ih: "add_all asm (map (\<lambda>k. (t k, dlv k, idx k)) ks) = ([], ?asm)" by auto
  from snoc.prems assms(1) have d: "sender (dlv k) = a" "concat_ref (dlv k) = Some (ref, n, Suc k)"
    by (auto simp: parts_of_message_def)
  define sl where "sl = (case map_of ?asm ?key of Some sl \<Rightarrow> sl
      | None \<Rightarrow> \<lparr>slot_t = t k, slot_parts = []\<rparr>)"
  have sl: "sl = \<lparr>slot_t = t (hd (ks @ [k])), slot_parts = map (entry_of dlv idx) ks\<rparr>"
    using assms(2) by (cases ks) (simp_all add: sl_def AList.update_conv')
  have fresh: "AList.update (Suc k) (dlv k, idx k) (slot_parts sl) = map (entry_of dlv idx) (ks @ [k])"
    using snoc.prems by (subst update_fresh) (auto simp: sl)
  have "assembler_add (t k) ?asm (dlv k) (idx k)
      = (Inr None, AList.update ?key (sl\<lparr>slot_parts := map (entry_of dlv idx) (ks @ [k])\<rparr>) ?asm)"
    using snoc.prems
    by (subst assembler_add_concat [OF d(2) _ sl_def fresh [symmetric]]) (simp_all add: d(1))
  then show ?case
    by (simp add: add_all_append ih sl)
qed

lemma ordered_parts_perm:
  assumes "mset ks = mset [0..<n]"
  shows "ordered_parts (map (entry_of dlv idx) ks) = map (\<lambda>k. (dlv k, idx k)) [0..<n]"
proof -
  have "sort (map Suc ks) = map Suc [0..<n]"
    using assms by (intro properties_for_sort) (simp_all add: sorted_wrt_map)
  moreover have "map_of (map (entry_of dlv idx) ks) (Suc k) = Some (dlv k, idx k)" if "k < n" for k
  proof -
    have "k \<in> set ks" using assms that by (metis atLeast0LessThan lessThan_iff set_mset_mset set_upt)
    then show ?thesis by (induction ks) auto
  qed
  ultimately show ?thesis by (simp add: ordered_parts_def o_def)
qed

lemma merge_parts_perm:
  assumes "mset ks = mset [0..<n]" "0 < n"
  shows "merge_parts partial (map (entry_of dlv idx) ks) =
    Inr (\<lparr>in_sender = sender (dlv 0), in_text = concat (map (content \<circ> dlv) [0..<n]),
          in_scts = scts (dlv 0), in_partial = partial\<rparr>,
         concat (map (\<lambda>k. case idx k of Some i \<Rightarrow> [i] | None \<Rightarrow> []) [0..<n]))"
  using assms(2)
  by (simp add: merge_parts_def ordered_parts_perm [OF assms(1)] Let_def py_index_def o_def)

lemma reassembly:
  assumes "parts_of_message a ref n dlv" "map_of asm (a, ref, n) = None" "0 < n"
    and "mset ks = mset [0..<n]"
  shows "add_all asm (map (\<lambda>k. (t k, dlv k, idx k)) ks) =
    ([Inr (\<lparr>in_sender = a, in_text = concat (map (content \<circ> dlv) [0..<n]),
            in_scts = scts (dlv 0), in_partial = False\<rparr>,
           concat (map (\<lambda>k. case idx k of Some i \<Rightarrow> [i] | None \<Rightarrow> []) [0..<n]))], asm)"
proof -
  have ks: "distinct ks" "set ks = {..<n}" "length ks = n"
    using assms(4) by (metis distinct_upt mset_eq_imp_distinct_iff,
      metis atLeast0LessThan set_mset_mset set_upt, metis diff_zero length_upt size_mset)
  then obtain js k where j: "ks = js @ [k]" using assms(3) by (cases ks rule: rev_cases) auto
  let ?key = "(a, ref, n)"
  let ?asm = "if js = [] then asm else AList.update ?key
      \<lparr>slot_t = t (hd js), slot_parts = map (entry_of dlv idx) js\<rparr> asm"
  have pre: "add_all asm (map (\<lambda>k. (t k, dlv k, idx k)) js) = ([], ?asm)"
    using ks j by (intro add_all_prefix [OF assms(1,2)]) auto
  have d: "sender (dlv k) = a" "concat_ref (dlv k) = Some (ref, n, Suc k)" "sender (dlv 0) = a"
    using assms(1,3) ks j by (auto simp: parts_of_message_def)
  define sl where "sl = (case map_of ?asm ?key of Some sl \<Rightarrow> sl
      | None \<Rightarrow> \<lparr>slot_t = t k, slot_parts = []\<rparr>)"
  have sl: "slot_parts sl = map (entry_of dlv idx) js"
    using assms(2) by (cases js) (simp_all add: sl_def AList.update_conv')
  have fresh: "AList.update (Suc k) (dlv k, idx k) (slot_parts sl) = map (entry_of dlv idx) ks"
  proof -
    have "k \<notin> set js" using ks(1) j by simp
    then have "Suc k \<notin> fst ` set (map (entry_of dlv idx) js)" by auto
    then show ?thesis unfolding sl by (simp add: update_fresh j)
  qed
  have "?key \<notin> fst ` set asm" using assms(2) by (simp add: map_of_eq_None_iff)
  then have del: "AList.delete ?key ?asm = asm"
    by (cases js) (simp_all only: AList.delete_update_same AList.delete_id simp_thms if_True if_False list.distinct)
  have "assembler_add (t k) ?asm (dlv k) (idx k)
      = (bind_exn (merge_parts False (map (entry_of dlv idx) ks)) (\<lambda>m. Inr (Some m)), asm)"
    using ks(3) del
    by (subst assembler_add_concat [OF d(2) _ sl_def fresh [symmetric]]) (simp_all add: d(1))
  note add = this [unfolded merge_parts_perm [OF assms(4,3)] bind_exn_simps d(3)]
  show ?thesis unfolding j map_append add_all_append pre by (simp add: add)
qed


section \<open>From the sender's text to the receiver's\<close>

definition index_list :: "(nat \<Rightarrow> int option) \<Rightarrow> nat \<Rightarrow> int list" where
  "index_list idx n = concat (map (\<lambda>k. case idx k of Some i \<Rightarrow> [i] | None \<Rightarrow> []) [0..<n])"

lemma reassemble_parts:
  assumes "parts \<noteq> []" "mset order = mset [0..<length parts]"
    and "map_of asm (orig, rnd, length parts) = None"
  shows "add_all asm (map (\<lambda>k. (t k, \<lparr>sender = orig, content = parts ! k, scts = stamp k,
      concat_ref = part_ref rnd (length parts) k\<rparr>, idx k)) order) =
    ([Inr (\<lparr>in_sender = orig, in_text = concat parts, in_scts = stamp 0, in_partial = False\<rparr>,
           index_list idx (length parts))], asm)"
proof (cases "length parts > 1")
  case True
  let ?dlv = "\<lambda>k. \<lparr>sender = orig, content = parts ! k, scts = stamp k,
      concat_ref = part_ref rnd (length parts) k\<rparr>"
  have "parts_of_message orig rnd (length parts) ?dlv"
    using True by (simp add: parts_of_message_def part_ref_def)
  moreover have "0 < length parts" using assms(1) by simp
  ultimately have "add_all asm (map (\<lambda>k. (t k, ?dlv k, idx k)) order) =
    ([Inr (\<lparr>in_sender = orig, in_text = concat (map (content \<circ> ?dlv) [0..<length parts]),
      in_scts = scts (?dlv 0), in_partial = False\<rparr>, index_list idx (length parts))], asm)"
    using reassembly [of orig rnd "length parts" ?dlv asm order t idx] assms(2,3)
    unfolding index_list_def by blast
  moreover have "concat (map (content \<circ> ?dlv) [0..<length parts]) = concat parts"
    by (simp add: o_def map_nth)
  ultimately show ?thesis by simp
next
  case False
  with assms(1) obtain p where p: "parts = [p]" by (cases parts) auto
  with assms(2) have "order = [0]" by simp
  with p show ?thesis
    by (simp add: part_ref_def assembler_add_single index_list_def)
qed

lemma sms_reassembly:
  assumes "scalar_text s" "length s \<le> 5000" "e164 number" "rnd < 256"
    and env: "\<And>k. envelope_ok smsc orig oa (ts k)" "\<And>k. decode_scts (ts k) = Inr (stamp k)"
    and fresh: "\<And>n. map_of asm (orig, rnd, n) = None"
  obtains pdus ds where "build_submit_pdus rnd number s = Inr pdus"
    "\<And>k. k < length pdus \<Longrightarrow> decode_deliver (relay_hex smsc oa (ts k) (fst (pdus ! k))) = Inr (Deliver (ds k))"
    "\<And>order t idx. mset order = mset [0..<length pdus] \<Longrightarrow>
       add_all asm (map (\<lambda>k. (t k, ds k, idx k)) order) =
         ([Inr (\<lparr>in_sender = orig, in_text = s, in_scts = stamp 0, in_partial = False\<rparr>,
                index_list idx (length pdus))], asm)"
proof -
  obtain parts pdus where p: "submit_parts s = Inr parts" "build_submit_pdus rnd number s = Inr pdus"
    "length pdus = length parts" "parts \<noteq> []" "length parts \<le> 255" "concat parts = s"
    "\<forall>k < length parts. submit_pdu_ok rnd number (is_gsm7 s) parts k (pdus ! k)"
    using build_submit_pdus_parts [OF assms(1-4)] by metis
  let ?ds = "\<lambda>k. \<lparr>sender = orig, content = parts ! k, scts = stamp k,
      concat_ref = part_ref rnd (length parts) k\<rparr>"
  show thesis
  proof (rule that [of pdus ?ds])
    show "build_submit_pdus rnd number s = Inr pdus" by (rule p(2))
    show "decode_deliver (relay_hex smsc oa (ts k) (fst (pdus ! k))) = Inr (Deliver (?ds k))"
      if "k < length pdus" for k
      using p(3,7) that by (intro decode_relayed_part [OF _ env(1) assms(3) env(2)]) auto
    show "add_all asm (map (\<lambda>k. (t k, ?ds k, idx k)) order) =
        ([Inr (\<lparr>in_sender = orig, in_text = s, in_scts = stamp 0, in_partial = False\<rparr>,
          index_list idx (length pdus))], asm)"
      if "mset order = mset [0..<length pdus]" for order t and idx :: "nat \<Rightarrow> int option"
      using reassemble_parts [OF p(4) that [unfolded p(3)] fresh, of t stamp idx] p(3,6) by simp
  qed
qed

section \<open>Properties\<close>

text \<open>C1. End to end: a text of at most 5000 characters that the encoder accepts, sent as
  SMS-SUBMITs, carried by the network in SMS-DELIVERs and handed to the assembler in any
  order, comes out as one message with exactly the sender's text, complete (not partial),
  with the modem indices of all its parts in sequence order, and leaves the assembler's
  other messages alone.\<close>

theorem sms_end_to_end:
  assumes "scalar_text s" "length s \<le> 5000" "e164 number" "rnd < 256"
    and "\<And>k. envelope_ok smsc orig oa (ts k)" "\<And>k. decode_scts (ts k) = Inr (stamp k)"
    and "\<And>n. map_of asm (orig, rnd, n) = None"
  shows "\<exists>pdus ds. build_submit_pdus rnd number s = Inr pdus
    \<and> (\<forall>k < length pdus. decode_deliver (relay_hex smsc oa (ts k) (fst (pdus ! k))) = Inr (Deliver (ds k)))
    \<and> (\<forall>order t idx. mset order = mset [0..<length pdus] \<longrightarrow>
         add_all asm (map (\<lambda>k. (t k, ds k, idx k)) order) =
           ([Inr (\<lparr>in_sender = orig, in_text = s, in_scts = stamp 0, in_partial = False\<rparr>,
                  index_list idx (length pdus))], asm))"
  by (rule sms_reassembly [where ts = ts and stamp = stamp and smsc = smsc and oa = oa, OF assms]) blast

definition example_envelope :: "nat \<Rightarrow> pybytes" where
  "example_envelope k = [0x62, 0x10, 0x20, 0x31, 0x41, 0x51, 0x40]"

theorem sms_end_to_end_witness:
  "\<exists>pdus ds. build_submit_pdus 66 (str_of ''+15551234567'') (replicate 200 8364) = Inr pdus
    \<and> (\<forall>k < length pdus. decode_deliver (relay_hex [] (4, 0x81, [0x21, 0x43]) (example_envelope k)
         (fst (pdus ! k))) = Inr (Deliver (ds k)))
    \<and> (\<forall>order t idx. mset order = mset [0..<length pdus] \<longrightarrow>
         add_all [] (map (\<lambda>k. (t k, ds k, idx k)) order) =
           ([Inr (\<lparr>in_sender = str_of ''1234'', in_text = replicate 200 8364,
                  in_scts = str_of ''2026-01-02T13:14:15+01:00'', in_partial = False\<rparr>,
                  index_list idx (length pdus))], []))"
proof -
  have s: "scalar_text (replicate 200 8364)"
    by (simp add: scalar_text_def is_surrogate_def list_all_iff)
  have n: "e164 (str_of ''+15551234567'')" by code_simp
  have e: "envelope_ok [] (str_of ''1234'') (4, 0x81, [0x21, 0x43]) (example_envelope k)" for k
  proof -
    have "e164 (str_of ''1234'')" "encode_address (str_of ''1234'') = Inr (4, 0x81, [0x21, 0x43])"
      by code_simp+
    then show ?thesis by (simp add: envelope_ok_def example_envelope_def)
  qed
  have d: "decode_scts (example_envelope k) = Inr (str_of ''2026-01-02T13:14:15+01:00'')" for k
    unfolding example_envelope_def by code_simp
  show ?thesis
    by (rule sms_end_to_end [where ts = example_envelope, OF s _ n _ e d]) simp_all
qed

end
