(* ===== verification/File_Store.thy ===== *)
theory File_Store
  imports Receive "HOL-Library.List_Lexorder" "HOL-Library.Product_Lexorder"
begin

text \<open>
  The optional file store, \<open>server/gtg_server/store.py\<close>.  A directory is the association
  list of its file names with their contents, \<open>None\<close> for a file that is not readable JSON;
  \<open>json.dump\<close> then \<open>json.load\<close> give the dumped object back.  A write is the sequence of
  file operations of \<open>_write\<close> and \<open>_persist_stream\<close> (create the temporary file, fill it,
  rename it), and the calls take the number of operations that are carried out before the
  process dies or an \<open>OSError\<close> stops it, so that a crash is a prefix of that sequence.
\<close>

section \<open>Records\<close>

datatype out_state = Queued | Sending | Submitted | Failed | SubmissionUnknown

text \<open>An outbound record (\<open>outbox.py\<close>, \<open>Outbox.create\<close>).\<close>

record out_record =
  out_id :: int
  out_to :: "pystr list"
  out_text :: pystr
  out_state :: out_state
  out_refs :: "int option list"
  out_error :: "pystr option"
  created_at :: pystr
  idem_key :: "pystr option"
  owner :: "pystr option"
  updated_at :: "pystr option"

type_synonym 'm dir = "(pystr \<times> 'm option) list"

record disk =
  inbox :: "published dir"
  outbox_dir :: "out_record dir"
  root_dir :: "(pystr \<times> int) dir"

record store =
  store_disk :: disk
  store_stream :: pystr
  store_next :: int
  in_index :: "(int \<times> pystr) list"
  out_index :: "(int \<times> pystr) list"

section \<open>File operations\<close>

datatype 'm file_op =
    Put pystr "'m option"
  | Rename pystr pystr

fun run_op :: "'m file_op \<Rightarrow> 'm dir \<Rightarrow> 'm dir" where
  "run_op (Put name c) d = AList.update name c d"
| "run_op (Rename a b) d =
     (case map_of d a of
        Some c \<Rightarrow> AList.update b c (AList.delete a d)
      | None \<Rightarrow> d)"

definition tmp_name :: "pystr \<Rightarrow> pystr" where
  "tmp_name name = name @ str_of ''.tmp''"

definition write_ops :: "pystr \<Rightarrow> 'm \<Rightarrow> 'm file_op list" where
  "write_ops name payload =
     [Put (tmp_name name) None, Put (tmp_name name) (Some payload), Rename (tmp_name name) name]"

definition stream_name :: pystr where "stream_name = str_of ''stream.json''"

definition persist_stream_ops :: "pystr \<Rightarrow> int \<Rightarrow> (pystr \<times> int) file_op list" where
  "persist_stream_ops sid n = write_ops stream_name (sid, n)"

text \<open>The first \<open>k\<close> operations of a sequence.\<close>

definition run_ops :: "nat \<Rightarrow> 'm file_op list \<Rightarrow> 'm dir \<Rightarrow> 'm dir" where
  "run_ops k ops d = fold run_op (take k ops) d"

section \<open>The interface the hub relies on\<close>

text \<open>A message log: saving appends under the next id, replaying an open interval of ids
  gives the newest \<open>window\<close> messages of it, oldest first.\<close>

locale message_log =
  fixes ok :: "'s \<Rightarrow> bool" and log :: "'s \<Rightarrow> 'm list" and ident :: "'m \<Rightarrow> int"
    and next_of :: "'s \<Rightarrow> int" and save :: "'s \<Rightarrow> 'm \<Rightarrow> 's"
    and replay :: "'s \<Rightarrow> int \<Rightarrow> int \<Rightarrow> 'm list" and window :: nat
  assumes save_ok: "ok s \<Longrightarrow> ident m = next_of s \<Longrightarrow> ok (save s m)"
    and save_log: "ok s \<Longrightarrow> ident m = next_of s \<Longrightarrow> log (save s m) = log s @ [m]"
    and save_next: "ok s \<Longrightarrow> ident m = next_of s \<Longrightarrow> next_of (save s m) = next_of s + 1"
    and log_below: "ok s \<Longrightarrow> m \<in> set (log s) \<Longrightarrow> ident m < next_of s"
    and log_sorted: "ok s \<Longrightarrow> sorted_wrt (<) (map ident (log s))"
    and replay_log: "ok s \<Longrightarrow> replay s a b = last_n window (filter (\<lambda>m. a < ident m \<and> ident m < b) (log s))"
begin

lemma save_all:
  "ok s \<Longrightarrow> map ident ms = [next_of s..next_of s + int (length ms) - 1] \<Longrightarrow>
     ok (fold (\<lambda>m s. save s m) ms s) \<and> log (fold (\<lambda>m s. save s m) ms s) = log s @ ms
     \<and> next_of (fold (\<lambda>m s. save s m) ms s) = next_of s + int (length ms)"
proof (induction ms arbitrary: s)
  case Nil
  then show ?case by simp
next
  case (Cons m ms)
  from Cons.prems(2) have m: "ident m = next_of s"
    "map ident ms = [next_of s + 1..next_of s + int (length ms)]"
    by (simp_all add: upto_rec1)
  note s = save_ok [OF Cons.prems(1) m(1)] save_log [OF Cons.prems(1) m(1)] save_next [OF Cons.prems(1) m(1)]
  from Cons.IH [OF s(1)] m(2) show ?case by (simp add: s(2,3))
qed

text \<open>A reader that has seen everything up to some point gets exactly what was saved since,
  as long as that fits the window.\<close>

lemma replay_since:
  assumes "ok s" "map ident ms = [next_of s..next_of s + int (length ms) - 1]" "length ms \<le> window"
  shows "replay (fold (\<lambda>m s. save s m) ms s) (next_of s - 1) (next_of s + int (length ms)) = ms"
proof -
  let ?s = "fold (\<lambda>m s. save s m) ms s"
  have s: "ok ?s" "log ?s = log s @ ms" using save_all [OF assms(1,2)] by auto
  have "filter (\<lambda>m. next_of s - 1 < ident m \<and> ident m < next_of s + int (length ms)) (log s) = []"
    using log_below [OF assms(1)] by (fastforce simp: filter_empty_conv)
  moreover have "filter (\<lambda>m. next_of s - 1 < ident m \<and> ident m < next_of s + int (length ms)) ms = ms"
  proof (rule filter_True, rule ballI)
    fix m assume "m \<in> set ms"
    then have "ident m \<in> set (map ident ms)" by simp
    then show "next_of s - 1 < ident m \<and> ident m < next_of s + int (length ms)"
      unfolding assms(2) by simp
  qed
  ultimately show ?thesis
    using assms(3) by (simp add: replay_log [OF s(1)] s(2) last_n_short)
qed

lemma replay_bounds:
  assumes "ok s"
  shows "length (replay s a b) \<le> window" "set (replay s a b) \<subseteq> set (log s)"
    "sorted_wrt (<) (map ident (replay s a b))"
proof -
  show "length (replay s a b) \<le> window" by (simp add: replay_log [OF assms])
  show "set (replay s a b) \<subseteq> set (log s)"
    using set_last_n by (fastforce simp: replay_log [OF assms])
  show "sorted_wrt (<) (map ident (replay s a b))"
    using log_sorted [OF assms]
    by (simp add: replay_log [OF assms] sorted_wrt_map sorted_wrt_last_n sorted_wrt_filter)
qed

end

section \<open>Names and indexes\<close>

definition ends_with :: "pystr \<Rightarrow> pystr \<Rightarrow> bool" where
  "ends_with s e \<longleftrightarrow> length e \<le> length s \<and> drop (length s - length e) s = e"

text \<open>\<open>int(name.rsplit("_", 1)[1].split(".")[0])\<close> of a name that ends in \<open>.json\<close>.\<close>

definition index_id :: "pystr \<Rightarrow> int option" where
  "index_id name =
     (if \<not> ends_with name (str_of ''.json'') then None
      else (case py_rpartition 95 name of
              (None, _) \<Rightarrow> None
            | (Some _, b) \<Rightarrow> py_int (hd (py_split 46 b))))"

definition build_index :: "'m dir \<Rightarrow> (int \<times> pystr) list" where
  "build_index d = sort (List.map_filter (\<lambda>name. map_option (\<lambda>i. (i, name)) (index_id name)) (map fst d))"

text \<open>\<open>_SAFE.sub("", s)\<close>.\<close>

definition safe_char :: "nat \<Rightarrow> bool" where
  "safe_char c \<longleftrightarrow> 48 \<le> c \<and> c \<le> 57 \<or> 65 \<le> c \<and> c \<le> 90 \<or> 97 \<le> c \<and> c \<le> 122
     \<or> c = 43 \<or> c = 46 \<or> c = 95 \<or> c = 45"

definition safe_text :: "pystr \<Rightarrow> pystr" where
  "safe_text s = filter safe_char s"

definition file_name :: "pystr \<Rightarrow> pystr \<Rightarrow> int \<Rightarrow> pystr" where
  "file_name stamp_src who_src n =
     (let stamp = safe_text (filter (\<lambda>c. c \<noteq> 58) stamp_src);
          who = take 24 (safe_text (if who_src = [] then str_of ''unknown'' else who_src))
      in stamp @ [95] @ who @ [95] @ int_dec n @ str_of ''.json'')"

definition inbound_name :: "published \<Rightarrow> pystr" where
  "inbound_name m = file_name (received_at m) (in_sender m) (msg_id m)"

definition outbound_name :: "out_record \<Rightarrow> pystr" where
  "outbound_name r = file_name (created_at r) (py_join [44] (out_to r)) (out_id r)"

section \<open>Opening and saving\<close>

text \<open>\<open>_load_stream\<close>: a missing or unreadable file starts a new stream, named \<open>fresh\<close> by
  \<open>uuid4\<close>.\<close>

definition load_stream :: "pystr \<Rightarrow> disk \<Rightarrow> pystr \<times> int \<times> disk" where
  "load_stream fresh d =
     (case map_of (root_dir d) stream_name of
        Some (Some (sid, n)) \<Rightarrow> (sid, n, d)
      | _ \<Rightarrow> (fresh, 1, d\<lparr>root_dir := run_ops 3 (persist_stream_ops fresh 1) (root_dir d)\<rparr>))"

definition open_store :: "pystr \<Rightarrow> disk \<Rightarrow> store" where
  "open_store fresh d =
     (case load_stream fresh d of
        (sid, n, d') \<Rightarrow>
          \<lparr>store_disk = d', store_stream = sid, store_next = n,
            in_index = build_index (inbox d'), out_index = build_index (outbox_dir d')\<rparr>)"

definition empty_disk :: disk where
  "empty_disk = \<lparr>inbox = [], outbox_dir = [], root_dir = []\<rparr>"

text \<open>The file operations of \<open>save_inbound\<close>, \<open>k\<close> of them: three for the message, three
  for the counter.  The index and the counter in memory change between the two.\<close>

definition inbound_disk :: "nat \<Rightarrow> store \<Rightarrow> published \<Rightarrow> int \<Rightarrow> disk" where
  "inbound_disk k st msg next_id =
     (store_disk st)\<lparr>inbox := run_ops k (write_ops (inbound_name msg) msg) (inbox (store_disk st)),
        root_dir := run_ops (k - 3) (persist_stream_ops (store_stream st) next_id)
          (root_dir (store_disk st))\<rparr>"

definition save_inbound :: "nat \<Rightarrow> store \<Rightarrow> published \<Rightarrow> int \<Rightarrow> (exn + unit) \<times> store" where
  "save_inbound k st msg next_id =
     (let st' = st\<lparr>store_disk := inbound_disk k st msg next_id\<rparr>
      in if k < 3 then (Inl OSError, st')
         else (let st'' = st'\<lparr>in_index := in_index st' @ [(msg_id msg, inbound_name msg)],
                             store_next := next_id\<rparr>
               in (if k < 6 then Inl OSError else Inr (), st'')))"

definition save_outbound :: "nat \<Rightarrow> store \<Rightarrow> out_record \<Rightarrow> (exn + unit) \<times> store" where
  "save_outbound k st rec =
     (let d = store_disk st;
          name = outbound_name rec;
          st' = st\<lparr>store_disk := d\<lparr>outbox_dir := run_ops k (write_ops name rec) (outbox_dir d)\<rparr>\<rparr>
      in if k < 3 then (Inl OSError, st')
         else (Inr (), st'\<lparr>out_index :=
             sort (filter (\<lambda>e. fst e \<noteq> out_id rec) (out_index st') @ [(out_id rec, name)])\<rparr>))"

section \<open>Reading\<close>

definition MAX_REPLAY :: nat where "MAX_REPLAY = 500"

text \<open>The readable files of a list of index entries.\<close>

definition read_entries :: "'m dir \<Rightarrow> (int \<times> pystr) list \<Rightarrow> 'm list" where
  "read_entries d es = List.map_filter (\<lambda>(_, name). Option.bind (map_of d name) id) es"

definition replay_after :: "store \<Rightarrow> int \<Rightarrow> int \<Rightarrow> published list" where
  "replay_after st after before =
     read_entries (inbox (store_disk st))
       (last_n MAX_REPLAY (filter (\<lambda>e. after < fst e \<and> fst e < before) (in_index st)))"

definition history_entries :: "int option \<Rightarrow> int \<Rightarrow> (int \<times> pystr) list \<Rightarrow> (int \<times> pystr) list" where
  "history_entries before limit index =
     rev (last_n (nat (max 1 (min limit 200)))
       (filter (\<lambda>e. case before of None \<Rightarrow> True | Some b \<Rightarrow> fst e < b) index))"

definition history_inbox :: "store \<Rightarrow> int option \<Rightarrow> int \<Rightarrow> published list" where
  "history_inbox st before limit =
     read_entries (inbox (store_disk st)) (history_entries before limit (in_index st))"

definition history_outbox :: "store \<Rightarrow> int option \<Rightarrow> int \<Rightarrow> out_record list" where
  "history_outbox st before limit =
     read_entries (outbox_dir (store_disk st)) (history_entries before limit (out_index st))"

section \<open>File names\<close>

lemma py_rpartition_append: "c \<notin> set b \<Longrightarrow> py_rpartition c (a @ c # b) = (Some a, b)"
  by (simp add: py_rpartition_def)

lemma ends_with_append [simp]: "ends_with (s @ e) e"
  by (simp add: ends_with_def)

lemma json_chars: "str_of ''.json'' = [46, 106, 115, 111, 110]" "str_of ''.tmp'' = [46, 116, 109, 112]"
  by code_simp+

lemma index_id_file_name [simp]: "index_id (file_name a b n) = Some n"
proof -
  obtain p where p: "file_name a b n = (p @ 95 # int_dec n) @ str_of ''.json''"
    by (simp add: file_name_def Let_def)
  have u: "95 \<notin> set (int_dec n @ str_of ''.json'')" "46 \<notin> set (int_dec n)"
    using int_dec_chars [of 95 n] int_dec_chars [of 46 n] by (auto simp: json_chars ascii_digit_def)
  have "py_rpartition 95 (file_name a b n) = (Some p, int_dec n @ str_of ''.json'')"
    unfolding p using py_rpartition_append [OF u(1)] by simp
  moreover have "hd (py_split 46 (int_dec n @ str_of ''.json'')) = int_dec n"
    unfolding json_chars by (simp add: py_split_append u(2))
  moreover have "ends_with (file_name a b n) (str_of ''.json'')"
    unfolding p by (rule ends_with_append)
  ultimately show ?thesis by (simp add: index_id_def)
qed

lemma index_id_tmp [simp]: "index_id (tmp_name x) = None"
proof -
  have "\<not> ends_with (tmp_name x) (str_of ''.json'')"
  proof
    assume "ends_with (tmp_name x) (str_of ''.json'')"
    then have e: "drop (length (tmp_name x) - length (str_of ''.json'')) (tmp_name x) = str_of ''.json''"
      by (simp add: ends_with_def)
    then have "last (tmp_name x) = last (str_of ''.json'')"
      by (metis last_drop drop_eq_Nil2 json_chars(1) leI list.distinct(1))
    then show False by (simp add: tmp_name_def json_chars)
  qed
  then show ?thesis by (simp add: index_id_def)
qed

lemma tmp_name_neq [simp]: "tmp_name x \<noteq> x" "x \<noteq> tmp_name x"
  by (simp_all add: tmp_name_def json_chars)

lemma stream_name_neq [simp]: "tmp_name stream_name \<noteq> stream_name"
  by simp

section \<open>Directories\<close>

definition visible :: "'m dir \<Rightarrow> pystr list" where
  "visible d = filter (\<lambda>name. index_id name \<noteq> None) (map fst d)"

lemma map_filter_filter: "List.map_filter f (filter P xs) = List.map_filter (\<lambda>x. if P x then f x else None) xs"
  by (induction xs) (simp_all add: List.map_filter_def)

lemma build_index_visible: "build_index d = sort (map (\<lambda>name. (the (index_id name), name)) (visible d))"
proof -
  have "List.map_filter (\<lambda>name. map_option (\<lambda>i. (i, name)) (index_id name)) xs
      = map (\<lambda>name. (the (index_id name), name)) (filter (\<lambda>name. index_id name \<noteq> None) xs)" for xs
    by (induction xs) (auto simp: List.map_filter_def)
  then show ?thesis by (simp add: build_index_def visible_def)
qed

text \<open>What the directory holds after the first \<open>k\<close> operations of a write: before the
  rename only the temporary file differs, after it the new file is there.\<close>

lemma write_ops_map_of:
  "map_of (run_ops k (write_ops name x) d) n' =
     (if n' = tmp_name name then
        (if k = 0 then map_of d n' else if k = 1 then Some None
         else if k = 2 then Some (Some x) else None)
      else if n' = name \<and> 3 \<le> k then Some (Some x) else map_of d n')"
proof -
  consider "k = 0" | "k = 1" | "k = 2" | "3 \<le> k" by linarith
  then show ?thesis
    by cases (auto simp: run_ops_def write_ops_def map_of_update map_of_delete numeral_2_eq_2
      take_Cons' numeral_3_eq_3)
qed

lemma write_ops_visible:
  assumes "index_id name \<noteq> None"
  shows "visible (run_ops k (write_ops name x) d) =
     (if 3 \<le> k \<and> name \<notin> fst ` set d then visible d @ [name] else visible d)"
proof -
  have u: "visible (AList.update (tmp_name name) c d') = visible d'" for c and d' :: "'a dir"
    by (simp add: visible_def map_fst_update)
  have f: "filter (\<lambda>y. y \<noteq> tmp_name name \<and> (\<exists>z. index_id y = Some z)) xs
      = filter (\<lambda>y. \<exists>z. index_id y = Some z) xs" for xs
    by (induction xs) auto
  have r: "visible (AList.update name c (AList.delete (tmp_name name) d')) =
      (if name \<in> fst ` set d' then visible d' else visible d' @ [name])" for c and d' :: "'a dir"
  proof -
    have "name \<in> fst ` set (AList.delete (tmp_name name) d') \<longleftrightarrow> name \<in> fst ` set d'"
      by (force simp: AList.delete_eq)
    then show ?thesis using assms by (simp add: visible_def map_fst_update map_fst_delete f)
  qed
  consider "k = 0" | "k = 1" | "k = 2" | "3 \<le> k" by linarith
  then show ?thesis
  proof cases
    case 4
    let ?d = "AList.update (tmp_name name) (Some x) (AList.update (tmp_name name) None d)"
    have "run_ops k (write_ops name x) d = AList.update name (Some x) (AList.delete (tmp_name name) ?d)"
      using 4 by (simp add: run_ops_def write_ops_def map_of_update)
    moreover have "name \<in> fst ` set ?d \<longleftrightarrow> name \<in> fst ` set d"
      by (simp add: AList.dom_update)
    ultimately show ?thesis using 4 by (simp add: r u)
  qed (simp_all add: run_ops_def write_ops_def u numeral_2_eq_2)
qed

lemma write_ops_distinct:
  "distinct (map fst d) \<Longrightarrow> distinct (map fst (run_ops k (write_ops name x) d))"
proof -
  have "distinct (map fst d) \<Longrightarrow> distinct (map fst (run_op op d))" for op and d :: "'a dir"
    by (cases op) (auto simp: AList.distinct_update AList.distinct_delete split: option.split)
  then have "distinct (map fst d) \<Longrightarrow> distinct (map fst (fold run_op ops d))" for ops and d :: "'a dir"
    by (induction ops arbitrary: d) auto
  then show "distinct (map fst d) \<Longrightarrow> ?thesis" by (simp add: run_ops_def)
qed

section \<open>The store's invariant\<close>

text \<open>The counter on disk is the one in memory, the inbox index is the one a restart would
  build, ids ascend, lie below the counter, and name a readable file of that message.\<close>

definition box_ok :: "('m \<Rightarrow> int) \<Rightarrow> 'm dir \<Rightarrow> (int \<times> pystr) list \<Rightarrow> bool" where
  "box_ok ident d index \<longleftrightarrow> distinct (map fst d) \<and> index = build_index d
     \<and> sorted_wrt (<) (map fst index)
     \<and> (\<forall>(i, name) \<in> set index. \<exists>m. map_of d name = Some (Some m) \<and> ident m = i)"

definition store_ok :: "store \<Rightarrow> bool" where
  "store_ok st \<longleftrightarrow>
     map_of (root_dir (store_disk st)) stream_name = Some (Some (store_stream st, store_next st))
     \<and> box_ok msg_id (inbox (store_disk st)) (in_index st)
     \<and> (\<forall>e \<in> set (in_index st). fst e < store_next st)"

text \<open>The messages of the log, oldest first.\<close>

definition inbox_log :: "store \<Rightarrow> published list" where
  "inbox_log st = read_entries (inbox (store_disk st)) (in_index st)"

lemma build_index_Nil [simp]: "build_index [] = []"
  by (simp add: build_index_def List.map_filter_def)

lemma stream_after_persist:
  "map_of (run_ops k (persist_stream_ops sid n) d) stream_name =
     (if 3 \<le> k then Some (Some (sid, n)) else map_of d stream_name)"
  by (auto simp: persist_stream_ops_def write_ops_map_of)

lemma open_empty_ok: "store_ok (open_store fresh empty_disk)"
  by (simp add: store_ok_def open_store_def load_stream_def empty_disk_def stream_after_persist box_ok_def)

lemma reopen_same:
  assumes "store_ok st"
  shows "open_store fresh (store_disk st) = st\<lparr>out_index := build_index (outbox_dir (store_disk st))\<rparr>"
  using assms by (cases st) (simp add: store_ok_def box_ok_def open_store_def load_stream_def)

lemma out_index_irrelevant [simp]:
  "inbox_log (st\<lparr>out_index := x\<rparr>) = inbox_log st"
  "replay_after (st\<lparr>out_index := x\<rparr>) a b = replay_after st a b"
  by (simp_all add: inbox_log_def replay_after_def)

lemma read_entries_simps [simp]:
  "read_entries d [] = []"
  "read_entries d (e # es) =
     (case map_of d (snd e) of Some (Some m) \<Rightarrow> [m] | _ \<Rightarrow> []) @ read_entries d es"
  by (auto simp: read_entries_def List.map_filter_def split: option.splits prod.splits)

lemma read_entries_append [simp]: "read_entries d (es @ fs) = read_entries d es @ read_entries d fs"
  by (induction es) simp_all

lemma read_entries_cong:
  "(\<And>e. e \<in> set es \<Longrightarrow> map_of d (snd e) = map_of d' (snd e)) \<Longrightarrow> read_entries d es = read_entries d' es"
  by (induction es) auto

text \<open>Reading entries that all name a file of their id keeps length, order and ids.\<close>

lemma read_entries_ids:
  assumes "\<And>i name. (i, name) \<in> set es \<Longrightarrow> \<exists>m. map_of d name = Some (Some m) \<and> ident m = i"
  shows "map ident (read_entries d es) = map fst es"
  using assms
proof (induction es)
  case Nil
  then show ?case by simp
next
  case (Cons e es)
  obtain i name where e: "e = (i, name)" by (cases e)
  with Cons.prems [of i name] obtain m where "map_of d name = Some (Some m)" "ident m = i" by auto
  moreover have "map ident (read_entries d es) = map fst es"
    by (rule Cons.IH) (auto intro: Cons.prems)
  ultimately show ?case by (simp add: e)
qed

lemma read_entries_filter:
  assumes "\<And>i name. (i, name) \<in> set es \<Longrightarrow> \<exists>m. map_of d name = Some (Some m) \<and> ident m = i"
  shows "read_entries d (filter (\<lambda>e. P (fst e)) es) = filter (\<lambda>m. P (ident m)) (read_entries d es)"
  using assms
proof (induction es)
  case Nil
  then show ?case by simp
next
  case (Cons e es)
  obtain i name where e: "e = (i, name)" by (cases e)
  with Cons.prems [of i name] obtain m where "map_of d name = Some (Some m)" "ident m = i" by auto
  moreover have "read_entries d (filter (\<lambda>e. P (fst e)) es) = filter (\<lambda>m. P (ident m)) (read_entries d es)"
    by (rule Cons.IH) (auto intro: Cons.prems)
  ultimately show ?case by (simp add: e)
qed

lemma read_entries_drop:
  assumes "\<And>i name. (i, name) \<in> set es \<Longrightarrow> \<exists>m. map_of d name = Some (Some m) \<and> ident m = i"
  shows "read_entries d (drop n es) = drop n (read_entries d es)"
  using assms
proof (induction n arbitrary: es)
  case 0
  then show ?case by simp
next
  case (Suc n)
  show ?case
  proof (cases es)
    case Nil
    then show ?thesis by simp
  next
    case (Cons e es')
    obtain i name where e: "e = (i, name)" by (cases e)
    with Suc.prems [of i name] Cons obtain m where "map_of d name = Some (Some m)" by auto
    moreover have "read_entries d (drop n es') = drop n (read_entries d es')"
      by (rule Suc.IH) (auto intro: Suc.prems simp: Cons)
    ultimately show ?thesis by (simp add: Cons e)
  qed
qed

lemma read_entries_last_n:
  assumes "\<And>i name. (i, name) \<in> set es \<Longrightarrow> \<exists>m. map_of d name = Some (Some m) \<and> ident m = i"
  shows "read_entries d (last_n n es) = last_n n (read_entries d es)"
proof -
  have "map ident (read_entries d es) = map fst es"
    by (rule read_entries_ids) (rule assms)
  then have "length (read_entries d es) = length es"
    by (metis length_map)
  moreover have "read_entries d (drop k es) = drop k (read_entries d es)" for k
    by (rule read_entries_drop) (rule assms)
  ultimately show ?thesis by (simp add: last_n_def)
qed

lemma in_build_index:
  "(i, name) \<in> set (build_index d) \<longleftrightarrow> name \<in> fst ` set d \<and> index_id name = Some i"
proof -
  have "set (build_index d) = (\<lambda>name. (the (index_id name), name)) ` set (visible d)"
    by (simp add: build_index_visible)
  also have "(i, name) \<in> \<dots> \<longleftrightarrow> name \<in> set (visible d) \<and> index_id name = Some i"
    by (force simp: visible_def)
  finally show ?thesis by (simp add: visible_def) blast
qed

lemma sort_append_greatest:
  assumes "\<And>y. y \<in> set ys \<Longrightarrow> y \<le> (x :: 'a :: linorder)"
  shows "sort (ys @ [x]) = sort ys @ [x]"
  by (rule properties_for_sort) (auto simp: sorted_append assms)

lemma box_ok_write:
  assumes "box_ok ident d index" "index_id name = Some (ident m)" "\<forall>e \<in> set index. fst e < ident m"
  shows "box_ok ident (run_ops k (write_ops name m) d)
           (if 3 \<le> k then index @ [(ident m, name)] else index)"
proof -
  let ?d = "run_ops k (write_ops name m) d"
  let ?e = "(ident m, name)"
  from assms(1) have ok: "distinct (map fst d)" "index = build_index d" "sorted_wrt (<) (map fst index)"
    "\<And>i n. (i, n) \<in> set index \<Longrightarrow> \<exists>m. map_of d n = Some (Some m) \<and> ident m = i"
    by (auto simp: box_ok_def)
  have new: "name \<notin> fst ` set d"
    using assms(2,3) ok(2) in_build_index [of "ident m" name d] by force
  have same: "map_of ?d n = map_of d n" if "(i, n) \<in> set index" for i n
  proof -
    have "index_id n = Some i" "n \<in> fst ` set d"
      using that unfolding ok(2) in_build_index by auto
    with new index_id_tmp [of name] show ?thesis unfolding write_ops_map_of by auto
  qed
  have vis: "visible ?d = (if 3 \<le> k then visible d @ [name] else visible d)"
    using write_ops_visible [of name k m d] assms(2) new by simp
  let ?f = "\<lambda>name. (the (index_id name), name)"
  have le: "y \<le> ?e" if "y \<in> set (map ?f (visible d))" for y
  proof -
    have "y \<in> set index" using that unfolding ok(2) build_index_visible by simp
    with assms(3) have "fst y < ident m" by blast
    then show ?thesis by (cases y) (simp add: less_eq_prod_def)
  qed
  have bi: "build_index ?d = (if 3 \<le> k then index @ [?e] else index)"
    using sort_append_greatest [of "map ?f (visible d)" ?e] le assms(2)
    by (simp add: ok(2) build_index_visible vis)
  have now: "\<exists>m'. map_of ?d n = Some (Some m') \<and> ident m' = i"
    if "(i, n) \<in> set (if 3 \<le> k then index @ [?e] else index)" for i n
  proof (cases "(i, n) \<in> set index")
    case True
    then show ?thesis using ok(4) [OF True] same [OF True] by simp
  next
    case False
    with that have "3 \<le> k" "i = ident m" "n = name" by (auto split: if_splits)
    then show ?thesis by (simp add: write_ops_map_of)
  qed
  have "sorted_wrt (<) (map fst (if 3 \<le> k then index @ [?e] else index))"
    using ok(3) assms(3) by (auto simp: sorted_wrt_append)
  with now bi write_ops_distinct [OF ok(1), of k name m] show ?thesis
    unfolding box_ok_def by auto
qed

section \<open>Saving, crashing, restarting\<close>

lemma store_disk_save [simp]: "store_disk (snd (save_inbound k st m n)) = inbound_disk k st m n"
  by (simp add: save_inbound_def Let_def)

lemma save_inbound_ok:
  assumes "store_ok st" "msg_id m = store_next st"
  shows "store_ok (snd (save_inbound 6 st m (store_next st + 1)))"
    and "fst (save_inbound 6 st m (store_next st + 1)) = Inr ()"
    and "store_next (snd (save_inbound 6 st m (store_next st + 1))) = store_next st + 1"
    and "store_stream (snd (save_inbound 6 st m (store_next st + 1))) = store_stream st"
proof -
  have id: "index_id (inbound_name m) = Some (msg_id m)" by (simp add: inbound_name_def)
  have lt: "\<forall>e \<in> set (in_index st). fst e < msg_id m" using assms by (simp add: store_ok_def)
  have box: "box_ok msg_id (inbox (store_disk st)) (in_index st)" using assms(1) by (simp add: store_ok_def)
  from box_ok_write [OF box id lt, of 6] assms lt
  show "store_ok (snd (save_inbound 6 st m (store_next st + 1)))"
    by (auto simp: store_ok_def save_inbound_def inbound_disk_def stream_after_persist)
qed (simp_all add: save_inbound_def)

lemma read_entries_write:
  assumes "box_ok ident d index" "index_id name = Some (ident m)" "\<forall>e \<in> set index. fst e < ident m"
  shows "read_entries (run_ops k (write_ops name m) d) (if 3 \<le> k then index @ [(ident m, name)] else index)
    = read_entries d index @ (if 3 \<le> k then [m] else [])"
proof -
  have "read_entries (run_ops k (write_ops name m) d) index = read_entries d index"
  proof (rule read_entries_cong)
    fix e assume "e \<in> set index"
    obtain i n where e: "e = (i, n)" by (cases e)
    with \<open>e \<in> set index\<close> have "(i, n) \<in> set index" by simp
    then have "index_id n = Some i" "i < ident m"
      using assms(1,3) in_build_index [of i n d] by (auto simp: box_ok_def)
    then have "n \<noteq> name" "n \<noteq> tmp_name name" using assms(2) by auto
    then show "map_of (run_ops k (write_ops name m) d) (snd e) = map_of d (snd e)"
      by (simp add: write_ops_map_of e)
  qed
  then show ?thesis by (simp add: write_ops_map_of)
qed

text \<open>What a restart finds after \<open>k\<close> of the six file operations of \<open>save_inbound\<close>.\<close>

lemma crash_restart:
  fixes k :: nat and fresh :: pystr
  assumes "store_ok st" "msg_id m = store_next st"
  defines "st' \<equiv> open_store fresh (inbound_disk k st m (store_next st + 1))"
  shows "store_stream st' = store_stream st"
    "store_next st' = (if 6 \<le> k then store_next st + 1 else store_next st)"
    "inbox_log st' = inbox_log st @ (if 3 \<le> k then [m] else [])"
    "box_ok msg_id (inbox (store_disk st')) (in_index st')"
proof -
  let ?d = "inbound_disk k st m (store_next st + 1)"
  have id: "index_id (inbound_name m) = Some (msg_id m)" by (simp add: inbound_name_def)
  have lt: "\<forall>e \<in> set (in_index st). fst e < msg_id m" using assms by (simp add: store_ok_def)
  have box: "box_ok msg_id (inbox (store_disk st)) (in_index st)" using assms(1) by (simp add: store_ok_def)
  have root: "map_of (root_dir ?d) stream_name
      = Some (Some (store_stream st, if 6 \<le> k then store_next st + 1 else store_next st))"
    using assms(1) by (auto simp: inbound_disk_def stream_after_persist store_ok_def)
  let ?index = "if 3 \<le> k then in_index st @ [(msg_id m, inbound_name m)] else in_index st"
  have new: "box_ok msg_id (inbox ?d) ?index"
    using box_ok_write [OF box id lt, of k] by (simp add: inbound_disk_def)
  then have "build_index (inbox ?d) = ?index" by (simp add: box_ok_def)
  with root have o: "in_index st' = ?index" "store_disk st' = ?d" "store_stream st' = store_stream st"
    "store_next st' = (if 6 \<le> k then store_next st + 1 else store_next st)"
    by (simp_all add: st'_def open_store_def load_stream_def)
  show "store_stream st' = store_stream st" "store_next st' = (if 6 \<le> k then store_next st + 1 else store_next st)"
    by (rule o)+
  show "box_ok msg_id (inbox (store_disk st')) (in_index st')"
    using new by (simp only: o)
  show "inbox_log st' = inbox_log st @ (if 3 \<le> k then [m] else [])"
    using read_entries_write [OF box id lt, of k] unfolding inbox_log_def o
    by (simp add: inbound_disk_def)
qed

lemma save_inbound_log:
  assumes "store_ok st" "msg_id m = store_next st"
  shows "inbox_log (snd (save_inbound 6 st m (store_next st + 1))) = inbox_log st @ [m]"
proof -
  let ?s = "snd (save_inbound 6 st m (store_next st + 1))"
  have "inbox_log (open_store [] (store_disk ?s)) = inbox_log ?s"
    by (simp only: reopen_same [OF save_inbound_ok(1) [OF assms]] out_index_irrelevant)
  with crash_restart(3) [OF assms, of "[]" 6] show ?thesis by simp
qed

lemma log_ids:
  assumes "store_ok st"
  shows "map msg_id (inbox_log st) = map fst (in_index st)"
  unfolding inbox_log_def
  by (rule read_entries_ids) (use assms in \<open>auto simp: store_ok_def box_ok_def\<close>)

lemma log_ascending:
  assumes "store_ok st"
  shows "sorted_wrt (<) (map msg_id (inbox_log st))" "\<forall>m \<in> set (inbox_log st). msg_id m < store_next st"
proof -
  show "sorted_wrt (<) (map msg_id (inbox_log st))"
    unfolding log_ids [OF assms] using assms unfolding store_ok_def box_ok_def by blast
  have "x < store_next st" if "x \<in> set (map fst (in_index st))" for x
    using that assms by (auto simp: store_ok_def)
  then show "\<forall>m \<in> set (inbox_log st). msg_id m < store_next st"
    unfolding log_ids [OF assms, symmetric] by simp
qed

lemma replay_after_log:
  assumes "store_ok st"
  shows "replay_after st a b = last_n MAX_REPLAY (filter (\<lambda>m. a < msg_id m \<and> msg_id m < b) (inbox_log st))"
proof -
  have named: "\<exists>m. map_of (inbox (store_disk st)) name = Some (Some m) \<and> msg_id m = i"
    if "(i, name) \<in> set (in_index st)" for i name
    using that assms by (auto simp: store_ok_def box_ok_def)
  let ?es = "filter (\<lambda>e. a < fst e \<and> fst e < b) (in_index st)"
  have "read_entries (inbox (store_disk st)) (last_n MAX_REPLAY ?es)
      = last_n MAX_REPLAY (read_entries (inbox (store_disk st)) ?es)"
    by (rule read_entries_last_n [where ident = msg_id]) (auto intro: named)
  also have "read_entries (inbox (store_disk st)) ?es
      = filter (\<lambda>m. a < msg_id m \<and> msg_id m < b) (inbox_log st)"
    unfolding inbox_log_def by (rule read_entries_filter [where P = "\<lambda>i. a < i \<and> i < b"]) (rule named)
  finally show ?thesis by (simp add: replay_after_def)
qed

section \<open>The store as a message log\<close>

definition save_next :: "store \<Rightarrow> published \<Rightarrow> store" where
  "save_next st m = snd (save_inbound 6 st m (store_next st + 1))"

interpretation sl: message_log store_ok inbox_log msg_id store_next save_next replay_after MAX_REPLAY
proof
  fix s :: store and m :: published
  assume a: "store_ok s" "msg_id m = store_next s"
  show "store_ok (save_next s m)" "inbox_log (save_next s m) = inbox_log s @ [m]"
    "store_next (save_next s m) = store_next s + 1"
    using save_inbound_ok [OF a] save_inbound_log [OF a] by (simp_all add: save_next_def)
next
  fix s :: store and m :: published
  assume "store_ok s" "m \<in> set (inbox_log s)"
  then show "msg_id m < store_next s" using log_ascending(2) by blast
qed (fact log_ascending(1), fact replay_after_log)

section \<open>History pages\<close>

lemma history_inbox_log:
  assumes "store_ok st"
  shows "rev (history_inbox st before limit) =
    last_n (nat (max 1 (min limit 200)))
      (filter (\<lambda>m. case before of None \<Rightarrow> True | Some b \<Rightarrow> msg_id m < b) (inbox_log st))"
proof -
  let ?d = "inbox (store_disk st)"
  have named: "\<exists>m. map_of ?d name = Some (Some m) \<and> msg_id m = i"
    if "(i, name) \<in> set (in_index st)" for i name
    using that assms by (auto simp: store_ok_def box_ok_def)
  have rev: "read_entries ?d (rev es) = rev (read_entries ?d es)" for es
    by (induction es) (auto split: option.splits)
  let ?P = "\<lambda>i. case before of None \<Rightarrow> True | Some b \<Rightarrow> i < b"
  let ?es = "filter (\<lambda>e. ?P (fst e)) (in_index st)"
  have "read_entries ?d ?es = filter (\<lambda>m. ?P (msg_id m)) (inbox_log st)"
    unfolding inbox_log_def by (rule read_entries_filter) (rule named)
  moreover have "read_entries ?d (last_n n ?es) = last_n n (read_entries ?d ?es)" for n
    by (rule read_entries_last_n [where ident = msg_id]) (auto intro: named)
  ultimately show ?thesis by (simp add: history_inbox_def history_entries_def rev)
qed

section \<open>Properties\<close>

text \<open>C4. Restart: the messages saved since a reader's cursor (at most 500 of them) are all
  replayed to it, in order and once, after the server was restarted from the disk, and the
  stream keeps its identity and its counter.\<close>

theorem store_replay_across_restart:
  fixes fresh :: pystr and ms :: "published list"
  assumes "store_ok st" "length ms \<le> 500"
    and "map msg_id ms = [store_next st..store_next st + int (length ms) - 1]"
  defines "st' \<equiv> open_store fresh (store_disk (fold (\<lambda>m s. save_next s m) ms st))"
  shows "store_stream st' = store_stream st \<and> store_next st' = store_next st + int (length ms)
    \<and> inbox_log st' = inbox_log st @ ms
    \<and> replay_after st' (store_next st - 1) (store_next st') = ms"
proof -
  note all = sl.save_all [OF assms(1,3)]
  then have st': "\<exists>x. st' = (fold (\<lambda>m s. save_next s m) ms st)\<lparr>out_index := x\<rparr>"
    unfolding st'_def using reopen_same by blast
  have "store_stream (save_next s m) = store_stream s" for s m
    by (simp add: save_next_def save_inbound_def Let_def)
  then have "store_stream (fold (\<lambda>m s. save_next s m) ms st) = store_stream st"
    by (induction ms arbitrary: st) auto
  with all sl.replay_since [OF assms(1,3)] assms(2) st' show ?thesis
    by (auto simp: MAX_REPLAY_def)
qed

definition example_message :: "int \<Rightarrow> published" where
  "example_message n = \<lparr>in_sender = str_of ''+15550100'', in_text = str_of ''hi'',
     in_scts = str_of ''2026-01-02T13:14:15+01:00'', in_partial = False,
     received_at = str_of ''2026-01-02T13:14:20+01:00'', msg_hash = str_of ''ab'', msg_id = n\<rparr>"

lemma example_message_id [simp]: "msg_id (example_message n) = n"
  by (simp add: example_message_def)

theorem store_replay_across_restart_witness:
  "replay_after (open_store [] (store_disk (fold (\<lambda>m s. save_next s m)
      [example_message 1, example_message 2] (open_store [97] empty_disk)))) 0 3
    = [example_message 1, example_message 2]"
proof -
  have n: "store_next (open_store [97] empty_disk) = 1"
    by (simp add: open_store_def load_stream_def empty_disk_def)
  show ?thesis
    using store_replay_across_restart [OF open_empty_ok [of "[97]"],
        of "[example_message 1, example_message 2]" "[]"]
    by (auto simp: n upto_rec1)
qed

text \<open>C5. Crash: whatever prefix of the file operations of \<open>save_inbound\<close> reached the disk,
  a restart finds the same stream, all earlier messages, the new one exactly when its rename
  was done, and every index entry readable.  The counter only advances with the last
  operation: a crash between the two renames leaves a message on disk whose id is the next
  one to be given out.\<close>

theorem store_crash_consistent:
  fixes fresh :: pystr and k :: nat
  assumes "store_ok st" "msg_id m = store_next st"
  defines "st' \<equiv> open_store fresh (store_disk (snd (save_inbound k st m (store_next st + 1))))"
  shows "store_stream st' = store_stream st
    \<and> inbox_log st' = inbox_log st @ (if 3 \<le> k then [m] else [])
    \<and> store_next st' = (if 6 \<le> k then store_next st + 1 else store_next st)
    \<and> box_ok msg_id (inbox (store_disk st')) (in_index st')"
  using crash_restart [OF assms(1,2), of fresh k] by (simp add: st'_def)

theorem store_crash_consistent_witness:
  "inbox_log (open_store [] (store_disk (snd (save_inbound 4 (open_store [97] empty_disk)
      (example_message 1) (store_next (open_store [97] empty_disk) + 1)))))
    = inbox_log (open_store [97] empty_disk) @ [example_message 1]"
  using store_crash_consistent [OF open_empty_ok [of "[97]"], of "example_message 1" "[]" 4]
  by (simp add: open_store_def load_stream_def empty_disk_def)

text \<open>C9. History: a page holds at most 200 messages (at least one slot, whatever limit the
  request names), newest first without repetition, all older than \<open>before\<close>, and they are
  the newest such messages of the log.\<close>

theorem history_page:
  fixes before :: "int option" and limit :: int
  assumes "store_ok st"
  defines "page \<equiv> history_inbox st before limit"
    and "older \<equiv> filter (\<lambda>m. case before of None \<Rightarrow> True | Some b \<Rightarrow> msg_id m < b) (inbox_log st)"
  shows "length page = min (nat (max 1 (min limit 200))) (length older) \<and> length page \<le> 200
    \<and> sorted_wrt (>) (map msg_id page) \<and> (\<exists>rest. older = rest @ rev page)"
proof -
  have p: "rev page = last_n (nat (max 1 (min limit 200))) older"
    unfolding page_def older_def by (rule history_inbox_log [OF assms(1)])
  have len: "length page = min (nat (max 1 (min limit 200))) (length older)"
    using arg_cong [OF p, of length] by simp
  have "sorted_wrt (<) (map msg_id older)"
    using log_ascending(1) [OF assms(1)] by (simp add: older_def sorted_wrt_map sorted_wrt_filter)
  then have "sorted_wrt (<) (map msg_id (rev page))"
    unfolding p by (simp add: sorted_wrt_map sorted_wrt_last_n)
  then have "sorted_wrt (>) (map msg_id page)"
    by (simp add: rev_map [symmetric] sorted_wrt_rev)
  moreover have "older = take (length older - nat (max 1 (min limit 200))) older @ rev page"
    unfolding p last_n_def by simp
  ultimately show ?thesis using len by auto
qed

theorem history_page_witness:
  "length (history_inbox (fold (\<lambda>m s. save_next s m) [example_message 1, example_message 2]
      (open_store [97] empty_disk)) (Some 2) 50) \<le> 200"
proof -
  have "store_ok (fold (\<lambda>m s. save_next s m) [example_message 1, example_message 2]
      (open_store [97] empty_disk))"
    using sl.save_all [OF open_empty_ok [of "[97]"], of "[example_message 1, example_message 2]"]
    by (simp add: upto_rec1 open_store_def load_stream_def empty_disk_def)
  from history_page [OF this] show ?thesis by blast
qed

end
