(* ===== verification/Hub.thy ===== *)
theory Hub
  imports File_Store
begin

text \<open>
  The broadcast hub, \<open>server/gtg_server/hub.py\<close>: bounded subscriber queues with a gap
  marker, the replay ring, the pending queue of a server without a file store, and the
  choice of what a new subscriber is given.  A subscriber object is named by a number, the
  set of subscribers is an association list, and the health payload of a health event is
  a type parameter.
\<close>

section \<open>Subscribers\<close>

datatype 'h event =
    MessageEv published
  | GapEv
  | HealthEv 'h

record 'h subscriber =
  sub_queue :: "'h event list"
  gapped :: bool

definition QUEUE_MAX :: nat where "QUEUE_MAX = 500"

definition new_subscriber :: "'h subscriber" where
  "new_subscriber = \<lparr>sub_queue = [], gapped = False\<rparr>"

definition offer :: "'h event \<Rightarrow> 'h subscriber \<Rightarrow> bool \<times> 'h subscriber" where
  "offer ev sub =
     (if length (sub_queue sub) < QUEUE_MAX then (True, sub\<lparr>sub_queue := sub_queue sub @ [ev]\<rparr>)
      else if \<not> gapped sub then
        (let q = tl (sub_queue sub)
         in (False, sub\<lparr>gapped := True,
              sub_queue := (if length q < QUEUE_MAX then q @ [GapEv] else q)\<rparr>))
      else (False, sub))"

section \<open>The hub\<close>

record 'h hub =
  ring_size :: nat
  ring :: "published list"
  subs :: "(nat \<times> 'h subscriber) list"
  next_sub :: nat
  hub_store :: "store option"
  pending :: "(int \<times> published \<times> int list) list"
  stream_id :: pystr
  next_id :: int

text \<open>\<open>Hub(ring_size, store)\<close>; \<open>fresh\<close> is the \<open>uuid4\<close> of a hub without a store.\<close>

definition new_hub :: "nat \<Rightarrow> pystr \<Rightarrow> store option \<Rightarrow> 'h hub" where
  "new_hub n fresh st =
     \<lparr>ring_size = n, ring = [], subs = [], next_sub = 0, hub_store = st, pending = [],
      stream_id = (case st of Some s \<Rightarrow> store_stream s | None \<Rightarrow> fresh),
      next_id = (case st of Some s \<Rightarrow> store_next s | None \<Rightarrow> 1)\<rparr>"

definition offer_all :: "'h event \<Rightarrow> (nat \<times> 'h subscriber) list \<Rightarrow> (nat \<times> 'h subscriber) list" where
  "offer_all ev ss = map (\<lambda>(i, s). (i, snd (offer ev s))) ss"

text \<open>\<open>publish\<close>; \<open>k\<close> is how many file operations of the store succeed (six when the disk
  works).  The counter advances even when the store raises.\<close>

definition with_id :: "stamped \<Rightarrow> int \<Rightarrow> published" where
  "with_id m n = stamped.extend m (published.fields n)"

definition publish :: "nat \<Rightarrow> 'h hub \<Rightarrow> stamped \<Rightarrow> int list \<Rightarrow> (exn + published) \<times> 'h hub" where
  "publish k hub m modem_indices =
     (let msg = with_id m (next_id hub);
          hub1 = hub\<lparr>next_id := next_id hub + 1\<rparr>;
          (res, hub2) =
            (case hub_store hub1 of
               Some st \<Rightarrow> (case save_inbound k st msg (next_id hub1) of
                   (r, st') \<Rightarrow> (r, hub1\<lparr>hub_store := Some st'\<rparr>))
             | None \<Rightarrow> (Inr (), hub1\<lparr>pending := AList.update (msg_id msg) (msg, modem_indices) (pending hub1)\<rparr>))
      in (case res of
            Inl e \<Rightarrow> (Inl e, hub2)
          | Inr _ \<Rightarrow> (Inr msg,
              hub2\<lparr>ring := last_n (ring_size hub2) (ring hub2 @ [msg]),
                   subs := offer_all (MessageEv msg) (subs hub2)\<rparr>)))"

text \<open>\<open>confirm_delivered\<close>: the modem indices \<open>on_deliverable\<close> is called with, if it is.\<close>

definition confirm_delivered :: "int \<Rightarrow> 'h hub \<Rightarrow> int list option \<times> 'h hub" where
  "confirm_delivered i hub =
     (map_option snd (map_of (pending hub) i), hub\<lparr>pending := AList.delete i (pending hub)\<rparr>)"

definition broadcast :: "'h event \<Rightarrow> 'h hub \<Rightarrow> 'h hub" where
  "broadcast ev hub = hub\<lparr>subs := offer_all ev (subs hub)\<rparr>"

definition valid_cursor :: "'h hub \<Rightarrow> int option \<Rightarrow> pystr option \<Rightarrow> bool" where
  "valid_cursor hub after stream \<longleftrightarrow>
     (case after of None \<Rightarrow> False
      | Some a \<Rightarrow> stream = Some (stream_id hub) \<and> 0 \<le> a \<and> a < next_id hub)"

definition cursor_replay :: "'h hub \<Rightarrow> int \<Rightarrow> published list" where
  "cursor_replay hub a =
     (let oldest = (case ring hub of [] \<Rightarrow> next_id hub | _ \<Rightarrow> Min (set (map msg_id (ring hub))));
          stored = (case hub_store hub of
              Some st \<Rightarrow> if a < oldest - 1 then replay_after st a oldest else []
            | None \<Rightarrow> [])
      in stored @ filter (\<lambda>m. msg_id m > a) (ring hub))"

definition replay_list :: "'h hub \<Rightarrow> int option \<Rightarrow> pystr option \<Rightarrow> published list" where
  "replay_list hub after stream =
     (let replay = (if valid_cursor hub after stream then cursor_replay hub (the after) else []);
          ids = set (map msg_id replay);
          waiting = sort_key msg_id (map (\<lambda>(_, m, _). m) (pending hub))
      in sort_key msg_id (replay @ filter (\<lambda>m. msg_id m \<notin> ids) waiting))"

definition subscribe :: "int option \<Rightarrow> pystr option \<Rightarrow> 'h hub \<Rightarrow> nat \<times> 'h hub" where
  "subscribe after stream hub =
     (let sub = fold (\<lambda>m s. snd (offer (MessageEv m) s)) (replay_list hub after stream) new_subscriber
      in (next_sub hub,
          hub\<lparr>subs := subs hub @ [(next_sub hub, sub)], next_sub := next_sub hub + 1\<rparr>))"

definition unsubscribe :: "nat \<Rightarrow> 'h hub \<Rightarrow> 'h hub" where
  "unsubscribe i hub = hub\<lparr>subs := AList.delete i (subs hub)\<rparr>"

record hub_stats =
  st_subscribers :: nat
  st_pending :: nat
  st_ring :: nat
  st_stream :: pystr
  st_next :: int

definition stats :: "'h hub \<Rightarrow> hub_stats" where
  "stats hub = \<lparr>st_subscribers = length (subs hub), st_pending = length (pending hub),
     st_ring = length (ring hub), st_stream = stream_id hub, st_next = next_id hub\<rparr>"

section \<open>Queues\<close>

lemma offer_room:
  "length (sub_queue s) < QUEUE_MAX \<Longrightarrow> offer ev s = (True, s\<lparr>sub_queue := sub_queue s @ [ev]\<rparr>)"
  by (simp add: offer_def)

lemma offer_bound: "length (sub_queue s) \<le> QUEUE_MAX \<Longrightarrow> length (sub_queue (snd (offer ev s))) \<le> QUEUE_MAX"
  by (auto simp: offer_def Let_def QUEUE_MAX_def)

lemma offer_events: "set (sub_queue (snd (offer ev s))) \<subseteq> insert ev (insert GapEv (set (sub_queue s)))"
  by (cases "sub_queue s") (auto simp: offer_def Let_def)

lemma offer_fold_room:
  "length (sub_queue s) + length ms \<le> QUEUE_MAX \<Longrightarrow>
     fold (\<lambda>m s. snd (offer (MessageEv m) s)) ms s = s\<lparr>sub_queue := sub_queue s @ map MessageEv ms\<rparr>"
  by (induction ms arbitrary: s) (simp_all add: offer_room)

lemma offer_fold_bound:
  "length (sub_queue s) \<le> QUEUE_MAX \<Longrightarrow>
     length (sub_queue (fold (\<lambda>m s. snd (offer (MessageEv m) s)) ms s)) \<le> QUEUE_MAX"
  by (induction ms arbitrary: s) (simp_all add: offer_bound)

lemma offer_fold_events:
  "set (sub_queue (fold (\<lambda>m s. snd (offer (MessageEv m) s)) ms s))
     \<subseteq> MessageEv ` set ms \<union> insert GapEv (set (sub_queue s))"
proof (induction ms arbitrary: s)
  case Nil
  then show ?case by simp blast
next
  case (Cons m ms)
  show ?case using Cons.IH [of "snd (offer (MessageEv m) s)"] offer_events [of "MessageEv m" s]
    by fastforce
qed

section \<open>The hub's invariant\<close>

text \<open>The counter is above every id; the ring ascends and is the end of what was published
  (with a store: the end of its log); pending entries are keyed by their message's id, and
  there are none with a store; no queue is over its bound.\<close>

definition hub_ok :: "'h hub \<Rightarrow> bool" where
  "hub_ok hub \<longleftrightarrow> 1 \<le> next_id hub
     \<and> sorted_wrt (<) (map msg_id (ring hub)) \<and> length (ring hub) \<le> ring_size hub
     \<and> (\<forall>m \<in> set (ring hub). msg_id m < next_id hub)
     \<and> distinct (map fst (pending hub))
     \<and> (\<forall>(i, m, _) \<in> set (pending hub). msg_id m = i \<and> i < next_id hub)
     \<and> (\<forall>m \<in> set (ring hub). \<forall>(i, m', _) \<in> set (pending hub). msg_id m = i \<longrightarrow> m = m')
     \<and> distinct (map fst (subs hub)) \<and> (\<forall>(i, s) \<in> set (subs hub).
           i < next_sub hub \<and> length (sub_queue s) \<le> QUEUE_MAX)
     \<and> (case hub_store hub of None \<Rightarrow> True
        | Some st \<Rightarrow> store_ok st \<and> store_next st = next_id hub \<and> store_stream st = stream_id hub
            \<and> pending hub = [] \<and> (\<exists>old. inbox_log st = old @ ring hub))"

lemma new_hub_ok:
  "(case st of None \<Rightarrow> True | Some s \<Rightarrow> store_ok s \<and> 1 \<le> store_next s) \<Longrightarrow> hub_ok (new_hub n fresh st)"
  by (cases st) (simp_all add: hub_ok_def new_hub_def)

lemma offer_all_ids [simp]: "map fst (offer_all ev ss) = map fst ss"
  by (simp add: offer_all_def case_prod_beta)

lemma offer_all_bound:
  "\<forall>(i, s) \<in> set ss. i < n \<and> length (sub_queue s) \<le> QUEUE_MAX \<Longrightarrow>
     \<forall>(i, s) \<in> set (offer_all ev ss). i < n \<and> length (sub_queue s) \<le> QUEUE_MAX"
  by (auto simp: offer_all_def offer_bound)

lemma msg_id_with_id [simp]: "msg_id (with_id m n) = n"
  by (simp add: with_id_def stamped.extend_def published.fields_def)

lemma hub_okD:
  assumes "hub_ok hub"
  shows "1 \<le> next_id hub" "sorted_wrt (<) (map msg_id (ring hub))" "length (ring hub) \<le> ring_size hub"
    "m \<in> set (ring hub) \<Longrightarrow> msg_id m < next_id hub"
    "distinct (map fst (pending hub))"
    "(i, m, x) \<in> set (pending hub) \<Longrightarrow> msg_id m = i \<and> i < next_id hub"
    "m \<in> set (ring hub) \<Longrightarrow> (msg_id m, m', x) \<in> set (pending hub) \<Longrightarrow> m = m'"
    "distinct (map fst (subs hub))"
    "(j, s) \<in> set (subs hub) \<Longrightarrow> j < next_sub hub \<and> length (sub_queue s) \<le> QUEUE_MAX"
    "hub_store hub = Some st \<Longrightarrow> store_ok st \<and> store_next st = next_id hub
       \<and> store_stream st = stream_id hub \<and> pending hub = [] \<and> (\<exists>old. inbox_log st = old @ ring hub)"
  using assms by (fastforce simp: hub_ok_def)+

lemma ring_append_ok:
  assumes "sorted_wrt (<) (map msg_id r)" "\<forall>m \<in> set r. msg_id m < n" "msg_id msg = n"
  shows "sorted_wrt (<) (map msg_id (last_n k (r @ [msg])))" "\<forall>m \<in> set (last_n k (r @ [msg])). msg_id m < n + 1"
    "length (last_n k (r @ [msg])) \<le> k"
proof -
  have "sorted_wrt (<) (map msg_id (r @ [msg]))" using assms by (auto simp: sorted_wrt_append)
  then show "sorted_wrt (<) (map msg_id (last_n k (r @ [msg])))" by (simp only: map_last_n sorted_wrt_last_n)
  show "\<forall>m \<in> set (last_n k (r @ [msg])). msg_id m < n + 1"
  proof
    fix m assume "m \<in> set (last_n k (r @ [msg]))"
    then have "m \<in> set (r @ [msg])" using set_last_n by fast
    with assms show "msg_id m < n + 1" by auto
  qed
qed simp

lemma last_n_append_suffix: "\<exists>old. log @ [m] = old @ last_n k (r @ [m])" if "log = old' @ r" for log
proof -
  have "r @ [m] = take (length (r @ [m]) - k) (r @ [m]) @ last_n k (r @ [m])"
    by (simp add: last_n_def del: append_take_drop_id take_append drop_append)
       (rule append_take_drop_id [symmetric])
  with that have "log @ [m] = (old' @ take (length (r @ [m]) - k) (r @ [m])) @ last_n k (r @ [m])"
    by simp
  then show ?thesis by blast
qed

lemma publish_no_store:
  "hub_store hub = None \<Longrightarrow> publish k hub m ix =
     (Inr (with_id m (next_id hub)), hub\<lparr>next_id := next_id hub + 1,
        pending := AList.update (next_id hub) (with_id m (next_id hub), ix) (pending hub),
        ring := last_n (ring_size hub) (ring hub @ [with_id m (next_id hub)]),
        subs := offer_all (MessageEv (with_id m (next_id hub))) (subs hub)\<rparr>)"
  by (simp add: publish_def Let_def)

lemma publish_store:
  "hub_store hub = Some st \<Longrightarrow> publish k hub m ix =
     (let msg = with_id m (next_id hub); hub1 = hub\<lparr>next_id := next_id hub + 1,
          hub_store := Some (snd (save_inbound k st msg (next_id hub + 1)))\<rparr>
      in case fst (save_inbound k st msg (next_id hub + 1)) of
           Inl e \<Rightarrow> (Inl e, hub1)
         | Inr _ \<Rightarrow> (Inr msg, hub1\<lparr>ring := last_n (ring_size hub) (ring hub @ [msg]),
             subs := offer_all (MessageEv msg) (subs hub)\<rparr>))"
  by (simp add: publish_def Let_def split: sum.split prod.split)

lemma publish_ok:
  assumes "hub_ok hub"
  shows "hub_ok (snd (publish 6 hub m ix))"
    "fst (publish 6 hub m ix) = Inr (with_id m (next_id hub))"
proof -
  let ?msg = "with_id m (next_id hub)"
  note h = hub_okD [OF assms]
  have r: "\<forall>m \<in> set (ring hub). msg_id m < next_id hub" using h(4) by blast
  note ring = ring_append_ok [OF h(2) r msg_id_with_id [of m], where k = "ring_size hub"]
  have subs: "\<forall>(i, s) \<in> set (offer_all (MessageEv ?msg) (subs hub)). i < next_sub hub \<and> length (sub_queue s) \<le> QUEUE_MAX"
    using h(9) by (intro offer_all_bound) blast
  have inr: "x \<in> set (ring hub) \<or> x = ?msg" if "x \<in> set (last_n (ring_size hub) (ring hub @ [?msg]))" for x
    using that set_last_n [of "ring_size hub" "ring hub @ [?msg]"] by auto
  have "hub_ok (snd (publish 6 hub m ix)) \<and> fst (publish 6 hub m ix) = Inr ?msg"
  proof (cases "hub_store hub")
    case None
    let ?p = "AList.update (next_id hub) (?msg, ix) (pending hub)"
    have p: "msg_id x = i \<and> i < next_id hub + 1" if "(i, x, y) \<in> set ?p" for i x y
      using that set_update_subset [of "next_id hub" "(?msg, ix)" "pending hub"] h(6) by fastforce
    have same: "z = x" if "(msg_id z, x, y) \<in> set ?p" "z \<in> set (last_n (ring_size hub) (ring hub @ [?msg]))" for x y z
    proof -
      from that(1) consider "msg_id z = next_id hub" "x = ?msg" | "(msg_id z, x, y) \<in> set (pending hub)" "msg_id z < next_id hub"
        using set_update_subset [of "next_id hub" "(?msg, ix)" "pending hub"] h(6) by fastforce
      then show ?thesis
        using inr [OF that(2)] h(4) h(7) by cases force+
    qed
    show ?thesis
      using None h(1,5,8) ring subs p same
      by (auto simp: publish_no_store hub_ok_def AList.distinct_update)
  next
    case (Some st)
    note s = h(10) [OF Some]
    have id: "msg_id ?msg = store_next st" using s by simp
    from s obtain old where "inbox_log st = old @ ring hub" by blast
    from last_n_append_suffix [OF this, of ?msg "ring_size hub"]
    obtain old' where "inbox_log st @ [?msg] = old' @ last_n (ring_size hub) (ring hub @ [?msg])" by blast
    then have ex: "\<exists>old. inbox_log st @ [?msg] = old @ last_n (ring_size hub) (ring hub @ [?msg])" by blast
    have st: "store_ok st" "store_next st = next_id hub" "store_stream st = stream_id hub" "pending hub = []"
      using s by simp_all
    note save = save_inbound_ok [OF st(1) id] save_inbound_log [OF st(1) id]
    show ?thesis
      using ex h(1,8) ring subs save [unfolded st(2,3)] st
      by (simp add: publish_store [OF Some] hub_ok_def Let_def)
  qed
  then show "hub_ok (snd (publish 6 hub m ix))" "fst (publish 6 hub m ix) = Inr ?msg" by blast+
qed

lemma confirm_ok: "hub_ok hub \<Longrightarrow> hub_ok (snd (confirm_delivered i hub))"
  by (cases "hub_store hub")
    (auto simp: hub_ok_def confirm_delivered_def AList.delete_eq distinct_map_filter)

lemma broadcast_ok: "hub_ok hub \<Longrightarrow> hub_ok (broadcast ev hub)"
  using offer_all_bound [of "subs hub" "next_sub hub" ev]
  by (cases "hub_store hub") (simp_all add: hub_ok_def broadcast_def)

lemma unsubscribe_ok: "hub_ok hub \<Longrightarrow> hub_ok (unsubscribe i hub)"
  by (cases "hub_store hub")
    (auto simp: hub_ok_def unsubscribe_def AList.delete_eq distinct_map_filter)

lemma subscribe_ok:
  assumes "hub_ok hub"
  shows "hub_ok (snd (subscribe after stream hub))"
proof -
  let ?s = "fold (\<lambda>m s. snd (offer (MessageEv m) s)) (replay_list hub after stream) new_subscriber"
  have b: "length (sub_queue ?s) \<le> QUEUE_MAX"
    by (rule offer_fold_bound) (simp add: new_subscriber_def)
  have "next_sub hub \<notin> set (map fst (subs hub))" using hub_okD(9) [OF assms] by force
  moreover have "\<forall>(i, s) \<in> set (subs hub @ [(next_sub hub, ?s)]). i < next_sub hub + 1 \<and> length (sub_queue s) \<le> QUEUE_MAX"
    using hub_okD(9) [OF assms] b by fastforce
  ultimately show ?thesis
    using assms by (cases "hub_store hub") (simp_all add: subscribe_def hub_ok_def Let_def)
qed

section \<open>What a new subscriber is given\<close>

definition pending_msgs :: "'h hub \<Rightarrow> published list" where
  "pending_msgs hub = map (\<lambda>(_, m, _). m) (pending hub)"

lemma sorted_key_strict:
  assumes "distinct (map f xs)"
  shows "sorted_wrt (<) (map f (sort_key f xs))"
proof -
  have "mset (map f (sort_key f xs)) = mset (map f xs)" by simp
  then have "distinct (map f (sort_key f xs))" using assms by (metis mset_eq_imp_distinct_iff)
  then show ?thesis by (simp add: strict_sorted_iff)
qed

lemma distinct_ids_filter:
  "sorted_wrt (<) (map msg_id xs) \<Longrightarrow> distinct (map msg_id (filter P xs))"
  by (metis sorted_wrt_filter sorted_wrt_map strict_sorted_iff)

lemma pending_distinct:
  assumes "hub_ok hub"
  shows "distinct (map msg_id (pending_msgs hub))"
proof -
  have "map msg_id (pending_msgs hub) = map fst (pending hub)"
    using hub_okD(6) [OF assms] by (auto simp: pending_msgs_def)
  then show ?thesis using hub_okD(5) [OF assms] by simp
qed

lemma cursor_replay_no_store:
  "hub_store hub = None \<Longrightarrow> cursor_replay hub a = filter (\<lambda>m. msg_id m > a) (ring hub)"
  by (simp add: cursor_replay_def)

lemma Min_ring:
  assumes "sorted_wrt (<) (map msg_id (m # ms))"
  shows "Min (set (map msg_id (m # ms))) = msg_id m"
  using assms by (intro Min_eqI) auto

text \<open>With a store the replay is the part of the log after the cursor, if what has left the
  ring fits the store's replay window.\<close>

lemma cursor_replay_store:
  assumes "hub_ok hub" "hub_store hub = Some st"
    and "length (filter (\<lambda>m. msg_id m > a) (inbox_log st)) \<le> MAX_REPLAY"
  shows "cursor_replay hub a = filter (\<lambda>m. msg_id m > a) (inbox_log st)"
proof -
  from hub_okD(10) [OF assms(1,2)] obtain old where
    s: "store_ok st" "store_next st = next_id hub" and log: "inbox_log st = old @ ring hub" by blast
  note asc = log_ascending [OF s(1)]
  define oldest where "oldest = (case ring hub of [] \<Rightarrow> next_id hub | _ \<Rightarrow> Min (set (map msg_id (ring hub))))"
  have split: "\<forall>m \<in> set old. msg_id m < oldest" "\<forall>m \<in> set (ring hub). oldest \<le> msg_id m"
  proof -
    show "\<forall>m \<in> set old. msg_id m < oldest"
    proof (cases "ring hub")
      case Nil
      then show ?thesis using asc(2) by (simp add: log oldest_def s(2))
    next
      case (Cons m ms)
      then have "oldest = msg_id m"
        using Min_ring [of m ms] hub_okD(2) [OF assms(1)] by (simp add: oldest_def)
      then show ?thesis using asc(1) Cons by (auto simp: log sorted_wrt_append)
    qed
    show "\<forall>m \<in> set (ring hub). oldest \<le> msg_id m"
      by (auto simp: oldest_def split: list.split)
  qed
  have "filter (\<lambda>m. a < msg_id m \<and> msg_id m < oldest) (inbox_log st) = filter (\<lambda>m. msg_id m > a) old"
  proof -
    have "filter (\<lambda>m. a < msg_id m \<and> msg_id m < oldest) old = filter (\<lambda>m. msg_id m > a) old"
      using split(1) by (intro filter_cong) auto
    moreover have "filter (\<lambda>m. a < msg_id m \<and> msg_id m < oldest) (ring hub) = []"
      using split(2) by (auto simp: filter_empty_conv)
    ultimately show ?thesis by (simp add: log)
  qed
  then have "replay_after st a oldest = filter (\<lambda>m. msg_id m > a) old"
    using assms(3) by (simp add: replay_after_log [OF s(1)] last_n_short log)
  moreover have "filter (\<lambda>m. msg_id m > a) old = []" if "\<not> a < oldest - 1"
    using that split(1) by (fastforce simp: filter_empty_conv)
  ultimately show ?thesis
    using assms(2) by (simp add: cursor_replay_def oldest_def [symmetric] log Let_def)
qed

lemma replay_list_store:
  assumes "hub_ok hub" "hub_store hub = Some st"
    and "length (filter (\<lambda>m. msg_id m > a) (inbox_log st)) \<le> MAX_REPLAY"
  shows "replay_list hub (Some a) stream =
    (if valid_cursor hub (Some a) stream then filter (\<lambda>m. msg_id m > a) (inbox_log st) else [])"
proof -
  have s: "store_ok st" "pending hub = []" using hub_okD(10) [OF assms(1,2)] by blast+
  have "sorted (map msg_id (filter (\<lambda>m. msg_id m > a) (inbox_log st)))"
    using log_ascending(1) [OF s(1)]
    by (intro strict_sorted_imp_sorted) (simp add: sorted_wrt_map sorted_wrt_filter)
  then show ?thesis
    using s(2) by (simp add: replay_list_def cursor_replay_store [OF assms] sort_key_id_if_sorted)
qed

lemma replay_list_no_store:
  fixes after :: "int option" and stream :: "pystr option"
  assumes "hub_ok hub" "hub_store hub = None"
  defines "kept \<equiv> if valid_cursor hub after stream then filter (\<lambda>m. msg_id m > the after) (ring hub) else []"
  shows "set (replay_list hub after stream) = set kept \<union> set (pending_msgs hub)"
    "sorted_wrt (<) (map msg_id (replay_list hub after stream))"
proof -
  let ?rest = "filter (\<lambda>m. msg_id m \<notin> set (map msg_id kept)) (sort_key msg_id (pending_msgs hub))"
  have r: "replay_list hub after stream = sort_key msg_id (kept @ ?rest)"
    by (simp add: replay_list_def kept_def cursor_replay_no_store [OF assms(2)] pending_msgs_def Let_def)
  have same: "m = m'" if "m \<in> set kept" "m' \<in> set (pending_msgs hub)" "msg_id m = msg_id m'" for m m'
  proof -
    from that(2) obtain i x where "(i, m', x) \<in> set (pending hub)" by (auto simp: pending_msgs_def)
    moreover have "m \<in> set (ring hub)" using that(1) by (auto simp: kept_def split: if_splits)
    ultimately show ?thesis using hub_okD(6,7) [OF assms(1)] that(3) by metis
  qed
  show "set (replay_list hub after stream) = set kept \<union> set (pending_msgs hub)"
    unfolding r using same by fastforce
  have "distinct (map msg_id kept)"
    using hub_okD(2) [OF assms(1)] by (auto simp: kept_def distinct_ids_filter)
  moreover have "distinct (map msg_id ?rest)"
    by (rule distinct_ids_filter) (rule sorted_key_strict [OF pending_distinct [OF assms(1)]])
  ultimately show "sorted_wrt (<) (map msg_id (replay_list hub after stream))"
    unfolding r by (intro sorted_key_strict) (force simp: image_iff)
qed

end
