(* ===== verification/Delivery.thy ===== *)
theory Delivery
  imports Hub "HOL-Library.Sublist"
begin

text \<open>
  The subscription stream of the server: the loop of \<open>api.py\<close>'s \<open>_subscribe\<close> that takes
  events from a subscriber's queue, writes them to its socket and confirms messages to the
  hub, run together with the hub's other operations.  The runs are a step relation over a
  world that holds the hub and, as history, what was published, what was written to whom,
  and which modem indices were handed to \<open>on_deliverable\<close>.
\<close>

section \<open>The writer loop\<close>

text \<open>One turn of the loop: \<open>sub.queue.get\<close>, the socket write (\<open>ok\<close>: it succeeded), and
  \<open>confirm_delivered\<close> after a message was written; a failed write ends in
  \<open>unsubscribe\<close>.\<close>

definition pop_event :: "nat \<Rightarrow> 'h hub \<Rightarrow> ('h event \<times> 'h hub) option" where
  "pop_event sid hub =
     (case map_of (subs hub) sid of
        None \<Rightarrow> None
      | Some s \<Rightarrow> (case sub_queue s of
            [] \<Rightarrow> None
          | ev # q \<Rightarrow> Some (ev, hub\<lparr>subs := AList.update sid (s\<lparr>sub_queue := q\<rparr>) (subs hub)\<rparr>)))"

definition after_write :: "nat \<Rightarrow> bool \<Rightarrow> 'h event \<Rightarrow> 'h hub \<Rightarrow> int list option \<times> 'h hub" where
  "after_write sid ok ev hub =
     (if \<not> ok then (None, unsubscribe sid hub)
      else (case ev of MessageEv m \<Rightarrow> confirm_delivered (msg_id m) hub | _ \<Rightarrow> (None, hub)))"

section \<open>Runs\<close>

record 'h world =
  w_hub :: "'h hub"
  w_published :: "published list"
  w_sent :: "(nat \<times> 'h event) list"
  w_due :: "nat \<Rightarrow> published list"
  w_hooks :: "(int \<times> int list) list"

definition start_world :: "'h hub \<Rightarrow> 'h world" where
  "start_world hub = \<lparr>w_hub = hub, w_published = [], w_sent = [], w_due = (\<lambda>_. []), w_hooks = []\<rparr>"

definition w_publish :: "stamped \<Rightarrow> int list \<Rightarrow> 'h world \<Rightarrow> 'h world" where
  "w_publish m ix w =
     (let msg = with_id m (next_id (w_hub w))
      in w\<lparr>w_hub := snd (publish 6 (w_hub w) m ix), w_published := w_published w @ [msg],
           w_due := (\<lambda>i. if i \<in> fst ` set (subs (w_hub w)) then w_due w i @ [msg] else w_due w i)\<rparr>)"

definition w_subscribe :: "int option \<Rightarrow> pystr option \<Rightarrow> 'h world \<Rightarrow> 'h world" where
  "w_subscribe after stream w =
     w\<lparr>w_hub := snd (subscribe after stream (w_hub w)),
       w_due := (w_due w)(next_sub (w_hub w) := replay_list (w_hub w) after stream)\<rparr>"

definition w_health :: "'h \<Rightarrow> 'h world \<Rightarrow> 'h world" where
  "w_health h w = w\<lparr>w_hub := broadcast (HealthEv h) (w_hub w)\<rparr>"

definition w_leave :: "nat \<Rightarrow> 'h world \<Rightarrow> 'h world" where
  "w_leave sid w = w\<lparr>w_hub := unsubscribe sid (w_hub w)\<rparr>"

definition w_write :: "nat \<Rightarrow> bool \<Rightarrow> 'h world \<Rightarrow> 'h world" where
  "w_write sid ok w =
     (case pop_event sid (w_hub w) of
        None \<Rightarrow> w
      | Some (ev, hub) \<Rightarrow> (case after_write sid ok ev hub of
          (hook, hub') \<Rightarrow>
            w\<lparr>w_hub := hub', w_sent := (if ok then w_sent w @ [(sid, ev)] else w_sent w),
              w_hooks := (case (hook, ev) of
                  (Some ix, MessageEv m) \<Rightarrow> w_hooks w @ [(msg_id m, ix)] | _ \<Rightarrow> w_hooks w)\<rparr>))"

inductive world_step :: "'h world \<Rightarrow> 'h world \<Rightarrow> bool" where
  Publish: "world_step w (w_publish m ix w)"
| Subscribe: "world_step w (w_subscribe after stream w)"
| Health: "world_step w (w_health h w)"
| Leave: "world_step w (w_leave sid w)"
| Write: "world_step w (w_write sid ok w)"

inductive_cases world_stepE: "world_step w w'"

inductive reachable :: "'h hub \<Rightarrow> 'h world \<Rightarrow> bool" for hub where
  Start: "reachable hub (start_world hub)"
| Step: "reachable hub w \<Longrightarrow> world_step w w' \<Longrightarrow> reachable hub w'"

inductive_cases reachableE: "reachable hub w"

text \<open>The messages in a list of events.\<close>

definition event_msgs :: "'h event list \<Rightarrow> published list" where
  "event_msgs evs = List.map_filter (\<lambda>e. case e of MessageEv m \<Rightarrow> Some m | _ \<Rightarrow> None) evs"

definition sent_to :: "'h world \<Rightarrow> nat \<Rightarrow> published list" where
  "sent_to w sid = event_msgs (map snd (filter (\<lambda>(i, _). i = sid) (w_sent w)))"

lemma event_msgs_simps [simp]:
  "event_msgs [] = []"
  "event_msgs (MessageEv m # es) = m # event_msgs es"
  "event_msgs (GapEv # es) = event_msgs es"
  "event_msgs (HealthEv h # es) = event_msgs es"
  "event_msgs (es @ fs) = event_msgs es @ event_msgs fs"
  by (simp_all add: event_msgs_def List.map_filter_def)

lemma event_msgs_messages [simp]: "event_msgs (map MessageEv ms) = ms"
  by (induction ms) simp_all

lemma subseq_members: "subseq xs ys \<Longrightarrow> set xs \<subseteq> set ys"
  by (rule subsetI, erule (1) list_emb_set) simp

lemma subseq_sorted: "subseq xs ys \<Longrightarrow> sorted_wrt R ys \<Longrightarrow> sorted_wrt R xs"
  by (induction rule: list_emb.induct) (auto dest: subseq_members)

text \<open>What one offer does to the messages of a queue.\<close>

lemma offer_msgs:
  assumes "snd (offer (MessageEv m) s) = s'"
  shows "\<not> gapped s' \<Longrightarrow> \<not> gapped s \<and> event_msgs (sub_queue s') = event_msgs (sub_queue s) @ [m]"
    "subseq (event_msgs (sub_queue s')) (event_msgs (sub_queue s) @ [m])"
proof -
  have t: "subseq (event_msgs (tl q)) (event_msgs q)" for q :: "'a event list"
    by (cases q; cases "hd q") auto
  show "\<not> gapped s' \<Longrightarrow> \<not> gapped s \<and> event_msgs (sub_queue s') = event_msgs (sub_queue s) @ [m]"
    using assms by (auto simp: offer_def Let_def split: if_splits)
  show "subseq (event_msgs (sub_queue s')) (event_msgs (sub_queue s) @ [m])"
    using assms t [of "sub_queue s"] by (auto simp: offer_def Let_def split: if_splits)
qed

lemma offer_health_msgs:
  assumes "snd (offer (HealthEv h) s) = s'"
  shows "\<not> gapped s' \<Longrightarrow> \<not> gapped s \<and> event_msgs (sub_queue s') = event_msgs (sub_queue s)"
    "subseq (event_msgs (sub_queue s')) (event_msgs (sub_queue s))"
proof -
  have t: "subseq (event_msgs (tl q)) (event_msgs q)" for q :: "'a event list"
    by (cases q; cases "hd q") auto
  show "\<not> gapped s' \<Longrightarrow> \<not> gapped s \<and> event_msgs (sub_queue s') = event_msgs (sub_queue s)"
    using assms by (auto simp: offer_def Let_def split: if_splits)
  show "subseq (event_msgs (sub_queue s')) (event_msgs (sub_queue s))"
    using assms t [of "sub_queue s"] by (auto simp: offer_def Let_def split: if_splits)
qed

abbreviation offer_msgs_to :: "published list \<Rightarrow> 'h subscriber \<Rightarrow> 'h subscriber" where
  "offer_msgs_to ms s \<equiv> fold (\<lambda>m s. snd (offer (MessageEv m) s)) ms s"

lemma offer_fold_complete:
  "\<not> gapped (offer_msgs_to ms s) \<Longrightarrow>
     \<not> gapped s \<and> event_msgs (sub_queue (offer_msgs_to ms s)) = event_msgs (sub_queue s) @ ms"
proof (induction ms arbitrary: s)
  case Nil
  then show ?case by simp
next
  case (Cons m ms)
  then show ?case using offer_msgs(1) [OF refl, of m s] by fastforce
qed

lemma offer_fold_subseq:
  "subseq (event_msgs (sub_queue (offer_msgs_to ms s))) (event_msgs (sub_queue s) @ ms)"
proof (induction ms arbitrary: s)
  case Nil
  then show ?case by simp
next
  case (Cons m ms)
  let ?s = "snd (offer (MessageEv m) s)"
  have "subseq (event_msgs (sub_queue ?s) @ ms) ((event_msgs (sub_queue s) @ [m]) @ ms)"
    using offer_msgs(2) [OF refl, of m s] by (rule list_emb_append_mono) simp
  with Cons.IH [of ?s] show ?case by (auto intro: subseq_order.order_trans)
qed

section \<open>Order and completeness of a subscriber's stream\<close>

text \<open>What was written to a subscriber and what waits in its queue is, in order, part of what
  it is due, and all of it as long as the queue never overflowed.\<close>

definition sub_stream_ok :: "int \<Rightarrow> published list \<Rightarrow> published list \<Rightarrow> 'h subscriber \<Rightarrow> bool" where
  "sub_stream_ok n sent due s \<longleftrightarrow>
     subseq (sent @ event_msgs (sub_queue s)) due
     \<and> (\<not> gapped s \<longrightarrow> sent @ event_msgs (sub_queue s) = due)
     \<and> sorted_wrt (<) (map msg_id due) \<and> (\<forall>m \<in> set due. msg_id m < n)"

definition stream_ok :: "'h world \<Rightarrow> bool" where
  "stream_ok w \<longleftrightarrow> hub_ok (w_hub w)
     \<and> (\<forall>(i, s) \<in> set (subs (w_hub w)). sub_stream_ok (next_id (w_hub w)) (sent_to w i) (w_due w i) s)
     \<and> (\<forall>(i, _) \<in> set (w_sent w). i < next_sub (w_hub w))"

lemma replay_list_strict:
  assumes "hub_ok hub"
  shows "sorted_wrt (<) (map msg_id (replay_list hub after stream))"
    "\<forall>m \<in> set (replay_list hub after stream). msg_id m < next_id hub"
proof -
  have "sorted_wrt (<) (map msg_id (replay_list hub after stream))
    \<and> (\<forall>m \<in> set (replay_list hub after stream). msg_id m < next_id hub)"
  proof (cases "hub_store hub")
    case None
    from replay_list_no_store(1) [OF assms None, of after stream]
    have "set (replay_list hub after stream) \<subseteq> set (ring hub) \<union> set (pending_msgs hub)" by auto
    then have "\<forall>m \<in> set (replay_list hub after stream). msg_id m < next_id hub"
      using hub_okD(4,6) [OF assms] by (fastforce simp: pending_msgs_def)
    with replay_list_no_store(2) [OF assms None] show ?thesis by blast
  next
    case (Some st)
    note s = hub_okD(10) [OF assms Some]
    have st: "store_ok st" "store_next st = next_id hub" "pending hub = []" using s by blast+
    from s obtain old where log: "inbox_log st = old @ ring hub" by blast
    define oldest where "oldest = (case ring hub of [] \<Rightarrow> next_id hub | _ \<Rightarrow> Min (set (map msg_id (ring hub))))"
    have ge: "\<forall>m \<in> set (ring hub). oldest \<le> msg_id m" by (auto simp: oldest_def split: list.split)
    have sub: "set (cursor_replay hub a) \<subseteq> set (inbox_log st)" for a
      using sl.replay_bounds(2) [OF st(1)] Some log by (auto simp: cursor_replay_def Let_def)
    have lt: "\<forall>m \<in> set (replay_after st a oldest). msg_id m < oldest" for a
      using set_last_n by (fastforce simp: replay_after_log [OF st(1)])
    have "distinct (map msg_id (cursor_replay hub a))" for a
    proof -
      have "distinct (map msg_id (replay_after st a oldest))"
        using sl.replay_bounds(3) [OF st(1)] strict_sorted_iff by blast
      moreover have "distinct (map msg_id (filter (\<lambda>m. msg_id m > a) (ring hub)))"
        by (rule distinct_ids_filter) (rule hub_okD(2) [OF assms])
      ultimately show ?thesis
        using ge lt [of a] Some by (force simp: cursor_replay_def Let_def oldest_def [symmetric])
    qed
    then have "distinct (map msg_id (if valid_cursor hub after stream then cursor_replay hub (the after) else []))"
      by simp
    from sorted_key_strict [OF this] show ?thesis
      using sub log_ascending(2) [OF st(1)] st(2,3)
      by (auto simp: replay_list_def Let_def)
  qed
  then show "sorted_wrt (<) (map msg_id (replay_list hub after stream))"
    "\<forall>m \<in> set (replay_list hub after stream). msg_id m < next_id hub" by blast+
qed

lemma sub_stream_publish:
  assumes "sub_stream_ok n sent due s" "msg_id m = n"
  shows "sub_stream_ok (n + 1) sent (due @ [m]) (snd (offer (MessageEv m) s))"
proof -
  note o = offer_msgs [OF refl, of m s]
  have "subseq ((sent @ event_msgs (sub_queue s)) @ [m]) (due @ [m])"
    using assms(1) by (intro list_emb_append_mono) (auto simp: sub_stream_ok_def)
  moreover have "subseq (sent @ event_msgs (sub_queue (snd (offer (MessageEv m) s)))) (sent @ event_msgs (sub_queue s) @ [m])"
    using o(2) by (intro list_emb_append_mono) auto
  ultimately have "subseq (sent @ event_msgs (sub_queue (snd (offer (MessageEv m) s)))) (due @ [m])"
    using subseq_order.order_trans by fastforce
  then show ?thesis
    using assms o(1) by (auto simp: sub_stream_ok_def sorted_wrt_append)
qed

lemma sub_stream_health:
  assumes "sub_stream_ok n sent due s"
  shows "sub_stream_ok n sent due (snd (offer (HealthEv h) s))"
proof -
  note o = offer_health_msgs [OF refl, of h s]
  have "subseq (sent @ event_msgs (sub_queue (snd (offer (HealthEv h) s)))) (sent @ event_msgs (sub_queue s))"
    using o(2) by (intro list_emb_append_mono) auto
  then show ?thesis
    using assms o(1) subseq_order.order_trans by (fastforce simp: sub_stream_ok_def)
qed

lemma publish_fields:
  assumes "hub_ok hub"
  shows "subs (snd (publish 6 hub m ix)) = offer_all (MessageEv (with_id m (next_id hub))) (subs hub)"
    "next_sub (snd (publish 6 hub m ix)) = next_sub hub"
    "next_id (snd (publish 6 hub m ix)) = next_id hub + 1"
    "hub_store hub = None \<Longrightarrow> hub_store (snd (publish 6 hub m ix)) = None"
proof -
  have "subs (snd (publish 6 hub m ix)) = offer_all (MessageEv (with_id m (next_id hub))) (subs hub)
    \<and> next_sub (snd (publish 6 hub m ix)) = next_sub hub \<and> next_id (snd (publish 6 hub m ix)) = next_id hub + 1
    \<and> (hub_store hub = None \<longrightarrow> hub_store (snd (publish 6 hub m ix)) = None)"
  proof (cases "hub_store hub")
    case None
    then show ?thesis by (simp add: publish_no_store)
  next
    case (Some st)
    have "fst (save_inbound 6 st msg n) = Inr ()" for msg n by (simp add: save_inbound_def Let_def)
    then show ?thesis by (simp add: publish_store [OF Some] Let_def Some)
  qed
  then show "subs (snd (publish 6 hub m ix)) = offer_all (MessageEv (with_id m (next_id hub))) (subs hub)"
    "next_sub (snd (publish 6 hub m ix)) = next_sub hub"
    "next_id (snd (publish 6 hub m ix)) = next_id hub + 1"
    "hub_store hub = None \<Longrightarrow> hub_store (snd (publish 6 hub m ix)) = None" by blast+
qed

lemma sent_to_hub [simp]:
  "sent_to (w\<lparr>w_hub := h\<rparr>) = sent_to w"
  "sent_to (w\<lparr>w_due := d\<rparr>) = sent_to w"
  "sent_to (w\<lparr>w_published := p\<rparr>) = sent_to w"
  "sent_to (w\<lparr>w_hooks := k\<rparr>) = sent_to w"
  by (simp_all add: sent_to_def fun_eq_iff)

lemma stream_okI:
  assumes "hub_ok (w_hub w)"
    and "\<And>i s. (i, s) \<in> set (subs (w_hub w)) \<Longrightarrow> sub_stream_ok (next_id (w_hub w)) (sent_to w i) (w_due w i) s"
    and "\<And>i e. (i, e) \<in> set (w_sent w) \<Longrightarrow> i < next_sub (w_hub w)"
  shows "stream_ok w"
  using assms by (auto simp: stream_ok_def)

lemma stream_okD:
  assumes "stream_ok w"
  shows "hub_ok (w_hub w)"
    "(i, s) \<in> set (subs (w_hub w)) \<Longrightarrow> sub_stream_ok (next_id (w_hub w)) (sent_to w i) (w_due w i) s"
    "(i, e) \<in> set (w_sent w) \<Longrightarrow> i < next_sub (w_hub w)"
  using assms by (auto simp: stream_ok_def)

lemma in_offer_all:
  assumes "(i, s') \<in> set (offer_all ev ss)"
  obtains s where "(i, s) \<in> set ss" "s' = snd (offer ev s)"
  using assms by (auto simp: offer_all_def)

lemma stream_publish:
  assumes "stream_ok w"
  shows "stream_ok (w_publish m ix w)"
proof (rule stream_okI)
  note ok = stream_okD(1) [OF assms]
  note f = publish_fields [OF ok, of m ix]
  show "hub_ok (w_hub (w_publish m ix w))"
    using publish_ok(1) [OF ok] by (simp add: w_publish_def Let_def)
  fix i s' assume "(i, s') \<in> set (subs (w_hub (w_publish m ix w)))"
  then have "(i, s') \<in> set (offer_all (MessageEv (with_id m (next_id (w_hub w)))) (subs (w_hub w)))"
    by (simp add: w_publish_def Let_def f)
  then obtain s where s: "(i, s) \<in> set (subs (w_hub w))"
    "s' = snd (offer (MessageEv (with_id m (next_id (w_hub w)))) s)" by (rule in_offer_all)
  then have "i \<in> fst ` set (subs (w_hub w))" by force
  with sub_stream_publish [OF stream_okD(2) [OF assms s(1)] msg_id_with_id]
  show "sub_stream_ok (next_id (w_hub (w_publish m ix w))) (sent_to (w_publish m ix w) i)
      (w_due (w_publish m ix w) i) s'"
    by (simp add: w_publish_def Let_def f s(2))
next
  fix i e assume "(i, e) \<in> set (w_sent (w_publish m ix w))"
  with stream_okD(3) [OF assms] publish_fields(2) [OF stream_okD(1) [OF assms]]
  show "i < next_sub (w_hub (w_publish m ix w))" by (simp add: w_publish_def Let_def)
qed

lemma stream_health:
  assumes "stream_ok w"
  shows "stream_ok (w_health h w)"
proof (rule stream_okI)
  show "hub_ok (w_hub (w_health h w))"
    using broadcast_ok [OF stream_okD(1) [OF assms]] by (simp add: w_health_def)
  fix i s' assume "(i, s') \<in> set (subs (w_hub (w_health h w)))"
  then have "(i, s') \<in> set (offer_all (HealthEv h) (subs (w_hub w)))"
    by (simp add: w_health_def broadcast_def)
  then obtain s where s: "(i, s) \<in> set (subs (w_hub w))" "s' = snd (offer (HealthEv h) s)"
    by (rule in_offer_all)
  with sub_stream_health [OF stream_okD(2) [OF assms s(1)]]
  show "sub_stream_ok (next_id (w_hub (w_health h w))) (sent_to (w_health h w) i) (w_due (w_health h w) i) s'"
    by (simp add: w_health_def broadcast_def)
next
  fix i e assume "(i, e) \<in> set (w_sent (w_health h w))"
  with stream_okD(3) [OF assms] show "i < next_sub (w_hub (w_health h w))"
    by (simp add: w_health_def broadcast_def)
qed

lemma stream_leave: "stream_ok w \<Longrightarrow> stream_ok (w_leave sid w)"
  using unsubscribe_ok [of "w_hub w" sid]
  by (auto simp: stream_ok_def w_leave_def unsubscribe_def AList.delete_eq)

lemma sent_to_fresh: "stream_ok w \<Longrightarrow> sent_to w (next_sub (w_hub w)) = []"
proof -
  assume "stream_ok w"
  then have "\<forall>(i, _) \<in> set (w_sent w). i \<noteq> next_sub (w_hub w)" by (fastforce simp: stream_ok_def)
  then have "filter (\<lambda>(i, _). i = next_sub (w_hub w)) (w_sent w) = []"
    by (auto simp: filter_empty_conv)
  then show ?thesis by (simp add: sent_to_def)
qed

lemma stream_subscribe:
  assumes "stream_ok w"
  shows "stream_ok (w_subscribe after stream w)"
proof -
  let ?hub = "w_hub w"
  let ?r = "replay_list ?hub after stream"
  let ?s = "offer_msgs_to ?r new_subscriber"
  have ok: "hub_ok ?hub" using assms by (simp add: stream_ok_def)
  have "sub_stream_ok (next_id ?hub) [] ?r ?s"
    using offer_fold_complete [of ?r new_subscriber] offer_fold_subseq [of ?r new_subscriber]
      replay_list_strict [OF ok, of after stream]
    by (auto simp: sub_stream_ok_def new_subscriber_def)
  moreover have "\<forall>(i, s) \<in> set (subs ?hub). i \<noteq> next_sub ?hub"
    using hub_okD(9) [OF ok] by fastforce
  ultimately show ?thesis
    using assms subscribe_ok [OF ok, of after stream] sent_to_fresh [OF assms]
    by (fastforce simp: stream_ok_def w_subscribe_def subscribe_def Let_def)
qed

lemma pop_event_Some:
  assumes "pop_event sid hub = Some (ev, hub')"
  obtains s q where "map_of (subs hub) sid = Some s" "sub_queue s = ev # q"
    "hub' = hub\<lparr>subs := AList.update sid (s\<lparr>sub_queue := q\<rparr>) (subs hub)\<rparr>"
  using assms by (auto simp: pop_event_def split: option.splits list.splits)

lemma pop_ok:
  assumes "hub_ok hub" "pop_event sid hub = Some (ev, hub')"
  shows "hub_ok hub'"
proof -
  from assms(2) obtain s q where p: "map_of (subs hub) sid = Some s" "sub_queue s = ev # q"
    "hub' = hub\<lparr>subs := AList.update sid (s\<lparr>sub_queue := q\<rparr>) (subs hub)\<rparr>" by (rule pop_event_Some)
  have "sid < next_sub hub \<and> length q \<le> QUEUE_MAX"
    using hub_okD(9) [OF assms(1) map_of_SomeD [OF p(1)]] p(2) by simp
  then have "\<forall>(i, s) \<in> set (AList.update sid (s\<lparr>sub_queue := q\<rparr>) (subs hub)). i < next_sub hub \<and> length (sub_queue s) \<le> QUEUE_MAX"
    using set_update_subset [of sid "s\<lparr>sub_queue := q\<rparr>" "subs hub"] hub_okD(9) [OF assms(1)] by fastforce
  then show ?thesis
    using assms(1) by (cases "hub_store hub") (simp_all add: p(3) hub_ok_def AList.distinct_update)
qed

lemma after_write_ok: "hub_ok hub \<Longrightarrow> hub_ok (snd (after_write sid ok ev hub))"
  by (cases ev) (simp_all add: after_write_def unsubscribe_ok confirm_ok)

lemma after_write_fields:
  "next_id (snd (after_write sid ok ev hub)) = next_id hub"
  "next_sub (snd (after_write sid ok ev hub)) = next_sub hub"
  "ring (snd (after_write sid ok ev hub)) = ring hub"
  "hub_store (snd (after_write sid ok ev hub)) = hub_store hub"
  "subs (snd (after_write sid ok ev hub)) = (if ok then subs hub else AList.delete sid (subs hub))"
  by (cases ev; simp add: after_write_def unsubscribe_def confirm_delivered_def)+

text \<open>A successful or failed write, spelled out.\<close>

lemma w_write_Some:
  assumes "pop_event sid (w_hub w) = Some (ev, hub')"
  shows "w_hub (w_write sid ok w) = snd (after_write sid ok ev hub')"
    "w_sent (w_write sid ok w) = (if ok then w_sent w @ [(sid, ev)] else w_sent w)"
    "w_published (w_write sid ok w) = w_published w"
    "w_due (w_write sid ok w) = w_due w"
    "w_hooks (w_write sid ok w) =
       (case (fst (after_write sid ok ev hub'), ev) of
          (Some ix, MessageEv m) \<Rightarrow> w_hooks w @ [(msg_id m, ix)] | _ \<Rightarrow> w_hooks w)"
  using assms by (simp_all add: w_write_def split: prod.splits)

lemma w_write_None: "pop_event sid (w_hub w) = None \<Longrightarrow> w_write sid ok w = w"
  by (simp add: w_write_def)

lemma stream_write:
  assumes "stream_ok w"
  shows "stream_ok (w_write sid ok w)"
proof (cases "pop_event sid (w_hub w)")
  case None
  with assms show ?thesis by (simp add: w_write_None)
next
  case (Some r)
  then obtain ev hub' where e: "pop_event sid (w_hub w) = Some (ev, hub')" by (cases r) auto
  from e obtain s q where p: "map_of (subs (w_hub w)) sid = Some s" "sub_queue s = ev # q"
    "hub' = (w_hub w)\<lparr>subs := AList.update sid (s\<lparr>sub_queue := q\<rparr>) (subs (w_hub w))\<rparr>" by (rule pop_event_Some)
  note w = w_write_Some [OF e, of ok]
  note ok = stream_okD(1) [OF assms]
  have sid: "(sid, s) \<in> set (subs (w_hub w))" by (rule map_of_SomeD [OF p(1)])
  note old = stream_okD(2) [OF assms sid]
  have sent: "sent_to (w_write sid ok w) i = sent_to w i @ (if ok \<and> i = sid then event_msgs [ev] else [])" for i
    by (simp add: sent_to_def w(2))
  show ?thesis
  proof (rule stream_okI)
    show "hub_ok (w_hub (w_write sid ok w))" unfolding w by (intro after_write_ok pop_ok [OF ok e])
    fix i s' assume i: "(i, s') \<in> set (subs (w_hub (w_write sid ok w)))"
    then have "(i, s') \<in> set (AList.update sid (s\<lparr>sub_queue := q\<rparr>) (subs (w_hub w)))" "ok \<or> i \<noteq> sid"
      unfolding w after_write_fields by (auto simp: p(3) AList.delete_eq split: if_splits)
    moreover have "distinct (map fst (AList.update sid (s\<lparr>sub_queue := q\<rparr>) (subs (w_hub w))))"
      using hub_okD(8) [OF ok] by (simp add: AList.distinct_update)
    ultimately have "map_of (AList.update sid (s\<lparr>sub_queue := q\<rparr>) (subs (w_hub w))) i = Some s'"
      by (metis map_of_eq_Some_iff)
    then consider "i = sid" "ok" "s' = s\<lparr>sub_queue := q\<rparr>" | "i \<noteq> sid" "(i, s') \<in> set (subs (w_hub w))"
      using \<open>ok \<or> i \<noteq> sid\<close> by (auto simp: map_of_update split: if_splits dest: map_of_SomeD)
    then show "sub_stream_ok (next_id (w_hub (w_write sid ok w))) (sent_to (w_write sid ok w) i)
        (w_due (w_write sid ok w) i) s'"
    proof cases
      case 1
      have "event_msgs (ev # q) = event_msgs [ev] @ event_msgs q" by (cases ev) simp_all
      with 1 old p(2) show ?thesis
        unfolding sent w after_write_fields by (simp add: p(3) sub_stream_ok_def)
    next
      case 2
      with stream_okD(2) [OF assms 2(2)] show ?thesis
        unfolding sent w after_write_fields by (simp add: p(3))
    qed
  next
    fix i e assume "(i, e) \<in> set (w_sent (w_write sid ok w))"
    with stream_okD(3) [OF assms] hub_okD(9) [OF ok sid]
    show "i < next_sub (w_hub (w_write sid ok w))"
      by (auto simp: w after_write_fields p(3) split: if_splits)
  qed
qed

lemma stream_step: "world_step w w' \<Longrightarrow> stream_ok w \<Longrightarrow> stream_ok w'"
  by (erule world_stepE)
    (simp_all add: stream_publish stream_subscribe stream_health stream_leave stream_write)

lemma stream_start: "hub_ok hub \<Longrightarrow> subs hub = [] \<Longrightarrow> stream_ok (start_world hub)"
  by (simp add: stream_ok_def start_world_def)

lemma stream_reachable: "reachable hub w \<Longrightarrow> hub_ok hub \<Longrightarrow> subs hub = [] \<Longrightarrow> stream_ok w"
  by (induction rule: reachable.induct) (auto intro: stream_step stream_start)

section \<open>Custody of messages without a store\<close>

text \<open>Without a store the hub's pending queue is the only place a message is kept: each
  published message is pending until it was written to a subscriber; \<open>on_deliverable\<close> is
  called for written messages only, once, with the indices they were published with.\<close>

definition written :: "'h world \<Rightarrow> published \<Rightarrow> bool" where
  "written w m \<longleftrightarrow> (\<exists>sid. (sid, MessageEv m) \<in> set (w_sent w))"

definition known :: "'h world \<Rightarrow> bool" where
  "known w \<longleftrightarrow> hub_store (w_hub w) = None
     \<and> map msg_id (w_published w) = [1..next_id (w_hub w) - 1]
     \<and> set (ring (w_hub w)) \<subseteq> set (w_published w)
     \<and> set (pending_msgs (w_hub w)) \<subseteq> set (w_published w)
     \<and> (\<forall>i \<in> fst ` set (subs (w_hub w)). set (w_due w i) \<subseteq> set (w_published w))"

definition custody :: "'h world \<Rightarrow> bool" where
  "custody w \<longleftrightarrow>
     (\<forall>m \<in> set (w_published w). m \<in> set (pending_msgs (w_hub w)) \<or> written w m)
     \<and> (\<forall>i \<in> set (map fst (w_hooks w)). (\<exists>m. msg_id m = i \<and> written w m)
          \<and> i \<notin> set (map fst (pending (w_hub w))) \<and> i < next_id (w_hub w))
     \<and> distinct (map fst (w_hooks w))"

lemma offer_all_keys: "fst ` set (offer_all ev ss) = fst ` set ss"
  by (metis offer_all_ids list.set_map)

lemma in_pending_msgs: "m \<in> set (pending_msgs hub) \<longleftrightarrow> (\<exists>i x. (i, m, x) \<in> set (pending hub))"
  by (force simp: pending_msgs_def)

lemma knownD:
  assumes "known w"
  shows "hub_store (w_hub w) = None" "map msg_id (w_published w) = [1..next_id (w_hub w) - 1]"
    "set (ring (w_hub w)) \<subseteq> set (w_published w)"
    "m \<in> set (pending_msgs (w_hub w)) \<Longrightarrow> m \<in> set (w_published w)"
    "i \<in> fst ` set (subs (w_hub w)) \<Longrightarrow> set (w_due w i) \<subseteq> set (w_published w)"
  using assms unfolding known_def by blast+

lemma knownI:
  assumes "hub_store (w_hub w) = None" "map msg_id (w_published w) = [1..next_id (w_hub w) - 1]"
    "set (ring (w_hub w)) \<subseteq> set (w_published w)"
    "\<And>m. m \<in> set (pending_msgs (w_hub w)) \<Longrightarrow> m \<in> set (w_published w)"
    "\<And>i. i \<in> fst ` set (subs (w_hub w)) \<Longrightarrow> set (w_due w i) \<subseteq> set (w_published w)"
  shows "known w"
  using assms unfolding known_def by blast

lemma custodyD:
  assumes "custody w"
  shows "m \<in> set (w_published w) \<Longrightarrow> m \<in> set (pending_msgs (w_hub w)) \<or> written w m"
    "i \<in> set (map fst (w_hooks w)) \<Longrightarrow> \<exists>m. msg_id m = i \<and> written w m"
    "distinct (map fst (w_hooks w))"
    "i \<in> set (map fst (w_hooks w)) \<Longrightarrow> i \<notin> set (map fst (pending (w_hub w)))"
    "i \<in> set (map fst (w_hooks w)) \<Longrightarrow> i < next_id (w_hub w)"
  using assms unfolding custody_def by blast+

lemma custodyI:
  assumes "\<And>m. m \<in> set (w_published w) \<Longrightarrow> m \<in> set (pending_msgs (w_hub w)) \<or> written w m"
    "\<And>i. i \<in> set (map fst (w_hooks w)) \<Longrightarrow> \<exists>m. msg_id m = i \<and> written w m"
    "distinct (map fst (w_hooks w))"
    "\<And>i. i \<in> set (map fst (w_hooks w)) \<Longrightarrow> i \<notin> set (map fst (pending (w_hub w)))"
    "\<And>i. i \<in> set (map fst (w_hooks w)) \<Longrightarrow> i < next_id (w_hub w)"
  shows "custody w"
  using assms unfolding custody_def by blast

lemma known_unique:
  assumes "known w" "m \<in> set (w_published w)" "m' \<in> set (w_published w)" "msg_id m = msg_id m'"
  shows "m = m'"
proof -
  have "distinct (map msg_id (w_published w))" using assms(1) by (simp add: known_def)
  with assms(2-4) show ?thesis by (meson distinct_map inj_onD)
qed

lemma pending_msgs_publish:
  assumes "hub_ok hub" "hub_store hub = None"
  shows "pending (snd (publish 6 hub m ix)) = pending hub @ [(next_id hub, with_id m (next_id hub), ix)]"
proof -
  have "next_id hub \<notin> fst ` set (pending hub)" using hub_okD(6) [OF assms(1)] by force
  then show ?thesis by (simp add: publish_no_store [OF assms(2)] update_fresh)
qed

lemma known_publish:
  assumes "stream_ok w" "known w"
  shows "known (w_publish m ix w)"
proof -
  let ?hub = "w_hub w" and ?msg = "with_id m (next_id (w_hub w))"
  note ok = stream_okD(1) [OF assms(1)]
  have ns: "hub_store ?hub = None" using assms(2) by (simp add: known_def)
  have ids: "map msg_id (w_published w @ [?msg]) = [1..next_id ?hub + 1 - 1]"
    using assms(2) hub_okD(1) [OF ok] upto_rec2 [of 1 "next_id ?hub"] by (simp add: known_def)
  have ring: "set (last_n (ring_size ?hub) (ring ?hub @ [?msg])) \<subseteq> set (w_published w @ [?msg])"
    using set_last_n [of "ring_size ?hub" "ring ?hub @ [?msg]"] assms(2) by (auto simp: known_def)
  have pend: "set (pending_msgs (snd (publish 6 ?hub m ix))) \<subseteq> set (w_published w @ [?msg])"
    using assms(2) by (auto simp: known_def pending_msgs_def pending_msgs_publish [OF ok ns])
  have due: "\<forall>i \<in> fst ` set (subs ?hub). set (w_due w i @ [?msg]) \<subseteq> set (w_published w @ [?msg])"
    using assms(2) by (auto simp: known_def)
  show ?thesis
    using ids ring pend due ns unfolding known_def
    by (simp add: w_publish_def Let_def publish_no_store offer_all_keys)
qed

lemma known_subscribe:
  assumes "stream_ok w" "known w"
  shows "known (w_subscribe after stream w)"
proof -
  let ?hub = "w_hub w"
  note ok = stream_okD(1) [OF assms(1)]
  have ns: "hub_store ?hub = None" using assms(2) by (simp add: known_def)
  have "set (replay_list ?hub after stream) \<subseteq> set (w_published w)"
    using replay_list_no_store(1) [OF ok ns, of after stream] assms(2) by (auto simp: known_def)
  moreover have "next_sub ?hub \<notin> fst ` set (subs ?hub)"
    using hub_okD(9) [OF ok] by force
  ultimately show ?thesis
    using assms(2) unfolding known_def
    by (simp add: w_subscribe_def subscribe_def Let_def pending_msgs_def)
qed

lemma confirm_pending:
  "pending (snd (after_write sid ok ev hub)) =
     (case ev of MessageEv m \<Rightarrow> if ok then AList.delete (msg_id m) (pending hub) else pending hub
      | _ \<Rightarrow> pending hub)"
  by (cases ev) (simp_all add: after_write_def unsubscribe_def confirm_delivered_def)

lemma pop_pending:
  "pop_event sid hub = Some (ev, hub') \<Longrightarrow> pending hub' = pending hub \<and> ring hub' = ring hub
     \<and> hub_store hub' = hub_store hub \<and> next_id hub' = next_id hub
     \<and> fst ` set (subs hub') \<subseteq> fst ` set (subs hub)"
proof (elim pop_event_Some)
  fix s q assume "map_of (subs hub) sid = Some s" "hub' = hub\<lparr>subs := AList.update sid (s\<lparr>sub_queue := q\<rparr>) (subs hub)\<rparr>"
  moreover from this have "sid \<in> fst ` set (subs hub)" by (force dest: map_of_SomeD)
  ultimately show ?thesis by (simp add: AList.dom_update insert_absorb)
qed

lemma pending_after_write:
  assumes "pop_event sid hub = Some (ev, hub')" "m \<in> set (pending_msgs (snd (after_write sid ok ev hub')))"
  shows "m \<in> set (pending_msgs hub)"
proof -
  from assms(2) obtain i x where "(i, m, x) \<in> set (pending (snd (after_write sid ok ev hub')))"
    unfolding in_pending_msgs by blast
  then have "(i, m, x) \<in> set (pending hub)"
    using pop_pending [OF assms(1)] by (auto simp: confirm_pending AList.delete_eq split: event.splits if_splits)
  then show ?thesis unfolding in_pending_msgs by blast
qed

lemma subs_after_write:
  assumes "pop_event sid hub = Some (ev, hub')"
  shows "fst ` set (subs (snd (after_write sid ok ev hub'))) \<subseteq> fst ` set (subs hub)"
proof -
  have "fst ` set (subs (snd (after_write sid ok ev hub'))) \<subseteq> fst ` set (subs hub')"
    by (auto simp: after_write_fields AList.delete_eq)
  with pop_pending [OF assms] show ?thesis by blast
qed

lemma known_write:
  assumes "known w"
  shows "known (w_write sid ok w)"
proof (cases "pop_event sid (w_hub w)")
  case None
  with assms show ?thesis by (simp add: w_write_None)
next
  case (Some r)
  then obtain ev hub' where e: "pop_event sid (w_hub w) = Some (ev, hub')" by (cases r) auto
  note w = w_write_Some [OF e, of ok] and p = pop_pending [OF e] and k = knownD [OF assms]
  show ?thesis
  proof (rule knownI; unfold w after_write_fields(1-4))
    show "hub_store hub' = None" using k(1) p by simp
    show "map msg_id (w_published w) = [1..next_id hub' - 1]" using k(2) p by simp
    show "set (ring hub') \<subseteq> set (w_published w)" using k(3) p by simp
    show "m \<in> set (w_published w)" if "m \<in> set (pending_msgs (snd (after_write sid ok ev hub')))" for m
      by (rule k(4) [OF pending_after_write [OF e that]])
    show "set (w_due w i) \<subseteq> set (w_published w)"
      if "i \<in> fst ` set (subs (snd (after_write sid ok ev hub')))" for i
      by (rule k(5) [OF subsetD [OF subs_after_write [OF e] that]])
  qed
qed

lemma known_health: "known w \<Longrightarrow> known (w_health h w)"
  by (simp add: known_def w_health_def broadcast_def offer_all_keys pending_msgs_def)

lemma known_leave: "known w \<Longrightarrow> known (w_leave sid w)"
  by (fastforce simp: known_def w_leave_def unsubscribe_def pending_msgs_def AList.delete_eq)

lemma known_step: "world_step w w' \<Longrightarrow> stream_ok w \<Longrightarrow> known w \<Longrightarrow> known w'"
  by (erule world_stepE)
    (simp_all add: known_publish known_subscribe known_write known_health known_leave)

text \<open>The custody invariant itself.\<close>

lemma custody_publish:
  assumes "stream_ok w" "known w" "custody w"
  shows "custody (w_publish m ix w)"
proof -
  let ?hub = "w_hub w" and ?msg = "with_id m (next_id (w_hub w))"
  note ok = stream_okD(1) [OF assms(1)]
  have ns: "hub_store ?hub = None" using assms(2) by (simp add: known_def)
  have "next_id ?hub \<notin> set (map fst (w_hooks w))" using assms(3) by (force simp: custody_def)
  moreover have "written (w_publish m ix w) = written w"
    by (simp add: written_def fun_eq_iff w_publish_def Let_def)
  moreover have "pending (w_hub (w_publish m ix w)) = pending ?hub @ [(next_id ?hub, ?msg, ix)]"
    "w_published (w_publish m ix w) = w_published w @ [?msg]" "w_hooks (w_publish m ix w) = w_hooks w"
    "next_id (w_hub (w_publish m ix w)) = next_id ?hub + 1"
    by (simp_all add: w_publish_def Let_def pending_msgs_publish [OF ok ns] publish_fields [OF ok])
  ultimately show ?thesis
    using assms(3) unfolding custody_def pending_msgs_def by force
qed

lemma popped_published:
  assumes "stream_ok w" "known w" "pop_event sid (w_hub w) = Some (MessageEv m, hub')"
  shows "m \<in> set (w_published w)"
proof -
  from assms(3) obtain s q where s: "map_of (subs (w_hub w)) sid = Some s" "sub_queue s = MessageEv m # q"
    by (rule pop_event_Some)
  have sid: "(sid, s) \<in> set (subs (w_hub w))" by (rule map_of_SomeD [OF s(1)])
  have "m \<in> set (event_msgs (sub_queue s))" by (simp add: s(2))
  moreover have "subseq (sent_to w sid @ event_msgs (sub_queue s)) (w_due w sid)"
    using stream_okD(2) [OF assms(1) sid] by (simp add: sub_stream_ok_def)
  ultimately have "m \<in> set (w_due w sid)" using subseq_members by fastforce
  moreover have "sid \<in> fst ` set (subs (w_hub w))" using sid by force
  ultimately show ?thesis using assms(2) by (auto simp: known_def)
qed

lemma custody_write:
  assumes "stream_ok w" "known w" "custody w"
  shows "custody (w_write sid ok w)"
proof (cases "pop_event sid (w_hub w)")
  case None
  with assms show ?thesis by (simp add: w_write_None)
next
  case (Some r)
  then obtain ev hub' where e: "pop_event sid (w_hub w) = Some (ev, hub')" by (cases r) auto
  note w = w_write_Some [OF e, of ok] and p = pop_pending [OF e]
  have keep: "written (w_write sid ok w) m" if "written w m" for m
    using that by (auto simp: written_def w(2))
  show ?thesis
  proof (cases "ok \<and> (\<exists>m. ev = MessageEv m)")
    case False
    then have "pending (w_hub (w_write sid ok w)) = pending (w_hub w)"
      using p unfolding w(1) confirm_pending by (cases ev) auto
    moreover have "w_hooks (w_write sid ok w) = w_hooks w"
      using False unfolding w(5) after_write_def by (cases ev) auto
    moreover have "next_id (w_hub (w_write sid ok w)) = next_id (w_hub w)"
      by (simp add: w(1) after_write_fields p)
    ultimately show ?thesis
      using assms(3) keep unfolding custody_def pending_msgs_def w(3) by (simp, blast)
  next
    case True
    then obtain m where ev: "ev = MessageEv m" and ok by blast
    have m: "m \<in> set (w_published w)" using popped_published [OF assms(1,2)] e ev by blast
    have wm: "written (w_write sid ok w) m" using \<open>ok\<close> unfolding written_def w(2) ev by auto
    let ?P = "pending (w_hub w)"
    have pend: "pending (w_hub (w_write sid ok w)) = AList.delete (msg_id m) ?P"
      using \<open>ok\<close> p unfolding w(1) confirm_pending ev by simp
    have hooks: "w_hooks (w_write sid ok w) =
        w_hooks w @ (case map_of ?P (msg_id m) of Some (_, ix) \<Rightarrow> [(msg_id m, ix)] | None \<Rightarrow> [])"
      using \<open>ok\<close> p unfolding w(5) ev after_write_def confirm_delivered_def
      by (simp split: option.split prod.split)
    have c1: "x \<in> set (pending_msgs (w_hub (w_write sid ok w))) \<or> written (w_write sid ok w) x"
      if "x \<in> set (w_published w)" for x
    proof (cases "x = m \<or> written w x")
      case True
      then show ?thesis using wm keep by blast
    next
      case False
      with assms(3) that obtain i y where i: "(i, x, y) \<in> set ?P"
        by (auto simp: custody_def in_pending_msgs)
      then have "msg_id x = i" using hub_okD(6) [OF stream_okD(1) [OF assms(1)]] by blast
      with False known_unique [OF assms(2) that m] i have "(i, x, y) \<in> set (AList.delete (msg_id m) ?P)"
        by (auto simp: AList.delete_eq)
      then show ?thesis by (auto simp: in_pending_msgs pend)
    qed
    have new: "msg_id m \<notin> set (map fst (w_hooks w))" if "map_of ?P (msg_id m) = Some y" for y
    proof -
      have "(msg_id m, y) \<in> set ?P" by (rule map_of_SomeD [OF that])
      then have "msg_id m \<in> set (map fst ?P)" by force
      then show ?thesis using custodyD(4) [OF assms(3)] by blast
    qed
    have sub: "set (map fst (AList.delete (msg_id m) ?P)) = set (map fst ?P) - {msg_id m}"
      by (auto simp: map_fst_delete)
    have hk: "set (map fst (w_hooks (w_write sid ok w))) \<subseteq> insert (msg_id m) (set (map fst (w_hooks w)))"
      by (auto simp: hooks split: option.splits)
    have n: "next_id (w_hub (w_write sid ok w)) = next_id (w_hub w)" by (simp add: w(1) after_write_fields p)
    have "msg_id m < next_id (w_hub w)"
    proof -
      have "msg_id m \<in> set (map msg_id (w_published w))" using m by simp
      then show ?thesis unfolding knownD(2) [OF assms(2)] by simp
    qed
    show ?thesis
    proof (rule custodyI)
      show "x \<in> set (w_published (w_write sid ok w)) \<Longrightarrow>
          x \<in> set (pending_msgs (w_hub (w_write sid ok w))) \<or> written (w_write sid ok w) x" for x
        using c1 by (simp add: w(3))
      show "distinct (map fst (w_hooks (w_write sid ok w)))"
        using custodyD(3) [OF assms(3)] new(1) by (auto simp: hooks split: option.splits)
      fix i assume "i \<in> set (map fst (w_hooks (w_write sid ok w)))"
      then consider "i = msg_id m" | "i \<in> set (map fst (w_hooks w))" using hk by blast
      note i = this
      show "\<exists>x. msg_id x = i \<and> written (w_write sid ok w) x"
        using i by cases (use wm keep custodyD(2) [OF assms(3)] in blast)+
      show "i \<notin> set (map fst (pending (w_hub (w_write sid ok w))))"
        using i by cases (use custodyD(4) [OF assms(3)] in \<open>simp_all only: pend sub, blast+\<close>)
      show "i < next_id (w_hub (w_write sid ok w))"
        using i by cases (use custodyD(5) [OF assms(3)] \<open>msg_id m < _\<close> n in simp_all)
    qed
  qed
qed

lemma custody_step:
  assumes "world_step w w'" "stream_ok w" "known w" "custody w"
  shows "custody w'"
proof -
  have "custody (w_subscribe after stream w)" "custody (w_health h w)" "custody (w_leave sid w)" for after stream h sid
    using assms(4)
    by (simp_all add: custody_def w_subscribe_def subscribe_def w_health_def broadcast_def w_leave_def
        unsubscribe_def Let_def written_def pending_msgs_def)
  with assms show ?thesis by (auto elim!: world_stepE simp: custody_publish custody_write)
qed

lemma custody_reachable:
  assumes "reachable (new_hub n fresh None) w"
  shows "stream_ok w" "known w" "custody w"
proof -
  have "stream_ok w \<and> known w \<and> custody w"
    using assms
  proof (induction rule: reachable.induct)
    case Start
    have "stream_ok (start_world (new_hub n fresh None :: 'a hub))"
      by (intro stream_start new_hub_ok) (simp_all add: new_hub_def)
    then show ?case
      by (simp add: start_world_def new_hub_def known_def custody_def pending_msgs_def)
  next
    case (Step w w')
    then show ?case using stream_step known_step custody_step by blast
  qed
  then show "stream_ok w" "known w" "custody w" by blast+
qed

text \<open>Only published messages are ever written.\<close>

lemma written_step:
  assumes "world_step w w'" "stream_ok w" "known w" "\<forall>m. written w m \<longrightarrow> m \<in> set (w_published w)"
  shows "\<forall>m. written w' m \<longrightarrow> m \<in> set (w_published w')"
proof -
  have pub: "m \<in> set (w_published (w_write sid ok w))" if "written (w_write sid ok w) m" for sid ok m
  proof (cases "pop_event sid (w_hub w)")
    case None
    with that assms(4) show ?thesis by (simp add: w_write_None)
  next
    case (Some r)
    then obtain ev hub' where e: "pop_event sid (w_hub w) = Some (ev, hub')" by (cases r) auto
    note w = w_write_Some [OF e, of ok]
    show ?thesis
    proof (cases "written w m")
      case True
      then show ?thesis using assms(4) unfolding w(3) by blast
    next
      case False
      then have "ev = MessageEv m" using that unfolding written_def w(2) by (auto split: if_splits)
      with popped_published [OF assms(2,3)] e show ?thesis unfolding w(3) by blast
    qed
  qed
  have "written (w_publish m ix w) = written w" "written (w_subscribe after stream w) = written w"
    "written (w_health h w) = written w" "written (w_leave sid w) = written w" for m ix after stream h sid
    by (simp_all add: written_def fun_eq_iff w_publish_def w_subscribe_def w_health_def w_leave_def Let_def)
  moreover have "x \<in> set (w_published w) \<longrightarrow> x \<in> set (w_published (w_publish m ix w))" for x m ix
    by (auto simp: w_publish_def Let_def)
  moreover have "w_published (w_subscribe after stream w) = w_published w" "w_published (w_health h w) = w_published w"
    "w_published (w_leave sid w) = w_published w" for after stream h sid
    by (simp_all add: w_subscribe_def w_health_def w_leave_def)
  ultimately show ?thesis
    using assms(1,4) pub by (auto elim!: world_stepE)
qed

lemma written_published:
  assumes "reachable (new_hub n fresh None) w" "written w m"
  shows "m \<in> set (w_published w)"
proof -
  have "\<forall>m. written w m \<longrightarrow> m \<in> set (w_published w)"
    using assms(1)
  proof (induction rule: reachable.induct)
    case Start
    show ?case by (simp add: written_def start_world_def)
  next
    case (Step w w')
    then show ?case using written_step custody_reachable(1,2) by blast
  qed
  with assms(2) show ?thesis by blast
qed

section \<open>Handing the pending messages over\<close>

lemma w_write_event:
  assumes "map_of (subs (w_hub w)) sid = Some s" "sub_queue s = ev # q"
  shows "map_of (subs (w_hub (w_write sid True w))) sid = Some (s\<lparr>sub_queue := q\<rparr>)"
    "pending (w_hub (w_write sid True w)) =
       filter (\<lambda>p. fst p \<notin> msg_id ` set (event_msgs [ev])) (pending (w_hub w))"
    "w_sent (w_write sid True w) = w_sent w @ [(sid, ev)]"
proof -
  have e: "pop_event sid (w_hub w) =
      Some (ev, (w_hub w)\<lparr>subs := AList.update sid (s\<lparr>sub_queue := q\<rparr>) (subs (w_hub w))\<rparr>)"
    using assms by (simp add: pop_event_def)
  note w = w_write_Some [OF e, of True]
  show "map_of (subs (w_hub (w_write sid True w))) sid = Some (s\<lparr>sub_queue := q\<rparr>)"
    by (simp add: w(1) after_write_fields map_of_update)
  show "pending (w_hub (w_write sid True w)) =
      filter (\<lambda>p. fst p \<notin> msg_id ` set (event_msgs [ev])) (pending (w_hub w))"
    by (cases ev) (auto simp: w(1) confirm_pending AList.delete_eq intro: filter_cong)
  show "w_sent (w_write sid True w) = w_sent w @ [(sid, ev)]" by (simp add: w(2))
qed

lemma drain_queue:
  assumes "map_of (subs (w_hub w)) sid = Some s"
  shows "pending (w_hub ((w_write sid True ^^ length (sub_queue s)) w)) =
      filter (\<lambda>p. fst p \<notin> msg_id ` set (event_msgs (sub_queue s))) (pending (w_hub w))
    \<and> w_sent ((w_write sid True ^^ length (sub_queue s)) w) = w_sent w @ map (Pair sid) (sub_queue s)"
  using assms
proof (induction "sub_queue s" arbitrary: s w)
  case Nil
  then show ?case by simp
next
  case (Cons ev q)
  let ?w = "w_write sid True w" and ?s = "s\<lparr>sub_queue := q\<rparr>"
  note e = w_write_event [OF Cons.prems Cons.hyps(2) [symmetric]]
  have "event_msgs (ev # q) = event_msgs [ev] @ event_msgs q" by (cases ev) simp_all
  moreover have "(w_write sid True ^^ length (sub_queue s)) w = (w_write sid True ^^ length (sub_queue ?s)) ?w"
    by (simp add: Cons.hyps(2) [symmetric] funpow_swap1)
  moreover note Cons.hyps(1) [of ?s ?w, OF _ e(1)]
  ultimately show ?case
    by (simp add: e(2,3) Cons.hyps(2) [symmetric] image_Un conj_commute)
qed

lemma resume_queue:
  assumes "hub_ok hub" "hub_store hub = Some st" "0 \<le> a" "a < next_id hub"
    and "length (filter (\<lambda>m. msg_id m > a) (inbox_log st)) \<le> 500"
  shows "map_of (subs (snd (subscribe (Some a) (Some (stream_id hub)) hub)))
      (fst (subscribe (Some a) (Some (stream_id hub)) hub))
    = Some \<lparr>sub_queue = map MessageEv (filter (\<lambda>m. msg_id m > a) (inbox_log st)), gapped = False\<rparr>"
proof -
  have "valid_cursor hub (Some a) (Some (stream_id hub))"
    using assms(3,4) by (simp add: valid_cursor_def)
  with replay_list_store [OF assms(1,2)] assms(5)
  have r: "replay_list hub (Some a) (Some (stream_id hub)) = filter (\<lambda>m. msg_id m > a) (inbox_log st)"
    by (simp add: MAX_REPLAY_def)
  have "next_sub hub \<notin> fst ` set (subs hub)" using hub_okD(9) [OF assms(1)] by force
  then have "map_of (subs hub @ [(next_sub hub, s)]) (next_sub hub) = Some s" for s
    by (auto simp: map_add_def split: option.split dest!: map_of_SomeD) force
  then show ?thesis
    using assms(5) by (simp add: subscribe_def Let_def r offer_fold_room new_subscriber_def QUEUE_MAX_def)
qed

section \<open>Properties\<close>

text \<open>C3. Resuming with a store: a client that presents a cursor of this stream is queued
  exactly the messages published after the cursor, in order and without a gap, as long as
  there are at most 500 of them, whether they are still in the ring or only on disk.\<close>

theorem hub_resume_exact:
  assumes "hub_ok hub" "hub_store hub = Some st" "0 \<le> a" "a < next_id hub"
    and "length (filter (\<lambda>m. msg_id m > a) (inbox_log st)) \<le> 500"
  shows "map_of (subs (snd (subscribe (Some a) (Some (stream_id hub)) hub)))
      (fst (subscribe (Some a) (Some (stream_id hub)) hub))
    = Some \<lparr>sub_queue = map MessageEv (filter (\<lambda>m. msg_id m > a) (inbox_log st)), gapped = False\<rparr>"
  by (rule resume_queue [OF assms])

definition example_stamped :: stamped where
  "example_stamped = \<lparr>in_sender = str_of ''+15550100'', in_text = str_of ''hi'',
     in_scts = str_of ''2026-01-02T13:14:15+01:00'', in_partial = False,
     received_at = str_of ''2026-01-02T13:14:20+01:00'', msg_hash = str_of ''ab''\<rparr>"

definition example_store_hub :: "nat hub" where
  "example_store_hub = snd (publish 6 (snd (publish 6
     (new_hub 1 [] (Some (open_store [97] empty_disk))) example_stamped [])) example_stamped [])"

lemma example_store_hub:
  "hub_ok example_store_hub" "next_id example_store_hub = 3" "stream_id example_store_hub = [97]"
  "\<exists>st. hub_store example_store_hub = Some st
    \<and> inbox_log st = [with_id example_stamped 1, with_id example_stamped 2]"
proof -
  let ?s0 = "open_store [97] empty_disk" and ?m = "\<lambda>n. with_id example_stamped n"
  let ?h0 = "new_hub 1 [] (Some ?s0) :: nat hub"
  have n0: "store_next ?s0 = 1" "store_stream ?s0 = [97]"
    by (simp_all add: open_store_def load_stream_def empty_disk_def)
  have ok0: "hub_ok ?h0" by (intro new_hub_ok) (simp add: open_empty_ok n0)
  show "hub_ok example_store_hub"
    unfolding example_store_hub_def by (intro publish_ok(1)) (rule ok0)
  let ?s1 = "snd (save_inbound 6 ?s0 (?m 1) (store_next ?s0 + 1))"
  let ?s2 = "snd (save_inbound 6 ?s1 (?m 2) (store_next ?s1 + 1))"
  have i0: "msg_id (?m 1) = store_next ?s0" by (simp add: n0)
  note s1 = save_inbound_ok [OF open_empty_ok i0]
  have i1: "msg_id (?m 2) = store_next ?s1" using s1(3) n0 by simp
  have e: "inbox_log ?s0 = []" by (simp add: inbox_log_def open_store_def load_stream_def empty_disk_def)
  have log: "inbox_log ?s2 = [?m 1, ?m 2]"
    using save_inbound_log [OF s1(1) i1] save_inbound_log [OF open_empty_ok i0] e by simp
  have st: "hub_store example_store_hub = Some ?s2"
    and "next_id example_store_hub = 3" "stream_id example_store_hub = [97]"
    by (simp_all add: example_store_hub_def publish_store new_hub_def n0 s1 save_inbound_def Let_def)
  then show "next_id example_store_hub = 3" "stream_id example_store_hub = [97]" by blast+
  show "\<exists>st. hub_store example_store_hub = Some st \<and> inbox_log st = [?m 1, ?m 2]"
    using st log by blast
qed

theorem hub_resume_exact_witness:
  "\<exists>st. hub_store example_store_hub = Some st
    \<and> map_of (subs (snd (subscribe (Some 0) (Some (stream_id example_store_hub)) example_store_hub)))
        (fst (subscribe (Some 0) (Some (stream_id example_store_hub)) example_store_hub))
      = Some \<lparr>sub_queue = map MessageEv (filter (\<lambda>m. msg_id m > 0) (inbox_log st)), gapped = False\<rparr>"
proof -
  obtain st where st: "hub_store example_store_hub = Some st"
    "inbox_log st = [with_id example_stamped 1, with_id example_stamped 2]"
    using example_store_hub(4) by blast
  have "length (filter (\<lambda>m. msg_id m > 0) (inbox_log st)) \<le> 500" by (simp add: st(2))
  from hub_resume_exact [OF example_store_hub(1) st(1) _ _ this] example_store_hub(2) st(1) show ?thesis by auto
qed

text \<open>C2. No message is lost or deleted early (no store): in every run of the server, each
  published message is either still pending or was written to some subscriber, and the modem
  slots of a message are released (\<open>on_deliverable\<close>) at most once and only after such a
  write.\<close>

theorem no_message_lost:
  assumes "reachable (new_hub n fresh None) w"
  shows "(\<forall>m \<in> set (w_published w). m \<in> set (pending_msgs (w_hub w)) \<or> written w m)
    \<and> (\<forall>i \<in> set (map fst (w_hooks w)). \<exists>m \<in> set (w_published w). msg_id m = i \<and> written w m)
    \<and> distinct (map fst (w_hooks w))"
proof -
  note inv = custody_reachable [OF assms]
  have w: "\<exists>m \<in> set (w_published w). msg_id m = i \<and> written w m"
    if i: "i \<in> set (map fst (w_hooks w))" for i
  proof -
    obtain m where m: "msg_id m = i" "written w m" using custodyD(2) [OF inv(3) i] by blast
    have "m \<in> set (w_published w)" by (rule written_published [OF assms m(2)])
    with m show ?thesis by blast
  qed
  with custodyD(1,3) [OF inv(3)] show ?thesis by blast
qed

definition example_run :: "nat world" where
  "example_run = w_write 0 True (w_publish example_stamped [7] (w_subscribe None None
     (start_world (new_hub 100 [97] None))))"

lemma example_run_reachable: "reachable (new_hub 100 [97] None) example_run"
  unfolding example_run_def
  by (intro reachable.Step [OF _ world_step.Write] reachable.Step [OF _ world_step.Publish]
      reachable.Step [OF _ world_step.Subscribe] reachable.Start)

theorem no_message_lost_witness:
  "w_hooks example_run = [(1, [7])] \<and> distinct (map fst (w_hooks example_run))"
proof -
  have "w_hooks example_run = [(1, [7])]" by code_simp
  with no_message_lost [OF example_run_reachable] show ?thesis by simp
qed

text \<open>C6. A subscriber's stream: what was written to a subscriber and what waits for it is, in
  order, a part of what it is due (its replay, then everything published since); ids
  strictly increase, so nothing is written twice; and nothing is missing unless its queue
  overflowed, which sets \<open>gapped\<close>.  Queues hold at most 500 events.\<close>

theorem subscriber_stream:
  assumes "reachable hub w" "hub_ok hub" "subs hub = []" "(i, s) \<in> set (subs (w_hub w))"
  shows "subseq (sent_to w i @ event_msgs (sub_queue s)) (w_due w i)
    \<and> (\<not> gapped s \<longrightarrow> sent_to w i @ event_msgs (sub_queue s) = w_due w i)
    \<and> sorted_wrt (<) (map msg_id (sent_to w i @ event_msgs (sub_queue s)))
    \<and> length (sub_queue s) \<le> 500"
proof -
  have ok: "stream_ok w" by (rule stream_reachable [OF assms(1-3)])
  note s = stream_okD(2) [OF ok assms(4)]
  then have "subseq (map msg_id (sent_to w i @ event_msgs (sub_queue s))) (map msg_id (w_due w i))"
    by (intro subseq_map) (simp add: sub_stream_ok_def)
  moreover have "sorted_wrt (<) (map msg_id (w_due w i))" using s by (simp add: sub_stream_ok_def)
  ultimately have "sorted_wrt (<) (map msg_id (sent_to w i @ event_msgs (sub_queue s)))"
    by (rule subseq_sorted)
  then show ?thesis
    using s hub_okD(9) [OF stream_okD(1) [OF ok] assms(4)] by (simp add: sub_stream_ok_def QUEUE_MAX_def)
qed

theorem subscriber_stream_witness:
  "\<exists>s. (0, s) \<in> set (subs (w_hub example_run))
    \<and> sent_to example_run 0 @ event_msgs (sub_queue s) = w_due example_run 0"
proof -
  have "subs (w_hub example_run) = [(0, \<lparr>sub_queue = [], gapped = False\<rparr>)]" by code_simp
  then have s: "(0, \<lparr>sub_queue = [], gapped = False\<rparr>) \<in> set (subs (w_hub example_run))" by simp
  have ok: "hub_ok (new_hub 100 [97] None :: nat hub)" by (rule new_hub_ok) simp
  have "subs (new_hub 100 [97] None :: nat hub) = []" by (simp add: new_hub_def)
  from subscriber_stream [OF example_run_reachable ok this s] s show ?thesis by auto
qed

text \<open>C8. Handover: whatever happened before, a client that connects without a cursor to a
  server without a store is queued every message that was never delivered (at most 500), in
  order of ids, and once its queue was written nothing is pending any more.\<close>

theorem pending_handed_over:
  assumes "reachable (new_hub n fresh None) w" "length (pending (w_hub w)) \<le> 500"
  defines "w' \<equiv> w_subscribe None None w"
    and "sid \<equiv> next_sub (w_hub w)"
  shows "\<exists>ms. map_of (subs (w_hub w')) sid = Some \<lparr>sub_queue = map MessageEv ms, gapped = False\<rparr>
    \<and> set ms = set (pending_msgs (w_hub w)) \<and> sorted_wrt (<) (map msg_id ms)
    \<and> pending (w_hub ((w_write sid True ^^ length ms) w')) = []
    \<and> w_sent ((w_write sid True ^^ length ms) w') = w_sent w @ map (\<lambda>m. (sid, MessageEv m)) ms"
proof -
  let ?hub = "w_hub w" and ?ms = "replay_list (w_hub w) None None"
  note inv = custody_reachable [OF assms(1)]
  note ok = stream_okD(1) [OF inv(1)]
  have ns: "hub_store ?hub = None" by (rule knownD(1) [OF inv(2)])
  have "\<not> valid_cursor ?hub None None" by (simp add: valid_cursor_def)
  with replay_list_no_store [OF ok ns, of None None]
  have ms: "set ?ms = set (pending_msgs ?hub)" "sorted_wrt (<) (map msg_id ?ms)" by simp_all
  have "distinct ?ms" using ms(2) by (metis distinct_map strict_sorted_iff)
  then have "length ?ms = card (set (pending_msgs ?hub))" by (simp add: ms(1) [symmetric] distinct_card)
  then have len: "length ?ms \<le> 500"
    using assms(2) card_length [of "pending_msgs ?hub"] by (simp add: pending_msgs_def)
  let ?s = "\<lparr>sub_queue = map MessageEv ?ms, gapped = False\<rparr>"
  have "next_sub ?hub \<notin> fst ` set (subs ?hub)" using hub_okD(9) [OF ok] by force
  then have at: "map_of (subs (w_hub w')) sid = Some ?s"
    using len
    by (simp add: w'_def sid_def w_subscribe_def subscribe_def Let_def offer_fold_room new_subscriber_def
        QUEUE_MAX_def map_of_eq_None_iff [symmetric] map_add_def)
  have p: "pending (w_hub w') = pending ?hub" by (simp add: w'_def w_subscribe_def subscribe_def Let_def)
  have "msg_id ` set (pending_msgs ?hub) = fst ` set (pending ?hub)"
    using hub_okD(6) [OF ok] by (force simp: pending_msgs_def image_image)
  then have "filter (\<lambda>p. fst p \<notin> msg_id ` set ?ms) (pending ?hub) = []"
    unfolding ms(1) by (auto simp: filter_empty_conv)
  with drain_queue [OF at] p
  have "pending (w_hub ((w_write sid True ^^ length ?ms) w')) = []
    \<and> w_sent ((w_write sid True ^^ length ?ms) w') = w_sent w @ map (\<lambda>m. (sid, MessageEv m)) ?ms"
    by (simp add: w'_def w_subscribe_def o_def)
  with at ms show ?thesis by blast
qed

definition example_waiting :: "nat world" where
  "example_waiting = w_publish example_stamped [7] (start_world (new_hub 100 [97] None))"

theorem pending_handed_over_witness:
  "\<exists>ms. set ms = set (pending_msgs (w_hub example_waiting))
    \<and> pending (w_hub ((w_write 0 True ^^ length ms) (w_subscribe None None example_waiting))) = []"
proof -
  have r: "reachable (new_hub 100 [97] None) example_waiting"
    unfolding example_waiting_def
    by (intro reachable.Step [OF _ world_step.Publish] reachable.Start)
  have "length (pending (w_hub example_waiting)) \<le> 500" "next_sub (w_hub example_waiting) = 0"
    by code_simp+
  with pending_handed_over [OF r] show ?thesis by auto
qed

end
