(* ===== verification/Client_State.thy ===== *)
theory Client_State
  imports Gtg_Prelude
begin

text \<open>
  The client's durable state, \<open>client/gtg_client/state.py\<close>: the cursor and the journal of
  processed message hashes.  A client is its state in memory with the contents of
  \<open>state.json\<close> (\<open>None\<close>: missing or unreadable).  A save writes a temporary file and renames
  it, so it either replaces the whole file or, with \<open>OSError\<close>, leaves it.
\<close>

definition JOURNAL_KEEP :: nat where "JOURNAL_KEEP = 500"

type_synonym state_file = "(pystr option \<times> int option \<times> pystr list) option"

record client =
  cs_stream :: "pystr option"
  cs_last :: "int option"
  cs_journal :: "pystr list"
  cs_set :: "pystr set"
  cs_file :: state_file

definition load_state :: "state_file \<Rightarrow> client" where
  "load_state f =
     (case f of
        Some (s, l, j) \<Rightarrow>
          \<lparr>cs_stream = s, cs_last = l, cs_journal = last_n JOURNAL_KEEP j,
           cs_set = set (last_n JOURNAL_KEEP j), cs_file = f\<rparr>
      | None \<Rightarrow> \<lparr>cs_stream = None, cs_last = None, cs_journal = [], cs_set = {}, cs_file = f\<rparr>)"

definition save_state :: "bool \<Rightarrow> client \<Rightarrow> (exn + unit) \<times> client" where
  "save_state ok c =
     (if ok then (Inr (), c\<lparr>cs_file := Some (cs_stream c, cs_last c, last_n JOURNAL_KEEP (cs_journal c))\<rparr>)
      else (Inl OSError, c))"

definition on_hello :: "bool \<Rightarrow> pystr option \<Rightarrow> client \<Rightarrow> (exn + unit) \<times> client" where
  "on_hello ok sid c =
     (if sid \<noteq> cs_stream c then save_state ok (c\<lparr>cs_stream := sid, cs_last := None\<rparr>) else (Inr (), c))"

definition seen :: "pystr \<Rightarrow> client \<Rightarrow> bool" where
  "seen h c \<longleftrightarrow> h \<in> cs_set c"

definition mark :: "bool \<Rightarrow> pystr \<Rightarrow> client \<Rightarrow> (exn + unit) \<times> client" where
  "mark ok h c =
     (if h \<in> cs_set c then (Inr (), c)
      else (let j = cs_journal c @ [h];
                s = insert h (cs_set c);
                c' = (if length j > JOURNAL_KEEP
                      then c\<lparr>cs_set := s - set (take (length j - JOURNAL_KEEP) j), cs_journal := last_n JOURNAL_KEEP j\<rparr>
                      else c\<lparr>cs_set := s, cs_journal := j\<rparr>)
            in save_state ok c'))"

definition advance :: "bool \<Rightarrow> int option \<Rightarrow> client \<Rightarrow> (exn + unit) \<times> client" where
  "advance ok i c = save_state ok (c\<lparr>cs_last := i\<rparr>)"

text \<open>A crash and a restart.\<close>

definition restart :: "client \<Rightarrow> client" where
  "restart c = load_state (cs_file c)"

section \<open>The journal's invariant\<close>

text \<open>The set is the journal's, the journal is within its bound and has no repetitions, and
  so has the one on disk.\<close>

definition client_ok :: "client \<Rightarrow> bool" where
  "client_ok c \<longleftrightarrow> cs_set c = set (cs_journal c) \<and> distinct (cs_journal c)
     \<and> length (cs_journal c) \<le> JOURNAL_KEEP
     \<and> (case cs_file c of None \<Rightarrow> True
        | Some (_, _, j) \<Rightarrow> distinct j \<and> length j \<le> JOURNAL_KEEP)"

definition file_journal :: "client \<Rightarrow> pystr list" where
  "file_journal c = (case cs_file c of None \<Rightarrow> [] | Some (_, _, j) \<Rightarrow> j)"

lemma load_ok: "(case f of None \<Rightarrow> True | Some (_, _, j) \<Rightarrow> distinct j \<and> length j \<le> JOURNAL_KEEP) \<Longrightarrow> client_ok (load_state f)"
  by (auto simp: client_ok_def load_state_def last_n_short split: option.splits)

lemma restart_ok: "client_ok c \<Longrightarrow> client_ok (restart c)"
  by (simp add: restart_def) (rule load_ok, simp add: client_ok_def)

lemma restart_journal: "client_ok c \<Longrightarrow> cs_journal (restart c) = file_journal c \<and> cs_file (restart c) = cs_file c"
  by (auto simp: client_ok_def restart_def load_state_def file_journal_def last_n_short split: option.splits)

lemma save_ok: "client_ok c \<Longrightarrow> client_ok (snd (save_state ok c))"
  by (simp add: save_state_def client_ok_def last_n_short)

lemma save_fields [simp]:
  "cs_journal (snd (save_state ok c)) = cs_journal c" "cs_set (snd (save_state ok c)) = cs_set c"
  "cs_stream (snd (save_state ok c)) = cs_stream c" "cs_last (snd (save_state ok c)) = cs_last c"
  by (simp_all add: save_state_def)

lemma save_journal:
  "client_ok c \<Longrightarrow> file_journal (snd (save_state ok c)) = (if ok then cs_journal c else file_journal c)"
  by (simp add: save_state_def file_journal_def client_ok_def last_n_short)

lemma fst_save: "fst (save_state ok c) = (if ok then Inr () else Inl OSError)"
  by (simp add: save_state_def)

text \<open>The state \<open>mark\<close> builds before it saves: the journal with the new hash, its oldest
  entries dropped.\<close>

definition marked :: "pystr \<Rightarrow> client \<Rightarrow> client" where
  "marked h c = c\<lparr>cs_set := set (last_n JOURNAL_KEEP (cs_journal c @ [h])),
     cs_journal := last_n JOURNAL_KEEP (cs_journal c @ [h])\<rparr>"

lemma mark_new:
  assumes "client_ok c" "h \<notin> cs_set c"
  shows "mark ok h c = save_state ok (marked h c)" "client_ok (marked h c)"
proof -
  let ?j = "cs_journal c @ [h]"
  have d: "distinct ?j" "cs_set c = set (cs_journal c)" using assms by (auto simp: client_ok_def)
  have "set ?j - set (take (length ?j - JOURNAL_KEEP) ?j) = set (last_n JOURNAL_KEEP ?j)"
  proof -
    have "?j = take (length ?j - JOURNAL_KEEP) ?j @ last_n JOURNAL_KEEP ?j"
      unfolding last_n_def by (rule append_take_drop_id [symmetric])
    then have "distinct (take (length ?j - JOURNAL_KEEP) ?j @ last_n JOURNAL_KEEP ?j)"
      "set ?j = set (take (length ?j - JOURNAL_KEEP) ?j) \<union> set (last_n JOURNAL_KEEP ?j)"
      using d(1) by (metis, metis set_append)
    then show ?thesis by auto
  qed
  moreover have "insert h (cs_set c) = set ?j" by (simp add: d(2))
  ultimately show "mark ok h c = save_state ok (marked h c)"
    using assms(2) by (simp add: mark_def marked_def Let_def last_n_short del: set_append)
  have "distinct (last_n JOURNAL_KEEP ?j)" unfolding last_n_def by (rule distinct_drop [OF d(1)])
  then show "client_ok (marked h c)" using assms(1) by (simp add: client_ok_def marked_def)
qed

lemma mark_ok: "client_ok c \<Longrightarrow> client_ok (snd (mark ok h c))"
  by (cases "h \<in> cs_set c") (simp_all add: mark_new save_ok, simp add: mark_def)

lemma hello_ok: "client_ok c \<Longrightarrow> client_ok (snd (on_hello ok sid c))"
  by (simp add: on_hello_def) (rule impI, rule save_ok, simp add: client_ok_def)

lemma advance_ok: "client_ok c \<Longrightarrow> client_ok (snd (advance ok i c))"
  by (simp add: advance_def) (rule save_ok, simp add: client_ok_def)

end
