(* ===== verification/Sse.thy ===== *)
theory Sse
  imports Gtg_Prelude
begin

text \<open>
  The event stream between server and client: \<open>_sse_write\<close> of
  \<open>server/gtg_server/api.py\<close> and the \<open>SSEReader\<close> of \<open>client/gtg_client/relay.py\<close>.  The
  payload is the text \<open>json.dumps\<close> produced, a parameter of the writer; what is used of it is
  that it is one line, neither starts nor ends with white space and is not empty.
\<close>

section \<open>Writing\<close>

definition sse_chunk :: "pystr \<Rightarrow> int option \<Rightarrow> pystr \<Rightarrow> pystr" where
  "sse_chunk ev event_id payload =
     str_of ''event: '' @ ev @ [10]
     @ (case event_id of Some i \<Rightarrow> str_of ''id: '' @ int_dec i @ [10] | None \<Rightarrow> [])
     @ str_of ''data: '' @ payload @ [10, 10]"

definition sse_write :: "pystr \<Rightarrow> int option \<Rightarrow> pystr \<Rightarrow> exn + pybytes" where
  "sse_write ev event_id payload = utf8_encode (sse_chunk ev event_id payload)"

definition heartbeat :: pybytes where
  "heartbeat = str_of '': hb'' @ [10, 10]"

section \<open>Reading\<close>

record sse_event =
  ev_kind :: pystr
  ev_data :: pystr
  ev_id :: "pystr option"

text \<open>\<open>response.readline()\<close> until it returns nothing: the lines with their newline.\<close>

fun read_lines :: "pybytes \<Rightarrow> pybytes list" where
  "read_lines [] = []"
| "read_lines (b # bs) =
     (if b = 10 then [10] # read_lines bs
      else (case read_lines bs of [] \<Rightarrow> [[b]] | l # ls \<Rightarrow> (b # l) # ls))"

definition sse_line :: "pybytes \<Rightarrow> pystr" where
  "sse_line raw = py_rstrip (\<lambda>c. c = 13 \<or> c = 10) (utf8_decode raw)"

record sse_state =
  cur_event :: "pystr option"
  cur_data :: "pystr list"
  cur_id :: "pystr option"

definition sse_empty :: sse_state where
  "sse_empty = \<lparr>cur_event = None, cur_data = [], cur_id = None\<rparr>"

definition text_given :: "pystr option \<Rightarrow> bool" where
  "text_given s \<longleftrightarrow> s \<noteq> None \<and> s \<noteq> Some []"

text \<open>One turn of the loop: the events it yields and the new accumulators.\<close>

definition sse_step :: "sse_state \<Rightarrow> pystr \<Rightarrow> sse_event list \<times> sse_state" where
  "sse_step st line =
     (if line = [] then
        (if text_given (cur_event st) \<or> cur_data st \<noteq> []
         then [\<lparr>ev_kind = (if text_given (cur_event st) then the (cur_event st) else str_of ''message''),
                ev_data = py_join [10] (cur_data st), ev_id = cur_id st\<rparr>]
         else [], sse_empty)
      else if py_startswith line (str_of '':'') then ([], st)
      else if py_startswith line (str_of ''event:'') then
        ([], st\<lparr>cur_event := Some (py_strip (drop 6 line))\<rparr>)
      else if py_startswith line (str_of ''data:'') then
        ([], st\<lparr>cur_data := cur_data st @ [py_lstrip py_isspace (drop 5 line)]\<rparr>)
      else if py_startswith line (str_of ''id:'') then
        ([], st\<lparr>cur_id := Some (py_strip (drop 3 line))\<rparr>)
      else ([], st))"

fun sse_loop :: "sse_state \<Rightarrow> pybytes list \<Rightarrow> sse_event list" where
  "sse_loop st [] = []"
| "sse_loop st (raw # raws) =
     (case sse_step st (sse_line raw) of (evs, st') \<Rightarrow> evs @ sse_loop st' raws)"

definition sse_events :: "pybytes \<Rightarrow> sse_event list" where
  "sse_events stream = sse_loop sse_empty (read_lines stream)"

section \<open>The reader on the writer's output\<close>

lemma read_lines_line: "10 \<notin> set l \<Longrightarrow> read_lines (l @ 10 # r) = (l @ [10]) # read_lines r"
  by (induction l) auto

lemma utf8_encode_append:
  "utf8_encode (a @ b) = bind_exn (utf8_encode a) (\<lambda>x. bind_exn (utf8_encode b) (\<lambda>y. Inr (x @ y)))"
proof (induction a)
  case Nil
  show ?case by (cases "utf8_encode b") simp_all
next
  case (Cons c a)
  then show ?case
    by (cases "utf8_char c"; cases "utf8_encode a"; cases "utf8_encode b") (simp_all add: utf8_encode_Cons)
qed

lemma utf8_newline: "utf8_encode [10] = Inr [10]"
  by code_simp

lemma utf8_char_no_newline: "utf8_char c = Inr b \<Longrightarrow> c \<noteq> 10 \<Longrightarrow> 10 \<notin> set b"
  by (auto simp: utf8_char_def split: if_splits)

lemma utf8_encode_no_newline: "utf8_encode s = Inr b \<Longrightarrow> 10 \<notin> set s \<Longrightarrow> 10 \<notin> set b"
  by (induction s arbitrary: b) (auto simp: utf8_encode_Cons bind_exn_eq_Inr dest: utf8_char_no_newline)

text \<open>A line of text, written and read.\<close>

lemma utf8_encode_line:
  assumes "utf8_encode (l @ 10 # r) = Inr b" "10 \<notin> set l"
  obtains x y where "utf8_encode l = Inr x" "utf8_encode r = Inr y" "b = x @ 10 # y" "10 \<notin> set x"
proof -
  from assms(1) obtain x y z where "utf8_encode l = Inr x" "utf8_encode [10] = Inr z" "utf8_encode r = Inr y"
    "b = x @ z @ y"
    using utf8_encode_append [of l "10 # r"] utf8_encode_append [of "[10]" r] by (auto simp: bind_exn_eq_Inr)
  with that [of x y] utf8_newline utf8_encode_no_newline [OF _ assms(2)] show thesis by simp
qed

lemma sse_line_encoded:
  assumes "utf8_encode l = Inr x" "l = [] \<or> last l \<noteq> 13 \<and> last l \<noteq> 10"
  shows "sse_line (x @ [10]) = l"
proof -
  have "utf8_encode (l @ [10]) = Inr (x @ [10])" by (simp add: utf8_encode_append assms(1) utf8_newline)
  then have "utf8_decode (x @ [10]) = l @ [10]" by (rule utf8_decode_encode)
  moreover have "dropWhile (\<lambda>c. c = 13 \<or> c = 10) (rev l) = rev l"
    using assms(2) by (cases "rev l") (auto simp: last_conv_nth hd_rev [symmetric])
  ultimately show ?thesis by (simp add: sse_line_def py_rstrip_def)
qed

text \<open>What the writer's arguments satisfy.\<close>

definition plain_text :: "pystr \<Rightarrow> bool" where
  "plain_text s \<longleftrightarrow> s \<noteq> [] \<and> 10 \<notin> set s \<and> \<not> py_isspace (hd s) \<and> \<not> py_isspace (last s)"

lemma plain_text_last: "plain_text s \<Longrightarrow> last s \<noteq> 13 \<and> last s \<noteq> 10"
  by (auto simp: plain_text_def py_isspace_def space_codes_def)

lemma plain_text_strip:
  assumes "plain_text s"
  shows "py_strip (32 # s) = s" "py_lstrip py_isspace (32 # s) = s"
proof -
  have "py_isspace 32" by code_simp
  then have "py_lstrip py_isspace (32 # s) = py_lstrip py_isspace s" by (simp add: py_lstrip_def)
  also have "\<dots> = s" using assms by (cases s) (simp_all add: plain_text_def py_lstrip_def)
  finally show l: "py_lstrip py_isspace (32 # s) = s" .
  have "py_strip s = s" using assms by (intro py_strip_id) (simp add: plain_text_def)
  moreover have "py_lstrip py_isspace s = s" using assms by (cases s) (simp_all add: plain_text_def py_lstrip_def)
  ultimately show "py_strip (32 # s) = s" using l by (simp add: py_strip_def)
qed

lemma plain_int: "plain_text (int_dec i)"
proof -
  have s: "\<not> py_isspace c \<and> c \<noteq> 10" if "c \<in> set (int_dec i)" for c
    using int_dec_chars [OF that] by (auto simp: ascii_digit_def py_isspace_def space_codes_def)
  have n: "int_dec i \<noteq> []" by (simp add: int_dec_def)
  then have "hd (int_dec i) \<in> set (int_dec i)" "last (int_dec i) \<in> set (int_dec i)" by simp_all
  with n s show ?thesis by (auto simp: plain_text_def)
qed

lemma field_names:
  "str_of ''event: '' = [101, 118, 101, 110, 116, 58, 32]" "str_of ''id: '' = [105, 100, 58, 32]"
  "str_of ''data: '' = [100, 97, 116, 97, 58, 32]" "str_of '':'' = [58]"
  "str_of ''event:'' = [101, 118, 101, 110, 116, 58]" "str_of ''id:'' = [105, 100, 58]"
  "str_of ''data:'' = [100, 97, 116, 97, 58]"
  by code_simp+

lemma sse_step_fields:
  "plain_text s \<Longrightarrow> sse_step st (str_of ''event: '' @ s) = ([], st\<lparr>cur_event := Some s\<rparr>)"
  "plain_text s \<Longrightarrow> sse_step st (str_of ''id: '' @ s) = ([], st\<lparr>cur_id := Some s\<rparr>)"
  "plain_text s \<Longrightarrow> sse_step st (str_of ''data: '' @ s) = ([], st\<lparr>cur_data := cur_data st @ [s]\<rparr>)"
  by (simp_all add: sse_step_def field_names py_startswith_def plain_text_strip)

lemma sse_loop_line:
  assumes "utf8_encode l = Inr x" "10 \<notin> set l" "l = [] \<or> last l \<noteq> 13"
  shows "sse_loop st (read_lines (x @ 10 # r)) =
    (case sse_step st l of (evs, st') \<Rightarrow> evs @ sse_loop st' (read_lines r))"
proof -
  have "10 \<notin> set x" by (rule utf8_encode_no_newline [OF assms(1,2)])
  moreover have "l = [] \<or> last l \<noteq> 13 \<and> last l \<noteq> 10" using assms(2,3) last_in_set by fastforce
  ultimately show ?thesis by (simp add: read_lines_line sse_line_encoded [OF assms(1)])
qed

lemma sse_write_events:
  assumes "sse_write ev event_id payload = Inr b" "plain_text ev" "plain_text payload"
  shows "sse_events (b @ r) = \<lparr>ev_kind = ev, ev_data = payload, ev_id = map_option int_dec event_id\<rparr> # sse_events r"
proof -
  let ?l1 = "str_of ''event: '' @ ev" and ?l3 = "str_of ''data: '' @ payload"
  have l1: "10 \<notin> set ?l1" "last ?l1 \<noteq> 13" and l3: "10 \<notin> set ?l3" "last ?l3 \<noteq> 13"
    using assms(2,3) plain_text_last by (auto simp: plain_text_def field_names)
  let ?tail = "?l3 @ 10 # [] @ 10 # []"
  let ?mid = "case event_id of Some i \<Rightarrow> (str_of ''id: '' @ int_dec i) @ 10 # ?tail | None \<Rightarrow> ?tail"
  have "sse_chunk ev event_id payload = ?l1 @ 10 # ?mid"
    by (simp add: sse_chunk_def split: option.split)
  with assms(1) have "utf8_encode (?l1 @ 10 # ?mid) = Inr b" by (simp only: sse_write_def)
  from utf8_encode_line [OF this l1(1)]
  obtain x1 m where x1: "utf8_encode ?l1 = Inr x1" "utf8_encode ?mid = Inr m" "b = x1 @ 10 # m" by blast
  let ?st1 = "sse_empty\<lparr>cur_event := Some ev\<rparr>"
  have one: "sse_events (b @ r) = sse_loop ?st1 (read_lines (m @ r))"
    using sse_loop_line [OF x1(1) l1(1), of sse_empty "m @ r"] l1(2) sse_step_fields(1) [OF assms(2)]
    by (simp add: sse_events_def x1(3))
  obtain t where t: "utf8_encode ?tail = Inr t"
    and two: "sse_loop ?st1 (read_lines (m @ r))
      = sse_loop (?st1\<lparr>cur_id := map_option int_dec event_id\<rparr>) (read_lines (t @ r))"
  proof (cases event_id)
    case None
    then show ?thesis using that [of m] x1(2) by (simp add: sse_empty_def)
  next
    case (Some i)
    let ?l2 = "str_of ''id: '' @ int_dec i"
    have l2: "10 \<notin> set ?l2" "last ?l2 \<noteq> 13"
      using plain_int [of i] plain_text_last [of "int_dec i"] by (auto simp: plain_text_def field_names)
    have "utf8_encode (?l2 @ 10 # ?tail) = Inr m" using x1(2) Some by simp
    from utf8_encode_line [OF this l2(1)]
    obtain x2 t where x2: "utf8_encode ?l2 = Inr x2" "utf8_encode ?tail = Inr t" "m = x2 @ 10 # t" by blast
    show ?thesis
      by (rule that [OF x2(2)])
        (use sse_loop_line [OF x2(1) l2(1), of ?st1 "t @ r"] l2(2) sse_step_fields(2) [OF plain_int, of ?st1 i]
         in \<open>simp add: x2(3) Some\<close>)
  qed
  from utf8_encode_line [OF t l3(1)]
  obtain x3 y where x3: "utf8_encode ?l3 = Inr x3" "utf8_encode ([] @ 10 # []) = Inr y" "t = x3 @ 10 # y" by blast
  have y: "y = [10]" using x3(2) utf8_newline by simp
  let ?st2 = "?st1\<lparr>cur_id := map_option int_dec event_id\<rparr>"
  have three: "sse_loop ?st2 (read_lines (t @ r))
      = sse_loop (?st2\<lparr>cur_data := [payload]\<rparr>) (read_lines ([] @ 10 # r))"
    using sse_loop_line [OF x3(1) l3(1), of ?st2 "[10] @ r"] l3(2) sse_step_fields(3) [OF assms(3), of ?st2]
    by (simp add: x3(3) y sse_empty_def)
  have "text_given (Some ev)" using assms(2) by (simp add: text_given_def plain_text_def)
  then have "sse_loop (?st2\<lparr>cur_data := [payload]\<rparr>) (read_lines ([] @ 10 # r))
      = \<lparr>ev_kind = ev, ev_data = payload, ev_id = map_option int_dec event_id\<rparr> # sse_events r"
    using sse_loop_line [of "[]" "[]" "?st2\<lparr>cur_data := [payload]\<rparr>" r]
    by (simp add: sse_step_def sse_events_def)
  with one two three show ?thesis by simp
qed

lemma heartbeat_events: "sse_events (heartbeat @ r) = sse_events r"
proof -
  have e: "heartbeat @ r = str_of '': hb'' @ 10 # [] @ 10 # r" by (simp add: heartbeat_def)
  have h: "utf8_encode (str_of '': hb'') = Inr (str_of '': hb'')" "10 \<notin> set (str_of '': hb'')"
    "str_of '': hb'' = [] \<or> last (str_of '': hb'') \<noteq> 13"
    "sse_step sse_empty (str_of '': hb'') = ([], sse_empty)" "sse_step sse_empty [] = ([], sse_empty)"
    by code_simp+
  have "sse_loop sse_empty (read_lines ([] @ 10 # r)) = sse_loop sse_empty (read_lines r)"
    using sse_loop_line [of "[]" "[]" sse_empty r] by (simp add: h(5))
  then show ?thesis
    unfolding sse_events_def e using sse_loop_line [OF h(1-3), of sse_empty "[] @ 10 # r"] by (simp only: h(4)) simp
qed

section \<open>A cut event\<close>

text \<open>A line that starts with the first letter of a field name is not blank, however it is
  cut.\<close>

definition field_start :: "pybytes \<Rightarrow> bool" where
  "field_start l \<longleftrightarrow> l \<noteq> [] \<and> hd l \<in> {100, 101, 105}"

lemma field_start_line: "field_start l \<Longrightarrow> fst (sse_step st (sse_line l)) = []"
proof -
  assume "field_start l"
  then obtain b r where l: "l = b # r" "b \<in> {100, 101, 105}" by (cases l) (auto simp: field_start_def)
  then have d: "utf8_decode l = b # utf8_decode r" by (auto simp: utf8_decode.simps(2))
  have "sse_line l \<noteq> []"
  proof
    assume "sse_line l = []"
    then have "\<forall>c \<in> set (utf8_decode l). c = 13 \<or> c = 10"
      by (simp add: sse_line_def py_rstrip_def)
    with d l(2) show False by auto
  qed
  then show ?thesis by (simp add: sse_step_def)
qed

lemma no_events: "list_all field_start ls \<Longrightarrow> sse_loop st ls = []"
proof (induction ls arbitrary: st)
  case (Cons l ls)
  obtain evs s where "sse_step st (sse_line l) = (evs, s)" by fastforce
  with Cons field_start_line [of l st] show ?case by simp
qed simp

lemma read_lines_hd: "read_lines (b # bs) \<noteq> [] \<and> hd (read_lines (b # bs)) \<noteq> [] \<and> hd (hd (read_lines (b # bs))) = b"
  by (auto split: list.split)

lemma field_start_tl:
  "list_all field_start (tl (read_lines (p @ s))) \<Longrightarrow> list_all field_start (tl (read_lines p))"
proof (induction p)
  case Nil
  then show ?case by simp
next
  case (Cons b p)
  show ?case
  proof (cases "b = 10")
    case True
    with Cons.prems have all: "list_all field_start (read_lines (p @ s))" by simp
    then have "list_all field_start (tl (read_lines p))"
      by (intro Cons.IH) (cases "read_lines (p @ s)"; simp)
    moreover have "field_start (hd (read_lines p))" if "p \<noteq> []"
    proof -
      from that obtain c q where p: "p = c # q" by (cases p) auto
      from all have "field_start (hd (read_lines (p @ s)))"
        using read_lines_hd [of c "q @ s"] by (cases "read_lines (p @ s)") (simp_all add: p)
      with read_lines_hd [of c "q @ s"] read_lines_hd [of c q] show ?thesis
        by (simp add: p field_start_def del: read_lines.simps)
    qed
    ultimately have "list_all field_start (read_lines p)"
      by (cases "read_lines p"; cases p) simp_all
    with True show ?thesis by simp
  next
    case False
    with Cons.prems have "list_all field_start (tl (read_lines (p @ s)))"
      by (auto split: list.splits)
    from Cons.IH [OF this] False show ?thesis by (auto split: list.split)
  qed
qed

lemma field_start_prefix:
  assumes "list_all field_start (read_lines (p @ s))"
  shows "list_all field_start (read_lines p)"
proof -
  have "list_all field_start (tl (read_lines (10 # p)))"
    by (rule field_start_tl [of "10 # p" s]) (simp add: assms)
  then show ?thesis by simp
qed

lemma sse_write_cut:
  assumes "sse_write ev event_id payload = Inr (frag @ c # lost)" "plain_text ev" "plain_text payload"
  shows "sse_events frag = []"
proof -
  let ?l1 = "str_of ''event: '' @ ev" and ?l3 = "str_of ''data: '' @ payload"
  let ?l2 = "\<lambda>i. str_of ''id: '' @ int_dec i"
  have n: "10 \<notin> set ?l1" "10 \<notin> set ?l3" "10 \<notin> set (?l2 i)" for i
    using assms(2,3) plain_int [of i] by (auto simp: plain_text_def field_names)
  let ?tail = "?l3 @ 10 # [] @ 10 # []"
  let ?mid = "case event_id of Some i \<Rightarrow> ?l2 i @ 10 # ?tail | None \<Rightarrow> ?tail"
  have "sse_chunk ev event_id payload = ?l1 @ 10 # ?mid"
    by (simp add: sse_chunk_def split: option.split)
  with assms(1) have "utf8_encode (?l1 @ 10 # ?mid) = Inr (frag @ c # lost)" by (simp only: sse_write_def)
  from utf8_encode_line [OF this n(1)]
  obtain x1 m where x1: "utf8_encode ?l1 = Inr x1" "utf8_encode ?mid = Inr m"
    "frag @ c # lost = x1 @ 10 # m" "10 \<notin> set x1" by blast
  have start: "field_start (x @ [10])"
    if "utf8_encode (b # bs @ l) = Inr x" "b \<in> {100, 101, 105}" for b bs l x
  proof -
    have "utf8_char b = Inr [b]" using that(2) by (auto simp: utf8_char_def is_surrogate_def)
    then show ?thesis using that by (auto simp: utf8_encode_Cons bind_exn_eq_Inr field_start_def)
  qed
  obtain m' where m: "m = m' @ [10]" "list_all field_start (read_lines m')"
  proof -
    have tail: "\<exists>t'. t = t' @ [10] \<and> list_all field_start (read_lines t')" if t: "utf8_encode ?tail = Inr t" for t
    proof -
      from utf8_encode_line [OF t n(2)]
      obtain x3 y where x3: "utf8_encode ?l3 = Inr x3" "utf8_encode ([] @ 10 # []) = Inr y"
        "t = x3 @ 10 # y" "10 \<notin> set x3" by blast
      have "field_start (x3 @ [10])" using x3(1) start [of 100 "[97, 116, 97, 58, 32]" payload x3] by (simp add: field_names)
      moreover have "y = [10]" using x3(2) utf8_newline by simp
      ultimately show ?thesis using x3(3,4) by (intro exI [of _ "x3 @ [10]"]) (simp add: read_lines_line)
    qed
    show thesis
    proof (cases event_id)
      case None
      with tail x1(2) that show ?thesis by auto
    next
      case (Some i)
      with x1(2) have "utf8_encode (?l2 i @ 10 # ?tail) = Inr m" by simp
      from utf8_encode_line [OF this n(3)]
      obtain x2 t where x2: "utf8_encode (?l2 i) = Inr x2" "utf8_encode ?tail = Inr t" "m = x2 @ 10 # t" "10 \<notin> set x2"
        by blast
      from tail [OF x2(2)] obtain t' where t': "t = t' @ [10]" "list_all field_start (read_lines t')" by blast
      have "field_start (x2 @ [10])" using x2(1) start [of 105 "[100, 58, 32]" "int_dec i" x2] by (simp add: field_names)
      then show ?thesis using that [of "x2 @ 10 # t'"] x2(3,4) t' by (simp add: read_lines_line)
    qed
  qed
  have "field_start (x1 @ [10])" using x1(1) start [of 101 "[118, 101, 110, 116, 58, 32]" ev x1] by (simp add: field_names)
  then have all: "list_all field_start (read_lines (x1 @ 10 # m'))" using m(2) x1(4) by (simp add: read_lines_line)
  have "butlast (frag @ c # lost) = frag @ butlast (c # lost)" by (simp add: butlast_append)
  moreover have "butlast (x1 @ 10 # m' @ [10]) = x1 @ 10 # m'" by (simp add: butlast_append)
  ultimately have "frag @ butlast (c # lost) = x1 @ 10 # m'" using x1(3) m(1) by simp
  with all have "list_all field_start (read_lines (frag @ butlast (c # lost)))" by (simp only:)
  then have "list_all field_start (read_lines frag)" by (rule field_start_prefix)
  then show ?thesis by (simp add: sse_events_def no_events)
qed

section \<open>Properties\<close>

text \<open>One item of a stream: an event the server writes, or a heartbeat.\<close>

datatype item = Item pystr "int option" pystr | Beat

fun write_items :: "item list \<Rightarrow> exn + pybytes" where
  "write_items [] = Inr []"
| "write_items (Beat # is) = bind_exn (write_items is) (\<lambda>r. Inr (heartbeat @ r))"
| "write_items (Item ev i p # is) =
     bind_exn (sse_write ev i p) (\<lambda>b. bind_exn (write_items is) (\<lambda>r. Inr (b @ r)))"

definition item_ok :: "item \<Rightarrow> bool" where
  "item_ok it \<longleftrightarrow> (case it of Beat \<Rightarrow> True | Item ev _ p \<Rightarrow> plain_text ev \<and> plain_text p)"

fun items_events :: "item list \<Rightarrow> sse_event list" where
  "items_events [] = []"
| "items_events (Beat # is) = items_events is"
| "items_events (Item ev i p # is) = \<lparr>ev_kind = ev, ev_data = p, ev_id = map_option int_dec i\<rparr> # items_events is"

text \<open>C18. The client reads what the server writes: any sequence of events and heartbeats with
  one-line payloads is parsed back into the same events with the same ids and payloads, in
  order, whatever characters they hold; the bytes of an event cut off by a lost connection
  yield none.\<close>

theorem sse_round_trip:
  assumes "write_items is = Inr b" "\<forall>it \<in> set is. item_ok it"
    and "sse_write ev i p = Inr (frag @ c # lost)" "plain_text ev" "plain_text p"
  shows "sse_events b = items_events is \<and> sse_events (b @ frag) = items_events is"
proof -
  have "sse_events (b @ r) = items_events is @ sse_events r" for r
    using assms(1,2)
  proof (induction "is" arbitrary: b rule: write_items.induct)
    case 1
    then show ?case by simp
  next
    case (2 "is")
    then obtain r' where "write_items is = Inr r'" "b = heartbeat @ r'" by (auto simp: bind_exn_eq_Inr)
    with 2 show ?case by (simp add: heartbeat_events)
  next
    case (3 ev i p "is")
    then obtain x r' where "sse_write ev i p = Inr x" "write_items is = Inr r'" "b = x @ r'"
      by (auto simp: bind_exn_eq_Inr)
    with 3 sse_write_events [of ev i p x "r' @ r"] show ?case by (simp add: item_ok_def)
  qed
  from this [of "[]"] this [of frag] sse_write_cut [OF assms(3-5)] show ?thesis
    by (simp add: sse_events_def)
qed

theorem sse_round_trip_witness:
  "sse_events (str_of ''event: message'' @ [10] @ str_of ''id: 7'' @ [10] @ str_of ''data: {}'' @ [10, 10]
      @ str_of ''event: gap'' @ [10]) = [\<lparr>ev_kind = str_of ''message'', ev_data = str_of ''{}'', ev_id = Some [55]\<rparr>]"
proof -
  have w: "write_items [Item (str_of ''message'') (Some 7) (str_of ''{}'')] = Inr (str_of ''event: message''
      @ [10] @ str_of ''id: 7'' @ [10] @ str_of ''data: {}'' @ [10, 10])"
    "sse_write (str_of ''gap'') None (str_of ''{}'')
      = Inr ((str_of ''event: gap'' @ [10]) @ 100 # str_of ''ata: {}'' @ [10, 10])"
    "\<forall>it \<in> set [Item (str_of ''message'') (Some 7) (str_of ''{}'')]. item_ok it"
    "plain_text (str_of ''gap'')" "plain_text (str_of ''{}'')"
    "items_events [Item (str_of ''message'') (Some 7) (str_of ''{}'')]
      = [\<lparr>ev_kind = str_of ''message'', ev_data = str_of ''{}'', ev_id = Some [55]\<rparr>]"
    by code_simp+
  from sse_round_trip [OF w(1,3,2,4,5)] w(6) show ?thesis by simp
qed

end
