(* ===== verification/Relay.thy ===== *)
theory Relay
  imports Client_State Sse Receive
begin

text \<open>
  The client's relay to Home Assistant, \<open>client/gtg_client/relay.py\<close>: the message hash, the
  POST with its retries, the handling of a stream's events with mark-then-fire, and runs of
  the relay with crashes and failing saves.  The outcome of every POST is given by the
  environment, together with whether the request reached Home Assistant; \<open>json.loads\<close> of the
  two payloads the relay reads is a parameter.
\<close>

section \<open>Messages\<close>

text \<open>The fields \<open>msg.get\<close> reads; \<open>None\<close> also stands for an absent key.\<close>

record cmsg =
  m_id :: "int option"
  m_sender :: "pystr option"
  m_scts :: "pystr option"
  m_text :: "pystr option"
  m_received :: "pystr option"
  m_partial :: bool
  m_hash :: "pystr option"

definition or_empty :: "pystr option \<Rightarrow> pystr" where
  "or_empty s = (case s of None \<Rightarrow> [] | Some x \<Rightarrow> x)"

definition client_hash :: "(pybytes \<Rightarrow> pystr) \<Rightarrow> cmsg \<Rightarrow> exn + pystr" where
  "client_hash digest msg =
     (if text_given (m_hash msg) then Inr (the (m_hash msg))
      else bind_exn (utf8_encode (or_empty (m_sender msg))) (\<lambda>a.
           bind_exn (utf8_encode (or_empty (m_scts msg))) (\<lambda>b.
           bind_exn (utf8_encode (or_empty (m_text msg))) (\<lambda>c.
             Inr (take 24 (digest (a @ [124] @ b @ [124] @ c @ [124])))))))"

section \<open>The POST to Home Assistant\<close>

text \<open>What \<open>_post\<close> does: returns, or raises one of the exceptions \<open>fire\<close> tells apart.
  \<open>URLError\<close> with an \<open>OSError\<close> as its reason is \<open>UrlOs\<close>; \<open>HTTPError\<close> and other reasons are
  \<open>UrlOther\<close>; other \<open>OSError\<close>s, such as a timeout while reading, are \<open>OsErr\<close>.\<close>

datatype outcome = Accepted | Refused | Reset | UrlOs | UrlOther | OsErr | OtherErr

datatype fire_result = Fired | Ambiguous | FireRaised | Retrying

text \<open>\<open>fire\<close> against the outcomes of its attempts, each with whether the request arrived: the
  result and how often the event arrived.  Without further outcomes it is still retrying.\<close>

fun fire :: "(outcome \<times> bool) list \<Rightarrow> fire_result \<times> nat" where
  "fire [] = (Retrying, 0)"
| "fire ((res, arrived) # outs) =
     (let n = (if arrived then 1 else 0)
      in case res of
           Accepted \<Rightarrow> (Fired, n)
         | Refused \<Rightarrow> (case fire outs of (r, k) \<Rightarrow> (r, n + k))
         | Reset \<Rightarrow> (case fire outs of (r, k) \<Rightarrow> (r, n + k))
         | UrlOs \<Rightarrow> (case fire outs of (r, k) \<Rightarrow> (r, n + k))
         | UrlOther \<Rightarrow> (Ambiguous, n)
         | OsErr \<Rightarrow> (Ambiguous, n)
         | OtherErr \<Rightarrow> (FireRaised, n))"

definition retried :: "outcome \<Rightarrow> bool" where
  "retried res \<longleftrightarrow> res \<in> {Refused, Reset, UrlOs}"

text \<open>The rule of the retry policy: what is retried never arrived.\<close>

definition honest :: "(outcome \<times> bool) list \<Rightarrow> bool" where
  "honest outs \<longleftrightarrow> (\<forall>(res, arrived) \<in> set outs. retried res \<longrightarrow> \<not> arrived)"

section \<open>Handling a message\<close>

datatype handled = Skipped | Delivered | Dropped | Raised exn | Stuck

text \<open>\<open>_handle_event\<close> for a message: \<open>okm\<close> and \<open>oka\<close> tell whether the two saves succeed.  The
  number is how often the event arrived.\<close>

definition then_advance :: "bool \<Rightarrow> cmsg \<Rightarrow> handled \<Rightarrow> nat \<Rightarrow> client \<Rightarrow> handled \<times> nat \<times> client" where
  "then_advance oka msg res n c =
     (case advance oka (m_id msg) c of
        (Inl e, c') \<Rightarrow> (Raised e, n, c')
      | (Inr _, c') \<Rightarrow> (res, n, c'))"

definition handle_message ::
  "(pybytes \<Rightarrow> pystr) \<Rightarrow> (outcome \<times> bool) list \<Rightarrow> bool \<Rightarrow> bool \<Rightarrow> cmsg \<Rightarrow> client \<Rightarrow> handled \<times> nat \<times> client" where
  "handle_message digest outs okm oka msg c =
     (case client_hash digest msg of
        Inl e \<Rightarrow> (Raised e, 0, c)
      | Inr h \<Rightarrow>
          (if seen h c then then_advance oka msg Skipped 0 c
           else (case mark okm h c of
               (Inl e, c1) \<Rightarrow> (Raised e, 0, c1)
             | (Inr _, c1) \<Rightarrow>
                 (case fire outs of
                    (Fired, n) \<Rightarrow> then_advance oka msg Delivered n c1
                  | (Ambiguous, n) \<Rightarrow> then_advance oka msg Dropped n c1
                  | (FireRaised, n) \<Rightarrow> (Raised OtherError, n, c1)
                  | (Retrying, n) \<Rightarrow> (Stuck, n, c1)))))"

section \<open>Handling an event\<close>

datatype relay_action = NoAction | GapFired | Message handled nat

definition handle_event ::
  "(pybytes \<Rightarrow> pystr) \<Rightarrow> (pystr \<Rightarrow> exn + pystr option) \<Rightarrow> (pystr \<Rightarrow> exn + cmsg) \<Rightarrow>
     (outcome \<times> bool) list \<Rightarrow> bool \<Rightarrow> bool \<Rightarrow> sse_event \<Rightarrow> client \<Rightarrow> (exn + relay_action) \<times> client" where
  "handle_event digest load_hello load_msg outs okm oka ev c =
     (if ev_kind ev = str_of ''hello'' then
        (case load_hello (ev_data ev) of
           Inl e \<Rightarrow> (Inl e, c)
         | Inr sid \<Rightarrow> (case on_hello okm sid c of (r, c') \<Rightarrow> (bind_exn r (\<lambda>_. Inr NoAction), c')))
      else if ev_kind ev = str_of ''gap'' then (Inr GapFired, c)
      else if ev_kind ev = str_of ''health'' then (Inr NoAction, c)
      else if ev_kind ev \<noteq> str_of ''message'' then (Inr NoAction, c)
      else (case load_msg (ev_data ev) of
          Inl e \<Rightarrow> (Inl e, c)
        | Inr msg \<Rightarrow> (case handle_message digest outs okm oka msg c of
            (Raised e, n, c') \<Rightarrow> (Inl e, c')
          | (r, n, c') \<Rightarrow> (Inr (Message r n), c'))))"

text \<open>The headers of the subscription: the cursor, when the client has one.\<close>

definition subscribe_cursor :: "client \<Rightarrow> (int \<times> pystr) option" where
  "subscribe_cursor c =
     (case (cs_last c, cs_stream c) of
        (Some i, Some s) \<Rightarrow> if s \<noteq> [] then Some (i, s) else None
      | _ \<Rightarrow> None)"

text \<open>The reconnect delay of \<open>run_inbound\<close>, in milliseconds, after a lost connection.\<close>

definition next_backoff :: "nat \<Rightarrow> nat" where
  "next_backoff b = min (b * 2) 120000"

section \<open>Runs\<close>

text \<open>What can happen to a running client: a message is handled; the process dies after the
  journal was written, or after the event was fired, and is started again; it is started
  again in between; a stream greets it.\<close>

datatype relay_op =
    Handle cmsg "(outcome \<times> bool) list" bool bool
  | CrashMarked cmsg
  | CrashFired cmsg "(outcome \<times> bool) list"
  | Restart
  | Hello "pystr option" bool

definition crash_fired :: "(pybytes \<Rightarrow> pystr) \<Rightarrow> (outcome \<times> bool) list \<Rightarrow> cmsg \<Rightarrow> client \<Rightarrow> nat \<times> client" where
  "crash_fired digest outs msg c =
     (case client_hash digest msg of
        Inl e \<Rightarrow> (0, restart c)
      | Inr h \<Rightarrow> (if seen h c then (0, restart c) else (snd (fire outs), restart (snd (mark True h c)))))"

definition relay_step :: "(pybytes \<Rightarrow> pystr) \<Rightarrow> relay_op \<Rightarrow> client \<Rightarrow> nat \<times> client" where
  "relay_step digest op c =
     (case op of
        Handle msg outs okm oka \<Rightarrow>
          (case handle_message digest outs okm oka msg c of
             (Stuck, n, c') \<Rightarrow> (n, restart c')
           | (_, n, c') \<Rightarrow> (n, c'))
      | CrashMarked msg \<Rightarrow> (0, snd (crash_fired digest [] msg c))
      | CrashFired msg outs \<Rightarrow> crash_fired digest outs msg c
      | Restart \<Rightarrow> (0, restart c)
      | Hello sid ok \<Rightarrow> (0, snd (on_hello ok sid c)))"

definition op_message :: "relay_op \<Rightarrow> cmsg option" where
  "op_message op =
     (case op of Handle msg _ _ _ \<Rightarrow> Some msg | CrashMarked msg \<Rightarrow> Some msg | CrashFired msg _ \<Rightarrow> Some msg
      | _ \<Rightarrow> None)"

definition op_honest :: "relay_op \<Rightarrow> bool" where
  "op_honest op = (case op of Handle _ outs _ _ \<Rightarrow> honest outs | CrashFired _ outs \<Rightarrow> honest outs | _ \<Rightarrow> True)"

definition op_hash :: "(pybytes \<Rightarrow> pystr) \<Rightarrow> relay_op \<Rightarrow> pystr option" where
  "op_hash digest op =
     (case op_message op of
        None \<Rightarrow> None
      | Some msg \<Rightarrow> (case client_hash digest msg of Inl _ \<Rightarrow> None | Inr h \<Rightarrow> Some h))"

text \<open>The hashes of the events that arrived at Home Assistant, in order.\<close>

fun relay_run :: "(pybytes \<Rightarrow> pystr) \<Rightarrow> relay_op list \<Rightarrow> client \<Rightarrow> pystr list" where
  "relay_run digest [] c = []"
| "relay_run digest (op # ops) c =
     (case relay_step digest op c of
        (n, c') \<Rightarrow> (case op_hash digest op of Some h \<Rightarrow> replicate n h | None \<Rightarrow> []) @ relay_run digest ops c')"

section \<open>At most once\<close>

lemma fire_honest: "honest outs \<Longrightarrow> snd (fire outs) \<le> 1 \<and> (0 < snd (fire outs) \<longrightarrow> fst (fire outs) \<noteq> Retrying)"
proof (induction outs)
  case Nil
  then show ?case by simp
next
  case (Cons o1 outs)
  obtain res arrived where o1: "o1 = (res, arrived)" by (cases o1)
  have "honest outs" using Cons.prems by (simp add: honest_def)
  moreover have "retried res \<longrightarrow> \<not> arrived" using Cons.prems by (simp add: honest_def o1)
  ultimately show ?case
    using Cons.IH by (cases res; cases "fire outs") (auto simp: o1 retried_def)
qed

text \<open>How a step changes the two journals, when at most 500 hashes are about.\<close>

definition room :: "pystr set \<Rightarrow> client \<Rightarrow> bool" where
  "room H c \<longleftrightarrow> client_ok c \<and> set (cs_journal c) \<subseteq> H \<and> set (file_journal c) \<subseteq> H \<and> finite H \<and> card H \<le> JOURNAL_KEEP"

definition kept :: "client \<Rightarrow> pystr set" where
  "kept c = set (cs_journal c) \<inter> set (file_journal c)"

lemma room_save:
  assumes "room H c"
  shows "room H (snd (save_state ok c))" "kept c \<subseteq> kept (snd (save_state ok c))"
    "ok \<Longrightarrow> kept (snd (save_state ok c)) = set (cs_journal c)"
  using assms save_ok [of c ok] by (auto simp: room_def kept_def save_journal)

lemma room_last: "room H c \<Longrightarrow> room H (c\<lparr>cs_last := i\<rparr>)" "kept (c\<lparr>cs_last := i\<rparr>) = kept c"
  by (simp_all add: room_def client_ok_def file_journal_def kept_def)

lemma room_advance:
  assumes "room H c"
  shows "room H (snd (advance ok i c))" "kept c \<subseteq> kept (snd (advance ok i c))"
  using room_save [OF room_last(1) [OF assms, of i], of ok]
  by (simp_all add: advance_def room_last(2))

lemma room_hello:
  assumes "room H c"
  shows "room H (snd (on_hello ok sid c))" "kept c \<subseteq> kept (snd (on_hello ok sid c))"
proof -
  let ?c = "c\<lparr>cs_stream := sid, cs_last := None\<rparr>"
  have "room H ?c" "kept ?c = kept c" using assms by (simp_all add: room_def client_ok_def file_journal_def kept_def)
  with room_save [of H ?c ok] assms show "room H (snd (on_hello ok sid c))" "kept c \<subseteq> kept (snd (on_hello ok sid c))"
    by (simp_all add: on_hello_def)
qed

lemma room_restart:
  assumes "room H c"
  shows "room H (restart c)" "kept c \<subseteq> kept (restart c)"
proof -
  have ok: "client_ok c" using assms by (simp add: room_def)
  note r = restart_journal [OF ok]
  have "file_journal (restart c) = file_journal c" using r by (simp add: file_journal_def)
  with r assms restart_ok [OF ok] show "room H (restart c)" "kept c \<subseteq> kept (restart c)"
    by (auto simp: room_def kept_def)
qed

lemma room_mark:
  assumes "room H c" "h \<in> H" "h \<notin> cs_set c"
  shows "room H (snd (mark ok h c))" "kept c \<subseteq> kept (snd (mark ok h c))"
    "ok \<Longrightarrow> h \<in> kept (snd (mark ok h c))" "fst (mark ok h c) = (if ok then Inr () else Inl OSError)"
proof -
  have ok: "client_ok c" using assms(1) by (simp add: room_def)
  note m = mark_new [OF ok assms(3)]
  have "distinct (cs_journal c @ [h])" "set (cs_journal c @ [h]) \<subseteq> H"
    using ok assms by (auto simp: client_ok_def room_def)
  then have "length (cs_journal c @ [h]) \<le> card H"
    using assms(1) by (metis distinct_card card_mono room_def)
  then have j: "cs_journal (marked h c) = cs_journal c @ [h]"
    using assms(1) by (simp add: marked_def last_n_short room_def)
  have f: "file_journal (marked h c) = file_journal c" by (simp add: marked_def file_journal_def)
  have r: "room H (marked h c)" using assms(1,2) m(2) by (auto simp: room_def j f)
  have k: "kept c \<subseteq> kept (marked h c)" by (auto simp: kept_def j f)
  show "room H (snd (mark ok h c))" using room_save(1) [OF r] by (simp add: m(1))
  show "kept c \<subseteq> kept (snd (mark ok h c))" using room_save(2) [OF r, of ok] k by (simp add: m(1))
  show "ok \<Longrightarrow> h \<in> kept (snd (mark ok h c))" using room_save(3) [OF r] by (simp add: m(1) j)
  show "fst (mark ok h c) = (if ok then Inr () else Inl OSError)" by (simp add: m(1) fst_save)
qed

text \<open>The contract of a step: the hashes in both journals stay there; an arrival is of a hash
  that was in neither, is in both afterwards, and is single.\<close>

definition step_ok :: "pystr set \<Rightarrow> client \<Rightarrow> pystr option \<Rightarrow> nat \<Rightarrow> client \<Rightarrow> bool" where
  "step_ok H c oh n c' \<longleftrightarrow> room H c' \<and> kept c \<subseteq> kept c' \<and> n \<le> 1
     \<and> (0 < n \<longrightarrow> (\<exists>h. oh = Some h \<and> h \<notin> set (cs_journal c) \<and> h \<in> kept c'))"

lemma then_advance_ok:
  "then_advance oka msg res n c = (res', n', c') \<Longrightarrow> n' = n \<and> c' = snd (advance oka (m_id msg) c)"
  by (auto simp: then_advance_def split: prod.splits sum.splits)

lemma handle_message_ok:
  assumes "room H c" "honest outs" "client_hash digest msg = Inr h" "h \<in> H"
    and "handle_message digest outs okm oka msg c = (res, n, c')"
  shows "step_ok H c (Some h) n c'"
proof (cases "h \<in> cs_set c")
  case True
  with assms(3,5) have "n = 0" "c' = snd (advance oka (m_id msg) c)"
    using then_advance_ok by (fastforce simp: handle_message_def seen_def)+
  with room_advance [OF assms(1)] show ?thesis by (simp add: step_ok_def)
next
  case False
  note m = room_mark [OF assms(1,4) False, of okm]
  obtain r1 c1 where mk: "mark okm h c = (r1, c1)" by fastforce
  have new: "h \<notin> set (cs_journal c)" using False assms(1) by (simp add: room_def client_ok_def)
  show ?thesis
  proof (cases okm)
    case False
    with m(4) mk have "r1 = Inl OSError" by simp
    with assms(3,5) \<open>h \<notin> cs_set c\<close> mk have "n = 0" "c' = c1" by (simp_all add: handle_message_def seen_def)
    with m(1,2) mk show ?thesis by (simp add: step_ok_def)
  next
    case True
    with m(4) mk have r1: "r1 = Inr ()" by simp
    obtain fr k where f: "fire outs = (fr, k)" by fastforce
    have "n = k \<and> (c' = c1 \<or> c' = snd (advance oka (m_id msg) c1))"
      using assms(3,5) \<open>h \<notin> cs_set c\<close> mk r1 f then_advance_ok
      by (cases fr) (fastforce simp: handle_message_def seen_def)+
    moreover have "k \<le> 1" using fire_honest [OF assms(2)] f by simp
    moreover have "room H c1" "kept c \<subseteq> kept c1" "h \<in> kept c1" using m mk True by auto
    ultimately show ?thesis using room_advance [of H c1 oka "m_id msg"] new by (auto simp: step_ok_def)
  qed
qed

lemma relay_step_ok:
  assumes "room H c" "op_honest op" "\<And>h. op_hash digest op = Some h \<Longrightarrow> h \<in> H"
    and "relay_step digest op c = (n, c')"
  shows "step_ok H c (op_hash digest op) n c'"
proof -
  have crash: "step_ok H c (op_hash digest op) k d"
    if "crash_fired digest outs msg c = (k, d)" "op_message op = Some msg" "honest outs" for outs msg k d
  proof (cases "client_hash digest msg")
    case (Inl e)
    with that room_restart [OF assms(1)] show ?thesis by (auto simp: crash_fired_def step_ok_def)
  next
    case (Inr h)
    then have oh: "op_hash digest op = Some h" using that(2) by (simp add: op_hash_def)
    show ?thesis
    proof (cases "h \<in> cs_set c")
      case True
      with Inr that room_restart [OF assms(1)] show ?thesis
        by (auto simp: crash_fired_def seen_def step_ok_def)
    next
      case False
      note m = room_mark [OF assms(1) assms(3) [OF oh] False, of True]
      note r = room_restart [OF m(1)]
      have "h \<notin> set (cs_journal c)" using False assms(1) by (simp add: room_def client_ok_def)
      with Inr that False m r fire_honest [OF that(3)] oh show ?thesis
        by (auto simp: crash_fired_def seen_def step_ok_def)
    qed
  qed
  show ?thesis
  proof (cases op)
    case (Handle msg outs okm oka)
    obtain res k d where h: "handle_message digest outs okm oka msg c = (res, k, d)" by (metis prod_cases3)
    have nd: "n = k \<and> (c' = d \<or> c' = restart d)"
      using assms(4) Handle h by (auto simp: relay_step_def split: handled.splits)
    show ?thesis
    proof (cases "client_hash digest msg")
      case (Inl e)
      with h have "k = 0" "d = c" by (simp_all add: handle_message_def)
      with nd assms(1) room_restart [OF assms(1)] show ?thesis by (auto simp: step_ok_def)
    next
      case (Inr x)
      then have oh: "op_hash digest op = Some x" using Handle by (simp add: op_hash_def op_message_def)
      have "honest outs" using assms(2) Handle by (simp add: op_honest_def)
      from handle_message_ok [OF assms(1) this Inr assms(3) [OF oh] h]
      have s: "step_ok H c (op_hash digest op) k d" by (simp add: oh)
      then have "room H d" by (simp add: step_ok_def)
      from s room_restart [OF this] nd show ?thesis by (fastforce simp: step_ok_def)
    qed
  next
    case (CrashMarked msg)
    obtain k d where cf: "crash_fired digest [] msg c = (k, d)" by fastforce
    have "step_ok H c (op_hash digest op) k d"
      by (rule crash [OF cf]) (simp_all add: CrashMarked op_message_def honest_def)
    then show ?thesis using assms(4) cf by (simp add: CrashMarked relay_step_def step_ok_def)
  next
    case (CrashFired msg outs)
    then show ?thesis
      using assms(2,4) by (intro crash [of outs msg]) (simp_all add: relay_step_def op_message_def op_honest_def)
  next
    case Restart
    with assms(4) room_restart [OF assms(1)] show ?thesis by (auto simp: relay_step_def step_ok_def)
  next
    case (Hello sid ok)
    with assms(4) room_hello [OF assms(1), of ok sid] show ?thesis by (simp add: relay_step_def step_ok_def)
  qed
qed

lemma relay_run_distinct:
  assumes "room H c" "\<forall>op \<in> set ops. op_honest op" "\<And>op h. op \<in> set ops \<Longrightarrow> op_hash digest op = Some h \<Longrightarrow> h \<in> H"
  shows "distinct (relay_run digest ops c) \<and> set (relay_run digest ops c) \<inter> kept c = {}"
  using assms
proof (induction ops arbitrary: c)
  case Nil
  then show ?case by simp
next
  case (Cons op ops)
  obtain n c' where s: "relay_step digest op c = (n, c')" by fastforce
  have "step_ok H c (op_hash digest op) n c'"
    by (rule relay_step_ok [OF Cons.prems(1) _ _ s]) (use Cons.prems in auto)
  then have st: "room H c'" "kept c \<subseteq> kept c'" "n \<le> 1"
    "0 < n \<Longrightarrow> \<exists>h. op_hash digest op = Some h \<and> h \<notin> set (cs_journal c) \<and> h \<in> kept c'"
    by (auto simp: step_ok_def)
  have ih: "distinct (relay_run digest ops c')" "set (relay_run digest ops c') \<inter> kept c' = {}"
    using Cons.IH [OF st(1)] Cons.prems(2,3) by auto
  show ?case
  proof (cases "n = 0")
    case True
    with s ih st(2) show ?thesis by (auto split: option.split)
  next
    case False
    with st(3,4) obtain h where h: "n = 1" "op_hash digest op = Some h" "h \<notin> set (cs_journal c)" "h \<in> kept c'"
      by auto
    then have "h \<notin> kept c" by (simp add: kept_def)
    with h s ih st(2) show ?thesis by auto
  qed
qed

section \<open>Properties\<close>

text \<open>C19. At most once: in every run of the client (messages handled again after reconnects,
  saves that fail, crashes between the journal and the POST or right after it, restarts)
  every message hash fires at most one event at Home Assistant, and none that an earlier run
  had journaled, as long as at most 500 hashes are about and only requests that never
  arrived are retried.\<close>

theorem relay_at_most_once:
  assumes "distinct j" "length j \<le> JOURNAL_KEEP" "\<forall>op \<in> set ops. op_honest op"
    and "card (set j \<union> {h. \<exists>op \<in> set ops. op_hash digest op = Some h}) \<le> JOURNAL_KEEP"
  shows "distinct (relay_run digest ops (load_state (Some (s, l, j))))
    \<and> set (relay_run digest ops (load_state (Some (s, l, j)))) \<inter> set j = {}"
proof -
  let ?H = "set j \<union> {h. \<exists>op \<in> set ops. op_hash digest op = Some h}"
  let ?c = "load_state (Some (s, l, j))"
  have "{h. \<exists>op \<in> set ops. op_hash digest op = Some h} = (\<lambda>op. the (op_hash digest op)) ` {op \<in> set ops. op_hash digest op \<noteq> None}"
    by force
  then have "finite ?H" by simp
  moreover have "client_ok ?c" using assms(1,2) by (intro load_ok) simp
  ultimately have "room ?H ?c"
    using assms(2,4) by (auto simp: room_def load_state_def file_journal_def last_n_short)
  from relay_run_distinct [OF this assms(3), of digest] show ?thesis
    using assms(2) by (auto simp: kept_def load_state_def file_journal_def last_n_short)
qed

definition example_cmsg :: cmsg where
  "example_cmsg = \<lparr>m_id = Some 4, m_sender = Some (str_of ''+15550100''), m_scts = None,
     m_text = Some (str_of ''hi''), m_received = None, m_partial = False, m_hash = Some (str_of ''ab'')\<rparr>"

definition example_ops :: "relay_op list" where
  "example_ops = [Handle example_cmsg [(Accepted, True)] True False, Restart,
     Handle example_cmsg [(Accepted, True)] True True]"

theorem relay_at_most_once_witness:
  "relay_run id example_ops (load_state (Some (None, None, []))) = [str_of ''ab'']
    \<and> distinct (relay_run id example_ops (load_state (Some (None, None, []))))"
proof -
  have h: "\<forall>op \<in> set example_ops. op_honest op"
    by (simp add: example_ops_def op_honest_def honest_def retried_def)
  have "{h. \<exists>op \<in> set example_ops. op_hash id op = Some h} \<subseteq> {str_of ''ab''}"
    by (auto simp: example_ops_def op_hash_def op_message_def client_hash_def example_cmsg_def text_given_def
        str_of_def)
  then have "card (set [] \<union> {h. \<exists>op \<in> set example_ops. op_hash id op = Some h}) \<le> 1"
    using card_mono [of "{str_of ''ab''}"] by fastforce
  then have c: "card (set [] \<union> {h. \<exists>op \<in> set example_ops. op_hash id op = Some h}) \<le> JOURNAL_KEEP"
    by (simp add: JOURNAL_KEEP_def)
  have "relay_run id example_ops (load_state (Some (None, None, []))) = [str_of ''ab'']" by code_simp
  with relay_at_most_once [OF _ _ h c, of None None] show ?thesis by simp
qed

lemma fire_accepted:
  "\<forall>(res, arrived) \<in> set tries. retried res \<and> \<not> arrived \<Longrightarrow> fire (tries @ [(Accepted, True)]) = (Fired, 1)"
proof (induction tries)
  case (Cons t tries)
  then show ?case by (cases "fst t") (auto simp: retried_def split: prod.splits)
qed simp

text \<open>A message with a working disk and a Home Assistant that accepts after any number of refused
  attempts: what a message that is not in the journal, and one that is, leaves behind.\<close>

lemma handle_new:
  assumes "client_ok c" "client_hash digest msg = Inr h" "\<not> seen h c" "fire outs = (Fired, 1)"
  shows "\<exists>c'. handle_message digest outs True True msg c = (Delivered, 1, c')
    \<and> h \<in> set (file_journal c') \<and> seen h c' \<and> cs_last c' = m_id msg \<and> cs_stream c' = cs_stream c \<and> client_ok c'"
proof -
  have n: "h \<notin> cs_set c" using assms(3) by (simp add: seen_def)
  note m = mark_new [OF assms(1) n]
  let ?c1 = "snd (save_state True (marked h c))"
  let ?c2 = "snd (save_state True (?c1\<lparr>cs_last := m_id msg\<rparr>))"
  have "handle_message digest outs True True msg c = (Delivered, 1, ?c2)"
    using assms(2) n
    by (simp add: handle_message_def seen_def m(1) assms(4) then_advance_def advance_def save_state_def)
  moreover have "client_ok ?c1" by (rule save_ok [OF m(2)])
  then have "client_ok (?c1\<lparr>cs_last := m_id msg\<rparr>)" by (simp add: client_ok_def)
  moreover from this have "client_ok ?c2" by (rule save_ok)
  moreover have "h \<in> set (last_n JOURNAL_KEEP (cs_journal c @ [h]))"
    by (auto simp: last_n_def JOURNAL_KEEP_def)
  then have "h \<in> set (cs_journal (marked h c))" "h \<in> cs_set (marked h c)" by (simp_all add: marked_def)
  moreover have "cs_stream (marked h c) = cs_stream c" by (simp add: marked_def)
  ultimately show ?thesis
    using save_journal [of "?c1\<lparr>cs_last := m_id msg\<rparr>" True] by (simp add: seen_def)
qed

lemma handle_seen:
  assumes "client_ok c" "client_hash digest msg = Inr h" "seen h c"
  shows "\<exists>c'. handle_message digest outs True True msg c = (Skipped, 0, c')
    \<and> cs_last c' = m_id msg \<and> cs_stream c' = cs_stream c \<and> client_ok c'"
  using assms advance_ok [OF assms(1), of True "m_id msg"]
  by (simp add: handle_message_def then_advance_def advance_def save_state_def)

text \<open>Delivery: a message that is not in the journal, with a working disk and a Home
  Assistant that accepts after any number of refused attempts, is delivered once; its hash is
  in the journal on disk and the cursor is its id.\<close>

theorem relay_delivers:
  assumes "client_ok c" "client_hash digest msg = Inr h" "\<not> seen h c"
    and "\<forall>(res, arrived) \<in> set tries. retried res \<and> \<not> arrived"
  shows "\<exists>c'. handle_message digest (tries @ [(Accepted, True)]) True True msg c = (Delivered, 1, c')
    \<and> h \<in> set (file_journal c') \<and> seen h c' \<and> cs_last c' = m_id msg \<and> client_ok c'"
  using handle_new [OF assms(1-3) fire_accepted [OF assms(4)]] by blast

theorem relay_delivers_witness:
  "\<exists>c'. handle_message id ([(Refused, False), (UrlOs, False)] @ [(Accepted, True)]) True True example_cmsg
      (load_state None) = (Delivered, 1, c') \<and> cs_last c' = Some 4"
proof -
  have "client_ok (load_state None)" by (rule load_ok) simp
  moreover have "client_hash id example_cmsg = Inr (str_of ''ab'')" "\<not> seen (str_of ''ab'') (load_state None)"
    by code_simp+
  ultimately show ?thesis
    using relay_delivers [of "load_state None" id example_cmsg "str_of ''ab''" "[(Refused, False), (UrlOs, False)]"]
    by (auto simp: retried_def example_cmsg_def)
qed

text \<open>The retry rule is not kept: \<open>ConnectionResetError\<close> is retried, and so is every
  \<open>URLError\<close> around an \<open>OSError\<close>, although the connection may break after the request was
  received; \<open>k\<close> such failures make the event arrive \<open>k + 1\<close> times.\<close>

theorem retry_duplicates:
  "fire (replicate k (Reset, True) @ [(Accepted, True)]) = (Fired, k + 1)
    \<and> fire (replicate k (UrlOs, True) @ [(Accepted, True)]) = (Fired, k + 1)"
  by (induction k) simp_all

text \<open>The client's own hash is not the server's: for a message without a server hash the
  client digests the server's bytes with one more separator.\<close>

theorem client_hash_differs:
  assumes "utf8_encode a = Inr x" "utf8_encode ts = Inr y" "utf8_encode body = Inr z"
    and "m_sender msg = Some a" "m_scts msg = Some ts" "m_text msg = Some body" "m_hash msg = None"
  shows "\<exists>b. message_hash digest a ts body = Inr (take 24 (digest b))
    \<and> client_hash digest msg = Inr (take 24 (digest (b @ [124])))"
  using assms
  by (intro exI [of _ "x @ [124] @ y @ [124] @ z"])
    (simp add: message_hash_def client_hash_def or_empty_def text_given_def)

theorem client_hash_differs_witness:
  "message_hash id [97] [98] [99] \<noteq> client_hash id \<lparr>m_id = None, m_sender = Some [97], m_scts = Some [98],
     m_text = Some [99], m_received = None, m_partial = False, m_hash = None\<rparr>"
proof -
  have "utf8_encode [97] = Inr [97]" "utf8_encode [98] = Inr [98]" "utf8_encode [99] = Inr [99]" by code_simp+
  from client_hash_differs [OF this, of "\<lparr>m_id = None, m_sender = Some [97], m_scts = Some [98],
     m_text = Some [99], m_received = None, m_partial = False, m_hash = None\<rparr>" id]
  have "\<exists>b. message_hash id [97] [98] [99] = Inr (take 24 b) \<and> client_hash id \<lparr>m_id = None, m_sender = Some [97],
      m_scts = Some [98], m_text = Some [99], m_received = None, m_partial = False, m_hash = None\<rparr>
      = Inr (take 24 (b @ [124]))" by simp
  moreover have "message_hash id [97] [98] [99] = Inr [97, 124, 98, 124, 99]" by code_simp
  ultimately show ?thesis
    by (auto dest!: arg_cong [where f = length])
qed

end
