(* ===== verification/Outbox.thy ===== *)
theory Outbox
  imports File_Store
begin

text \<open>
  Outbound records, \<open>server/gtg_server/outbox.py\<close>: the ordered dictionary of records with
  its bound, the idempotency keys, and the write-through to the store.  The store is the one
  the hub uses as well, so it is passed to \<open>update\<close> and returned.  Records are handed out
  by value, as the code's \<open>dict(...)\<close> copies are.
\<close>

section \<open>States of a record\<close>

text \<open>\<open>queued -> sending -> submitted | failed | submission_unknown\<close>: ordered by rank, the
  last three are terminal.\<close>

instantiation out_state :: linorder
begin

definition rank_out_state :: "out_state \<Rightarrow> nat" where
  "rank_out_state s = (case s of Queued \<Rightarrow> 0 | Sending \<Rightarrow> 1 | Submitted \<Rightarrow> 2 | Failed \<Rightarrow> 3 | SubmissionUnknown \<Rightarrow> 4)"

definition less_eq_out_state :: "out_state \<Rightarrow> out_state \<Rightarrow> bool" where
  "less_eq_out_state a b \<longleftrightarrow> rank_out_state a \<le> rank_out_state b"

definition less_out_state :: "out_state \<Rightarrow> out_state \<Rightarrow> bool" where
  "less_out_state a b \<longleftrightarrow> rank_out_state a < rank_out_state b"

instance
  by standard (auto simp: less_eq_out_state_def less_out_state_def rank_out_state_def split: out_state.splits)

end

definition terminal :: "out_state \<Rightarrow> bool" where
  "terminal s \<longleftrightarrow> s \<in> {Submitted, Failed, SubmissionUnknown}"

lemma terminal_rank: "terminal s \<longleftrightarrow> Sending < s"
  by (cases s) (simp_all add: terminal_def less_out_state_def rank_out_state_def)

section \<open>The outbox\<close>

record outbox =
  records :: "(int \<times> out_record) list"
  idem :: "(pystr \<times> int) list"
  ob_next :: int
  keep :: nat

definition new_outbox :: "nat \<Rightarrow> outbox" where
  "new_outbox n = \<lparr>records = [], idem = [], ob_next = 1, keep = n\<rparr>"

definition truthy :: "pystr option \<Rightarrow> bool" where
  "truthy k \<longleftrightarrow> k \<noteq> None \<and> k \<noteq> Some []"

text \<open>The bound: the oldest records go, with their keys.\<close>

fun evict :: "nat \<Rightarrow> (int \<times> out_record) list \<Rightarrow> (pystr \<times> int) list \<Rightarrow>
    (int \<times> out_record) list \<times> (pystr \<times> int) list" where
  "evict n [] ks = ([], ks)"
| "evict n ((i, r) # rs) ks =
     (if length rs + 1 > n
      then evict n rs (if truthy (idem_key r) then AList.delete (the (idem_key r)) ks else ks)
      else ((i, r) # rs, ks))"

definition new_record ::
  "int \<Rightarrow> pystr list \<Rightarrow> pystr \<Rightarrow> pystr option \<Rightarrow> pystr option \<Rightarrow> pystr \<Rightarrow> out_record" where
  "new_record i to body key own now =
     \<lparr>out_id = i, out_to = to, out_text = body, out_state = Queued, out_refs = [], out_error = None,
      created_at = now, idem_key = key, owner = own, updated_at = None\<rparr>"

definition create ::
  "pystr list \<Rightarrow> pystr \<Rightarrow> pystr option \<Rightarrow> pystr option \<Rightarrow> pystr \<Rightarrow> outbox \<Rightarrow>
     (exn + out_record \<times> bool) \<times> outbox" where
  "create to body key own now ob =
     (if truthy key \<and> the key \<in> fst ` set (idem ob)
      then ((case map_of (records ob) (the (map_of (idem ob) (the key))) of
               Some r \<Rightarrow> Inr (r, False)
             | None \<Rightarrow> Inl KeyError), ob)
      else (let r = new_record (ob_next ob) to body key own now;
                ks = (if truthy key then AList.update (the key) (out_id r) (idem ob) else idem ob);
                (rs', ks') = evict (keep ob) (AList.update (out_id r) r (records ob)) ks
            in (Inr (r, True),
                ob\<lparr>records := rs', idem := ks', ob_next := ob_next ob + 1\<rparr>)))"

text \<open>\<open>update(rec_id, **fields)\<close>, the fields as a function on records; an \<open>OSError\<close> of the
  store is swallowed.\<close>

definition update ::
  "nat \<Rightarrow> int \<Rightarrow> (out_record \<Rightarrow> out_record) \<Rightarrow> pystr \<Rightarrow> store option \<Rightarrow> outbox \<Rightarrow>
     out_record option \<times> store option \<times> outbox" where
  "update k rec_id chg now st ob =
     (case map_of (records ob) rec_id of
        None \<Rightarrow> (None, st, ob)
      | Some r \<Rightarrow>
          (let snapshot = (chg r)\<lparr>updated_at := Some now\<rparr>
           in (Some snapshot,
               map_option (\<lambda>s. snd (save_outbound k s snapshot)) st,
               ob\<lparr>records := AList.update rec_id snapshot (records ob)\<rparr>)))"

definition get_record :: "int \<Rightarrow> outbox \<Rightarrow> out_record option" where
  "get_record rec_id ob = map_of (records ob) rec_id"

record public_record =
  pub_id :: int
  pub_to :: "pystr list"
  pub_state :: out_state
  pub_refs :: "int option list"
  pub_error :: "pystr option"
  pub_created :: pystr

definition public :: "out_record \<Rightarrow> public_record" where
  "public r = \<lparr>pub_id = out_id r, pub_to = out_to r, pub_state = out_state r, pub_refs = out_refs r,
     pub_error = out_error r, pub_created = created_at r\<rparr>"

section \<open>The outbox's invariant\<close>

text \<open>Ids ascend below the counter and key their record; a key names the record that carries
  it, and every record with a key is named; there are at most \<open>keep\<close> records.\<close>

definition outbox_ok :: "outbox \<Rightarrow> bool" where
  "outbox_ok ob \<longleftrightarrow> sorted_wrt (<) (map fst (records ob))
     \<and> (\<forall>(i, r) \<in> set (records ob). out_id r = i \<and> i < ob_next ob)
     \<and> distinct (map fst (idem ob))
     \<and> (\<forall>k i. map_of (idem ob) k = Some i \<longleftrightarrow>
           k \<noteq> [] \<and> (\<exists>r. map_of (records ob) i = Some r \<and> idem_key r = Some k))
     \<and> length (records ob) \<le> keep ob"

lemma new_outbox_ok: "outbox_ok (new_outbox n)"
  by (simp add: outbox_ok_def new_outbox_def)

definition keys_match :: "(int \<times> out_record) list \<Rightarrow> (pystr \<times> int) list \<Rightarrow> bool" where
  "keys_match rs ks \<longleftrightarrow> (\<forall>k i. map_of ks k = Some i \<longleftrightarrow>
     k \<noteq> [] \<and> (\<exists>r. map_of rs i = Some r \<and> idem_key r = Some k))"

lemma keys_match_unique:
  assumes "keys_match rs ks" "map_of rs i = Some r" "map_of rs j = Some r'"
    "idem_key r = Some k" "idem_key r' = Some k" "k \<noteq> []"
  shows "i = j"
proof -
  have "map_of ks k = Some i" "map_of ks k = Some j" using assms unfolding keys_match_def by blast+
  then show ?thesis by simp
qed

lemma keys_match_drop:
  assumes "keys_match ((i, r) # rs) ks" "distinct (map fst ((i, r) # rs))"
  shows "keys_match rs (if truthy (idem_key r) then AList.delete (the (idem_key r)) ks else ks)"
proof -
  have i: "map_of rs i = None" using assms(2) by (simp add: map_of_eq_None_iff)
  have "map_of (if truthy (idem_key r) then AList.delete (the (idem_key r)) ks else ks) k = Some j
    \<longleftrightarrow> k \<noteq> [] \<and> (\<exists>r'. map_of rs j = Some r' \<and> idem_key r' = Some k)" for k j
  proof (cases "k \<noteq> [] \<and> idem_key r = Some k")
    case True
    have "\<not> (\<exists>r'. map_of rs j = Some r' \<and> idem_key r' = Some k)"
    proof
      assume "\<exists>r'. map_of rs j = Some r' \<and> idem_key r' = Some k"
      then obtain r' where r': "map_of rs j = Some r'" "idem_key r' = Some k" by blast
      with i have "j \<noteq> i" by auto
      with r' have "map_of ((i, r) # rs) j = Some r'" by simp
      with keys_match_unique [OF assms(1), of i r j r' k] True r' \<open>j \<noteq> i\<close> show False by simp
    qed
    with True show ?thesis by (simp add: truthy_def map_of_delete)
  next
    case False
    have "map_of ks k = Some j \<longleftrightarrow> k \<noteq> [] \<and> (\<exists>r'. map_of ((i, r) # rs) j = Some r' \<and> idem_key r' = Some k)"
      using assms(1) unfolding keys_match_def by blast
    also have "\<dots> \<longleftrightarrow> k \<noteq> [] \<and> (\<exists>r'. map_of rs j = Some r' \<and> idem_key r' = Some k)"
      using False i by auto
    finally show ?thesis using False by (auto simp: truthy_def map_of_delete)
  qed
  then show ?thesis unfolding keys_match_def by blast
qed

lemma evict_spec:
  assumes "keys_match rs ks" "distinct (map fst rs)" "distinct (map fst ks)"
  shows "fst (evict n rs ks) = drop (length rs - n) rs \<and> keys_match (fst (evict n rs ks)) (snd (evict n rs ks))
    \<and> distinct (map fst (snd (evict n rs ks)))"
  using assms
proof (induction n rs ks rule: evict.induct)
  case (1 n ks)
  then show ?case by simp
next
  case (2 n i r rs ks)
  show ?case
  proof (cases "length rs + 1 > n")
    case True
    let ?ks = "if truthy (idem_key r) then AList.delete (the (idem_key r)) ks else ks"
    have km: "keys_match rs ?ks" by (rule keys_match_drop [OF 2(2,3)])
    have dk: "distinct (map fst ?ks)" using 2(4) by (simp add: AList.distinct_delete)
    have dr: "distinct (map fst rs)" using 2(3) by simp
    have ev: "evict n ((i, r) # rs) ks = evict n rs ?ks"
      unfolding evict.simps if_P [OF True] ..
    have len: "drop (length ((i, r) # rs) - n) ((i, r) # rs) = drop (length rs - n) rs"
      using True by (simp add: Suc_diff_le)
    show ?thesis unfolding ev len by (rule 2(1) [OF True km dr dk])
  next
    case False
    then show ?thesis using 2(2-4) by simp
  qed
qed

lemma outbox_okD:
  assumes "outbox_ok ob"
  shows "sorted_wrt (<) (map fst (records ob))" "distinct (map fst (records ob))"
    "(i, r) \<in> set (records ob) \<Longrightarrow> out_id r = i \<and> i < ob_next ob"
    "distinct (map fst (idem ob))" "keys_match (records ob) (idem ob)" "length (records ob) \<le> keep ob"
  using assms by (auto simp: outbox_ok_def keys_match_def strict_sorted_iff)

lemma key_known_iff: "k \<in> fst ` set ks \<longleftrightarrow> (\<exists>i. map_of ks k = Some i)"
  by (metis domIff dom_map_of_conv_image_fst not_None_eq)

lemma create_fresh:
  fixes body now :: pystr and own :: "pystr option" and to :: "pystr list"
  assumes "\<not> (truthy key \<and> the key \<in> fst ` set (idem ob))"
  defines "r \<equiv> new_record (ob_next ob) to body key own now"
  shows "create to body key own now ob =
    (Inr (r, True), ob\<lparr>
       records := fst (evict (keep ob) (AList.update (ob_next ob) r (records ob))
         (if truthy key then AList.update (the key) (ob_next ob) (idem ob) else idem ob)),
       idem := snd (evict (keep ob) (AList.update (ob_next ob) r (records ob))
         (if truthy key then AList.update (the key) (ob_next ob) (idem ob) else idem ob)),
       ob_next := ob_next ob + 1\<rparr>)"
  using assms(1) by (simp add: create_def r_def Let_def new_record_def split: prod.split)

lemma keys_match_add:
  assumes "outbox_ok ob" "\<not> (truthy key \<and> the key \<in> fst ` set (idem ob))" "idem_key r = key"
  shows "keys_match (records ob @ [(ob_next ob, r)])
    (if truthy key then AList.update (the key) (ob_next ob) (idem ob) else idem ob)"
proof -
  note ok = outbox_okD [OF assms(1)]
  have n: "map_of (records ob) (ob_next ob) = None"
    using ok(3) by (force simp: map_of_eq_None_iff)
  let ?rs = "records ob @ [(ob_next ob, r)]"
  have at: "map_of ?rs i = (if i = ob_next ob then Some r else map_of (records ob) i)" for i
    using n by (auto simp: map_add_def split: option.split)
  have "map_of (if truthy key then AList.update (the key) (ob_next ob) (idem ob) else idem ob) k = Some i
    \<longleftrightarrow> k \<noteq> [] \<and> (\<exists>r'. map_of ?rs i = Some r' \<and> idem_key r' = Some k)" for k i
  proof (cases "k \<noteq> [] \<and> key = Some k")
    case True
    then have "k \<notin> fst ` set (idem ob)" using assms(2) by (auto simp: truthy_def)
    then have "map_of (idem ob) k = None" by (simp add: map_of_eq_None_iff)
    then have "\<not> (\<exists>i r'. map_of (records ob) i = Some r' \<and> idem_key r' = Some k)"
      using ok(5) True unfolding keys_match_def by (metis option.distinct(1))
    then show ?thesis using True assms(3) unfolding at by (auto simp: map_of_update truthy_def)
  next
    case False
    have "map_of (idem ob) k = Some i \<longleftrightarrow> k \<noteq> [] \<and> (\<exists>r'. map_of (records ob) i = Some r' \<and> idem_key r' = Some k)"
      using ok(5) unfolding keys_match_def by blast
    then show ?thesis using False assms(3) n unfolding at by (auto simp: map_of_update truthy_def)
  qed
  then show ?thesis unfolding keys_match_def by blast
qed

lemma create_spec:
  fixes body now :: pystr and own :: "pystr option" and to :: "pystr list"
  assumes "outbox_ok ob" "\<not> (truthy key \<and> the key \<in> fst ` set (idem ob))"
  defines "r \<equiv> new_record (ob_next ob) to body key own now"
  shows "fst (create to body key own now ob) = Inr (r, True)"
    "records (snd (create to body key own now ob)) = last_n (keep ob) (records ob @ [(ob_next ob, r)])"
    "outbox_ok (snd (create to body key own now ob))"
    "ob_next (snd (create to body key own now ob)) = ob_next ob + 1"
    "keep (snd (create to body key own now ob)) = keep ob"
proof -
  note ok = outbox_okD [OF assms(1)]
  note c = create_fresh [OF assms(2), of to body own now]
  let ?rs = "records ob @ [(ob_next ob, r)]"
  let ?ks = "if truthy key then AList.update (the key) (ob_next ob) (idem ob) else idem ob"
  have "ob_next ob \<notin> fst ` set (records ob)" using ok(3) by force
  then have u: "AList.update (ob_next ob) r (records ob) = ?rs" by (rule update_fresh)
  have srt: "sorted_wrt (<) (map fst ?rs)" using ok(1,3) by (force simp: sorted_wrt_append)
  then have d: "distinct (map fst ?rs)" by (simp add: strict_sorted_iff)
  have km: "keys_match ?rs ?ks" by (rule keys_match_add [OF assms(1,2)]) (simp add: r_def new_record_def)
  have dk: "distinct (map fst ?ks)" using ok(4) by (simp add: AList.distinct_update)
  note e = evict_spec [OF km d dk, of "keep ob"]
  show "fst (create to body key own now ob) = Inr (r, True)" by (simp add: c r_def)
  have ev: "records (snd (create to body key own now ob)) = fst (evict (keep ob) ?rs ?ks)"
    "idem (snd (create to body key own now ob)) = snd (evict (keep ob) ?rs ?ks)"
    unfolding c r_def [symmetric] u by simp_all
  show rs: "records (snd (create to body key own now ob)) = last_n (keep ob) ?rs"
    using e unfolding ev last_n_def by blast
  show "ob_next (snd (create to body key own now ob)) = ob_next ob + 1"
    "keep (snd (create to body key own now ob)) = keep ob" by (simp_all add: c)
  have "sorted_wrt (<) (map fst (last_n (keep ob) ?rs))" using srt by (simp only: map_last_n sorted_wrt_last_n)
  moreover have "out_id x = i \<and> i < ob_next ob + 1" if "(i, x) \<in> set (last_n (keep ob) ?rs)" for i x
  proof -
    have "(i, x) \<in> set ?rs" using that set_last_n by fast
    then show ?thesis using ok(3) by (force simp: r_def new_record_def)
  qed
  moreover have "keys_match (last_n (keep ob) ?rs) (idem (snd (create to body key own now ob)))"
    "distinct (map fst (idem (snd (create to body key own now ob))))"
    using e unfolding ev rs [symmetric] by blast+
  ultimately show "outbox_ok (snd (create to body key own now ob))"
    unfolding outbox_ok_def keys_match_def [symmetric] rs by (simp add: c) blast
qed

lemma create_replay:
  assumes "outbox_ok ob" "truthy key" "the key \<in> fst ` set (idem ob)"
  obtains i r where "create to body key own now ob = (Inr (r, False), ob)"
    "map_of (records ob) i = Some r" "idem_key r = key" "out_id r = i"
proof -
  from assms(3) obtain i where i: "map_of (idem ob) (the key) = Some i" by (auto simp: key_known_iff)
  with outbox_okD(5) [OF assms(1)] obtain r where r: "map_of (records ob) i = Some r" "idem_key r = Some (the key)"
    unfolding keys_match_def by blast
  show thesis
  proof (rule that)
    show "create to body key own now ob = (Inr (r, False), ob)" using assms(2,3) i r by (simp add: create_def)
    show "map_of (records ob) i = Some r" by (rule r(1))
    show "idem_key r = key" using r(2) assms(2) by (auto simp: truthy_def)
    show "out_id r = i" using outbox_okD(3) [OF assms(1) map_of_SomeD [OF r(1)]] by simp
  qed
qed

lemma create_ok:
  assumes "outbox_ok ob"
  shows "outbox_ok (snd (create to body key own now ob))"
proof (cases "truthy key \<and> the key \<in> fst ` set (idem ob)")
  case True
  then obtain i r where "create to body key own now ob = (Inr (r, False), ob)"
    using create_replay [OF assms] by blast
  with assms show ?thesis by simp
next
  case False
  then show ?thesis by (rule create_spec(3) [OF assms])
qed

text \<open>Updates may change state, error and references, not the identity.\<close>

definition keeps_identity :: "(out_record \<Rightarrow> out_record) \<Rightarrow> bool" where
  "keeps_identity f \<longleftrightarrow> (\<forall>r. out_id (f r) = out_id r \<and> idem_key (f r) = idem_key r)"

lemma update_ok:
  assumes "outbox_ok ob" "keeps_identity f"
  shows "outbox_ok (snd (snd (update k i f now st ob)))"
proof (cases "map_of (records ob) i")
  case None
  then show ?thesis using assms(1) by (simp add: update_def)
next
  case (Some r)
  note ok = outbox_okD [OF assms(1)]
  let ?r = "(f r)\<lparr>updated_at := Some now\<rparr>"
  let ?rs = "AList.update i ?r (records ob)"
  have same: "out_id ?r = out_id r" "idem_key ?r = idem_key r"
    using assms(2) by (simp_all add: keeps_identity_def)
  have fsts: "map fst ?rs = map fst (records ob)" by (rule map_fst_update_known [OF Some])
  have at: "map_of ?rs j = (if j = i then Some ?r else map_of (records ob) j)" for j
    by (simp add: map_of_update)
  have "keys_match ?rs (idem ob)"
    using ok(5) Some same unfolding keys_match_def at by auto
  moreover have "out_id x = j \<and> j < ob_next ob" if "(j, x) \<in> set ?rs" for j x
    using that set_update_subset [of i ?r "records ob"] ok(3) map_of_SomeD [OF Some] same by fastforce
  moreover have "length ?rs \<le> keep ob" using ok(6) fsts by (metis length_map)
  ultimately show ?thesis
    using ok(1,4) fsts Some by (simp add: update_def outbox_ok_def keys_match_def Let_def) blast
qed

section \<open>Runs of the outbox\<close>

datatype outbox_op =
    Create "pystr list" pystr "pystr option" "pystr option" pystr
  | Update int "out_record \<Rightarrow> out_record" pystr

fun run_outbox :: "outbox_op list \<Rightarrow> outbox \<Rightarrow> outbox" where
  "run_outbox [] ob = ob"
| "run_outbox (Create to body key own now # ops) ob = run_outbox ops (snd (create to body key own now ob))"
| "run_outbox (Update i f now # ops) ob = run_outbox ops (snd (snd (update 3 i f now None ob)))"

definition op_ok :: "outbox_op \<Rightarrow> bool" where
  "op_ok op \<longleftrightarrow> (case op of Update _ f _ \<Rightarrow> keeps_identity f | _ \<Rightarrow> True)"

definition is_create :: "outbox_op \<Rightarrow> bool" where
  "is_create op \<longleftrightarrow> (case op of Create _ _ _ _ _ \<Rightarrow> True | _ \<Rightarrow> False)"

lemma run_outbox_ok: "outbox_ok ob \<Longrightarrow> \<forall>op \<in> set ops. op_ok op \<Longrightarrow> outbox_ok (run_outbox ops ob)"
  by (induction ops ob rule: run_outbox.induct) (auto simp: create_ok update_ok op_ok_def)

lemma last_n_keeps:
  assumes "sorted_wrt (<) (map fst xs)" "(i, v) \<in> set xs" "\<forall>x \<in> set (map fst xs). x < m" "m - i \<le> int n"
  shows "(i, v) \<in> set (last_n n xs)"
proof (rule ccontr)
  assume "(i, v) \<notin> set (last_n n xs)"
  moreover have split: "xs = take (length xs - n) xs @ last_n n xs" by (simp add: last_n_def)
  ultimately have iv: "(i, v) \<in> set (take (length xs - n) xs)" using assms(2) by (metis Un_iff set_append)
  then have ne: "length xs > n" by (cases "length xs > n") simp_all
  have i: "i \<in> set (map fst (take (length xs - n) xs))" using iv by force
  have s: "sorted_wrt (<) (map fst (take (length xs - n) xs) @ map fst (last_n n xs))"
    using assms(1) split by (metis map_append)
  then have gt: "\<forall>x \<in> set (map fst (last_n n xs)). i < x" using i by (auto simp: sorted_wrt_append)
  moreover have "distinct (map fst (last_n n xs))" using s by (simp add: sorted_wrt_append strict_sorted_iff)
  then have "card (set (map fst (last_n n xs))) = n" using distinct_card [of "map fst (last_n n xs)"] ne by simp
  moreover have "set (map fst (last_n n xs)) \<subseteq> {i<..<m}"
    using gt assms(3) set_last_n by fastforce
  then have "card (set (map fst (last_n n xs))) \<le> card {i<..<m}" by (intro card_mono) simp_all
  ultimately have "n \<le> nat (m - (i + 1))" by (simp only: card_greaterThanLessThan_int)
  moreover have "i < m" using i assms(3) set_take_subset by fastforce
  ultimately show False using assms(4) by (simp add: le_nat_iff)
qed

text \<open>A record stays while fewer than \<open>keep\<close> records were created after it.\<close>

lemma record_stays:
  assumes "outbox_ok ob" "map_of (records ob) i = Some r" "\<forall>op \<in> set ops. op_ok op"
    and "ob_next ob - i + int (length (filter is_create ops)) \<le> int (keep ob)"
  shows "\<exists>r'. map_of (records (run_outbox ops ob)) i = Some r' \<and> idem_key r' = idem_key r"
  using assms
proof (induction ops ob arbitrary: r rule: run_outbox.induct)
  case (1 ob)
  then show ?case by simp
next
  case (2 to body key own now ops ob)
  let ?ob = "snd (create to body key own now ob)"
  show ?case
  proof (cases "truthy key \<and> the key \<in> fst ` set (idem ob)")
    case True
    then obtain j x where "create to body key own now ob = (Inr (x, False), ob)"
      using create_replay [OF 2(2)] by blast
    with 2 show ?thesis by (simp add: is_create_def)
  next
    case False
    let ?r = "new_record (ob_next ob) to body key own now"
    note c = create_spec [OF 2(2) False, of to body own now]
    note ok = outbox_okD [OF 2(2)]
    have "(i, r) \<in> set (last_n (keep ob) (records ob @ [(ob_next ob, ?r)]))"
      using ok(1,3) map_of_SomeD [OF 2(3)] 2(5)
      by (intro last_n_keeps [where m = "ob_next ob + 1"]) (force simp: sorted_wrt_append is_create_def)+
    then have "map_of (records ?ob) i = Some r"
      using map_of_eq_Some_iff [OF outbox_okD(2) [OF c(3)]] by (simp add: c(2))
    with 2(1) [OF c(3), of r] 2(4,5) c(4,5) show ?thesis by (simp add: is_create_def)
  qed
next
  case (3 j f now ops ob)
  let ?ob = "snd (snd (update 3 j f now None ob))"
  have f: "keeps_identity f" using 3(4) by (simp add: op_ok_def)
  have ok: "outbox_ok ?ob" by (rule update_ok [OF 3(2) f])
  have "\<exists>r'. map_of (records ?ob) i = Some r' \<and> idem_key r' = idem_key r"
    using 3(3) f by (auto simp: update_def map_of_update keeps_identity_def Let_def split: option.splits)
  then obtain r' where r': "map_of (records ?ob) i = Some r'" "idem_key r' = idem_key r" by blast
  have "ob_next ?ob = ob_next ob" "keep ?ob = keep ob" by (simp_all add: update_def Let_def split: option.split)
  with 3(1) [OF ok r'(1)] 3(4,5) r'(2) show ?case by (simp add: is_create_def)
qed

section \<open>The outbox on disk\<close>

text \<open>Writing through to the store leaves its inbound side alone.\<close>

lemma save_outbound_inbound:
  "inbox (store_disk (snd (save_outbound k st r))) = inbox (store_disk st)"
  "root_dir (store_disk (snd (save_outbound k st r))) = root_dir (store_disk st)"
  "in_index (snd (save_outbound k st r)) = in_index st"
  "store_next (snd (save_outbound k st r)) = store_next st"
  "store_stream (snd (save_outbound k st r)) = store_stream st"
  by (simp_all add: save_outbound_def Let_def)

lemma save_outbound_ok [frame_simps]:
  "store_ok (snd (save_outbound k st r)) \<longleftrightarrow> store_ok st"
  "inbox_log (snd (save_outbound k st r)) = inbox_log st"
  by (simp_all add: store_ok_def inbox_log_def save_outbound_inbound)

section \<open>Properties\<close>

text \<open>C10. Idempotency: after a record was created under a key, a second create with that key
  returns the record of the first and queues nothing, whatever was created or updated in
  between, as long as fewer than \<open>keep\<close> records were created.  The caller of the second
  create does not matter: its recipients, text and owner are ignored.\<close>

theorem idempotent_create:
  assumes "outbox_ok ob" "key \<noteq> []" "fst (create to body (Some key) own now ob) = Inr (r, True)"
    and "\<forall>op \<in> set ops. op_ok op" "length (filter is_create ops) < keep ob"
  defines "ob' \<equiv> run_outbox ops (snd (create to body (Some key) own now ob))"
  shows "\<exists>r'. create to' body' (Some key) own' now' ob' = (Inr (r', False), ob')
    \<and> out_id r' = out_id r \<and> idem_key r' = Some key"
proof -
  let ?ob = "snd (create to body (Some key) own now ob)"
  have fresh: "\<not> (truthy (Some key) \<and> the (Some key) \<in> fst ` set (idem ob))"
  proof
    assume "truthy (Some key) \<and> the (Some key) \<in> fst ` set (idem ob)"
    then obtain i x where "create to body (Some key) own now ob = (Inr (x, False), ob)"
      using create_replay [OF assms(1)] by blast
    with assms(3) show False by simp
  qed
  note c = create_spec [OF assms(1) fresh, of to body own now]
  have r: "r = new_record (ob_next ob) to body (Some key) own now" using assms(3) c(1) by simp
  have "0 < keep ob" using assms(5) by simp
  then have "(ob_next ob, r) \<in> set (records ?ob)"
    by (simp add: c(2) r last_n_def Suc_diff_le)
  then have "map_of (records ?ob) (ob_next ob) = Some r"
    using map_of_eq_Some_iff [OF outbox_okD(2) [OF c(3)]] by blast
  then obtain x where x: "map_of (records ob') (ob_next ob) = Some x" "idem_key x = Some key"
    using record_stays [OF c(3) _ assms(4), of "ob_next ob" r] assms(5) c(4,5)
    by (auto simp: ob'_def r new_record_def)
  have ok: "outbox_ok ob'" unfolding ob'_def by (rule run_outbox_ok [OF c(3) assms(4)])
  have "map_of (idem ob') key = Some (ob_next ob)"
    using outbox_okD(5) [OF ok] x assms(2) unfolding keys_match_def by blast
  moreover have "out_id x = ob_next ob" using outbox_okD(3) [OF ok map_of_SomeD [OF x(1)]] by simp
  ultimately show ?thesis
    using x assms(2) by (auto simp: create_def truthy_def key_known_iff r new_record_def)
qed

theorem idempotent_create_witness:
  "\<exists>r'. create [str_of ''+15550199''] (str_of ''other'') (Some (str_of ''k'')) (Some (str_of ''bob'')) []
      (run_outbox [Update 1 (\<lambda>r. r\<lparr>out_state := Submitted\<rparr>) []]
        (snd (create [str_of ''+15550100''] (str_of ''hi'') (Some (str_of ''k'')) (Some (str_of ''alice'')) []
          (new_outbox 500)))) =
      (Inr (r', False), run_outbox [Update 1 (\<lambda>r. r\<lparr>out_state := Submitted\<rparr>) []]
        (snd (create [str_of ''+15550100''] (str_of ''hi'') (Some (str_of ''k'')) (Some (str_of ''alice'')) []
          (new_outbox 500))))
    \<and> out_id r' = 1"
proof -
  let ?r = "new_record 1 [str_of ''+15550100''] (str_of ''hi'') (Some (str_of ''k'')) (Some (str_of ''alice'')) []"
  have c: "fst (create [str_of ''+15550100''] (str_of ''hi'') (Some (str_of ''k'')) (Some (str_of ''alice'')) []
      (new_outbox 500)) = Inr (?r, True)"
    by (simp add: create_def new_outbox_def truthy_def str_of_def Let_def new_record_def)
  have "\<forall>op \<in> set [Update 1 (\<lambda>r. r\<lparr>out_state := Submitted\<rparr>) []]. op_ok op"
    by (simp add: op_ok_def keeps_identity_def)
  from idempotent_create [OF new_outbox_ok _ c this, where to' = "[str_of ''+15550199'']"
      and body' = "str_of ''other''" and own' = "Some (str_of ''bob'')" and now' = "[]"]
  show ?thesis by (auto simp: is_create_def new_outbox_def str_of_def new_record_def)
qed

text \<open>C11. Bounds: from an empty outbox, every run keeps at most \<open>keep\<close> records, ids strictly
  ascend, every idempotency key names a present record that carries it and no two records
  share a key, so \<open>create\<close> never raises.\<close>

theorem outbox_invariant:
  fixes n :: nat
  assumes "\<forall>op \<in> set ops. op_ok op"
  defines "ob \<equiv> run_outbox ops (new_outbox n)"
  shows "length (records ob) \<le> n \<and> sorted_wrt (<) (map fst (records ob))
    \<and> (\<forall>k i. map_of (idem ob) k = Some i \<longrightarrow> (\<exists>r. get_record i ob = Some r \<and> idem_key r = Some k \<and> out_id r = i))
    \<and> fst (create to body key own now ob) \<noteq> Inl KeyError"
proof -
  have ok: "outbox_ok ob" unfolding ob_def by (rule run_outbox_ok [OF new_outbox_ok assms(1)])
  note o = outbox_okD [OF ok]
  have "keep (run_outbox ops x) = keep x" for x
  proof (induction ops x rule: run_outbox.induct)
    case (2 to body key own now ops ob)
    have "keep (snd (create to body key own now ob)) = keep ob"
      by (simp add: create_def Let_def split: prod.split)
    with 2 show ?case by simp
  next
    case (3 i f now ops ob)
    have "keep (snd (snd (update 3 i f now None ob))) = keep ob"
      by (simp add: update_def Let_def split: option.split)
    with 3 show ?case by simp
  qed simp
  then have n: "keep ob = n" by (simp add: ob_def new_outbox_def)
  have k: "\<exists>r. get_record i ob = Some r \<and> idem_key r = Some k \<and> out_id r = i"
    if "map_of (idem ob) k = Some i" for k i
    using o(5) that o(3) unfolding keys_match_def get_record_def by (metis map_of_SomeD)
  have "fst (create to body key own now ob) \<noteq> Inl KeyError"
  proof (cases "truthy key \<and> the key \<in> fst ` set (idem ob)")
    case True
    then obtain x where "create to body key own now ob = (Inr (x, False), ob)"
      using create_replay [OF ok] by blast
    then show ?thesis by simp
  next
    case False
    then show ?thesis by (simp add: create_spec(1) [OF ok])
  qed
  then show ?thesis using o(1,6) n k by simp
qed

theorem outbox_invariant_witness:
  "length (records (run_outbox [Create [] [] None None [], Create [] [] None None []] (new_outbox 1))) \<le> 1"
  using outbox_invariant [of "[Create [] [] None None [], Create [] [] None None []]" 1]
  by (simp add: op_ok_def)

text \<open>A file of the same id as a record that is saved, under another name: it leaves the index, but
  stays on disk.\<close>

lemma save_hides:
  assumes "map_of (outbox_dir (store_disk st)) old = Some (Some r0)" "index_id old = Some i" "out_id r = i"
    and "outbound_name r \<noteq> old"
  defines "st' \<equiv> snd (save_outbound 3 st r)"
  shows "(i, old) \<notin> set (out_index st')" "map_of (outbox_dir (store_disk st')) old = Some (Some r0)"
    "{(i, old), (i, outbound_name r)} \<subseteq> set (build_index (outbox_dir (store_disk st')))"
proof -
  let ?d = "outbox_dir (store_disk st)" and ?d' = "outbox_dir (store_disk st')"
  have d: "?d' = run_ops 3 (write_ops (outbound_name r) r) ?d"
    by (simp add: st'_def save_outbound_def Let_def)
  have "old \<noteq> tmp_name (outbound_name r)" using assms(2) index_id_tmp by fastforce
  then show o: "map_of ?d' old = Some (Some r0)" using assms(1,4) by (simp add: d write_ops_map_of)
  have n: "map_of ?d' (outbound_name r) = Some (Some r)" by (simp add: d write_ops_map_of)
  have mem: "name \<in> fst ` set ?d'" if "map_of ?d' name = Some x" for name x
    using map_of_SomeD [OF that] by force
  have "index_id (outbound_name r) = Some i" using assms(3) by (simp add: outbound_name_def)
  with o n assms(2) mem show "{(i, old), (i, outbound_name r)} \<subseteq> set (build_index ?d')"
    by (simp add: in_build_index)
  show "(i, old) \<notin> set (out_index st')"
    using assms(3,4) by (auto simp: st'_def save_outbound_def Let_def)
qed

lemma first_record:
  assumes "create to body key own now (new_outbox n) = (Inr (r, True), ob)"
    and "update k (out_id r) f now' (Some st) ob = (Some s, st', ob')" "keeps_identity f"
  shows "out_id r = 1" "out_id s = 1" "st' = Some (snd (save_outbound k st s))"
proof -
  have c: "create to body key own now (new_outbox n) = (let r = new_record 1 to body key own now;
      (rs, ks) = evict n [(1, r)] (if truthy key then [(the key, 1)] else [])
      in (Inr (r, True), \<lparr>records = rs, idem = ks, ob_next = 2, keep = n\<rparr>))"
    by (simp add: create_def new_outbox_def new_record_def Let_def)
  with assms(1) have r: "r = new_record 1 to body key own now" and rs: "records ob = fst (evict n [(1, r)] (if truthy key then [(the key, 1)] else []))"
    by (auto simp: Let_def split: prod.splits)
  then show "out_id r = 1" by (simp add: new_record_def)
  with assms(2,3) rs show "out_id s = 1" "st' = Some (snd (save_outbound k st s))"
    by (auto simp: update_def keeps_identity_def Let_def split: option.splits if_splits)
qed

text \<open>C12. Record ids start again with every process while the files stay.  A process creates a
  record and updates it; after a restart on the same disk the new process creates and updates one:
  it takes the same id.  Its saving drops the older record from the index, from which pages of the
  history are made, although its file is still there; and after another restart both files are
  listed under the one id.  Whatever the disk held before; the two files have different names, which
  they have unless time, recipients and all agree.\<close>

theorem outbox_id_reuse:
  assumes "create to1 body1 key1 own1 t1 (new_outbox n) = (Inr (r1, True), ob1)"
    and "update 3 (out_id r1) f1 u1 (Some (open_store fresh1 d)) ob1 = (Some s1, Some st1, ob1')"
    and "create to2 body2 key2 own2 t2 (new_outbox n) = (Inr (r2, True), ob2)"
    and "update 3 (out_id r2) f2 u2 (Some (open_store fresh2 (store_disk st1))) ob2 = (Some s2, Some st2, ob2')"
    and "keeps_identity f1" "keeps_identity f2" "outbound_name s2 \<noteq> outbound_name s1"
  shows "out_id r2 = out_id r1
    \<and> (out_id r1, outbound_name s1) \<in> set (out_index (open_store fresh2 (store_disk st1)))
    \<and> (out_id r1, outbound_name s1) \<notin> set (out_index st2)
    \<and> map_of (outbox_dir (store_disk st2)) (outbound_name s1) = Some (Some s1)
    \<and> {(out_id r1, outbound_name s1), (out_id r1, outbound_name s2)} \<subseteq> set (out_index (open_store fresh3 (store_disk st2)))"
proof -
  note p1 = first_record [OF assms(1,2,5)] and p2 = first_record [OF assms(3,4,6)]
  have same: "outbox_dir (store_disk (open_store fresh x)) = outbox_dir x"
    "out_index (open_store fresh x) = build_index (outbox_dir x)" for fresh x
    by (auto simp: open_store_def load_stream_def split: option.split prod.split)
  have old: "map_of (outbox_dir (store_disk st1)) (outbound_name s1) = Some (Some s1)"
    using p1(3) by (auto simp: save_outbound_def Let_def write_ops_map_of)
  have id: "index_id (outbound_name s1) = Some 1" using p1(2) by (simp add: outbound_name_def)
  have "map_of (outbox_dir (store_disk (open_store fresh2 (store_disk st1)))) (outbound_name s1) = Some (Some s1)"
    using old by (simp add: same)
  from save_hides [OF this id p2(2) assms(7)] p2(3) have
    "(1, outbound_name s1) \<notin> set (out_index st2)" "map_of (outbox_dir (store_disk st2)) (outbound_name s1) = Some (Some s1)"
    "{(1, outbound_name s1), (1, outbound_name s2)} \<subseteq> set (build_index (outbox_dir (store_disk st2)))" by simp_all
  moreover have "(1, outbound_name s1) \<in> set (build_index (outbox_dir (store_disk st1)))"
    using map_of_SomeD [OF old] id by (force simp: in_build_index)
  ultimately show ?thesis using p1(1) p2(1) by (simp add: same)
qed

text \<open>An example: a message in January and, after a restart, one in February.\<close>

definition example_created :: "pystr \<Rightarrow> (exn + out_record \<times> bool) \<times> outbox" where
  "example_created now = create [str_of ''+15550100''] (str_of ''hi'') None None now (new_outbox 500)"

definition example_saved :: "pystr \<Rightarrow> store \<Rightarrow> out_record option \<times> store option \<times> outbox" where
  "example_saved now st = update 3 1 (\<lambda>r. r\<lparr>out_state := Sending\<rparr>) now (Some st) (snd (example_created now))"

definition january :: store where
  "january = the (fst (snd (example_saved (str_of ''2026-01-01'') (open_store [97] empty_disk))))"

definition february :: store where
  "february = the (fst (snd (example_saved (str_of ''2026-02-02'') (open_store [98] (store_disk january)))))"

lemma example_first:
  "example_created now = (Inr (new_record 1 [str_of ''+15550100''] (str_of ''hi'') None None now, True), snd (example_created now))"
  by (simp add: example_created_def create_def new_outbox_def truthy_def Let_def split: prod.split)

lemma example_saved_some:
  "\<exists>s st' ob'. example_saved now st = (Some s, Some st', ob') \<and> outbound_name s = outbound_name
     (new_record 1 [str_of ''+15550100''] (str_of ''hi'') None None now)"
  by (auto simp: example_saved_def example_created_def create_def new_outbox_def truthy_def update_def Let_def new_record_def
      outbound_name_def split: prod.split)

theorem outbox_id_reuse_witness:
  "\<exists>name. (1, name) \<in> set (out_index (open_store [98] (store_disk january))) \<and> (1, name) \<notin> set (out_index february)"
proof -
  let ?r = "\<lambda>now. new_record 1 [str_of ''+15550100''] (str_of ''hi'') None None now"
  have id: "out_id (?r now) = 1" for now by (simp add: new_record_def)
  obtain s1 ob1 where s1: "example_saved (str_of ''2026-01-01'') (open_store [97] empty_disk) = (Some s1, Some january, ob1)"
      "outbound_name s1 = outbound_name (?r (str_of ''2026-01-01''))"
    using example_saved_some unfolding january_def by (metis fst_conv snd_conv option.sel)
  obtain s2 ob2 where s2: "example_saved (str_of ''2026-02-02'') (open_store [98] (store_disk january)) = (Some s2, Some february, ob2)"
      "outbound_name s2 = outbound_name (?r (str_of ''2026-02-02''))"
    using example_saved_some unfolding february_def by (metis fst_conv snd_conv option.sel)
  have ne: "outbound_name (?r (str_of ''2026-02-02'')) \<noteq> outbound_name (?r (str_of ''2026-01-01''))" by code_simp
  have c: "create [str_of ''+15550100''] (str_of ''hi'') None None now (new_outbox 500) = (Inr (?r now, True), snd (example_created now))" for now
    using example_first [of now] by (simp add: example_created_def)
  have k: "keeps_identity (\<lambda>r. r\<lparr>out_state := Sending\<rparr>)" by (simp add: keeps_identity_def)
  have u: "update 3 (out_id (?r now)) (\<lambda>r. r\<lparr>out_state := Sending\<rparr>) now (Some st) (snd (example_created now)) = example_saved now st" for now st
    by (simp only: id example_saved_def)
  from outbox_id_reuse [OF c u [THEN trans, OF s1(1)] c u [THEN trans, OF s2(1)] k k]
  show ?thesis using ne s1(2) s2(2) id by auto
qed

end
