(* ===== verification/Actions.thy ===== *)
theory Actions
  imports Gtg_Prelude
begin

text \<open>
  Operations that read and change a state and may raise: functions from a state to a result
  and the new state.  The state a raising operation reached is kept, as in the code, where an
  assignment made before an exception stays.  \<open>OutOfFuel\<close> is not an exception of the code and
  is never caught.
\<close>

section \<open>Sequencing and exceptions\<close>

type_synonym ('s, 'a) act = "'s \<Rightarrow> (exn + 'a) \<times> 's"

definition ret :: "'a \<Rightarrow> ('s, 'a) act" where
  "ret x = (\<lambda>s. (Inr x, s))"

definition throw :: "exn \<Rightarrow> ('s, 'a) act" where
  "throw e = (\<lambda>s. (Inl e, s))"

definition andThen :: "('s, 'a) act \<Rightarrow> ('a \<Rightarrow> ('s, 'b) act) \<Rightarrow> ('s, 'b) act" where
  "andThen m f = (\<lambda>s. case m s of (Inl e, s') \<Rightarrow> (Inl e, s') | (Inr x, s') \<Rightarrow> f x s')"

text \<open>\<open>try: m except P as e: h\<close>.\<close>

definition except :: "('s, 'a) act \<Rightarrow> (exn \<Rightarrow> bool) \<Rightarrow> (exn \<Rightarrow> ('s, 'a) act) \<Rightarrow> ('s, 'a) act" where
  "except m P h = (\<lambda>s. case m s of
     (Inl e, s') \<Rightarrow> (if P e \<and> e \<noteq> OutOfFuel then h e s' else (Inl e, s'))
   | (Inr x, s') \<Rightarrow> (Inr x, s'))"

text \<open>\<open>try: m finally: f\<close>, for an \<open>f\<close> that does not raise.\<close>

definition ensure :: "('s, 'a) act \<Rightarrow> ('s \<Rightarrow> 's) \<Rightarrow> ('s, 'a) act" where
  "ensure m f = (\<lambda>s. case m s of (r, s') \<Rightarrow> (r, f s'))"

text \<open>\<open>try: m except P: h else: f\<close>: exceptions of \<open>f\<close> are not caught.\<close>

definition attempt :: "('s, 'a) act \<Rightarrow> (exn \<Rightarrow> bool) \<Rightarrow> (exn \<Rightarrow> ('s, 'b) act) \<Rightarrow> ('a \<Rightarrow> ('s, 'b) act) \<Rightarrow> ('s, 'b) act" where
  "attempt m P h f = (\<lambda>s. case m s of
     (Inl e, s') \<Rightarrow> (if P e \<and> e \<noteq> OutOfFuel then h e s' else (Inl e, s'))
   | (Inr x, s') \<Rightarrow> f x s')"

definition change :: "('s \<Rightarrow> 's) \<Rightarrow> ('s, unit) act" where
  "change f = (\<lambda>s. (Inr (), f s))"

definition look :: "('s \<Rightarrow> ('s, 'a) act) \<Rightarrow> ('s, 'a) act" where
  "look f = (\<lambda>s. f s s)"

text \<open>A pure fallible computation.\<close>

definition lift :: "exn + 'a \<Rightarrow> ('s, 'a) act" where
  "lift r = (\<lambda>s. (r, s))"

fun each :: "('b \<Rightarrow> ('s, unit) act) \<Rightarrow> 'b list \<Rightarrow> ('s, unit) act" where
  "each f [] = ret ()"
| "each f (x # xs) = andThen (f x) (\<lambda>_. each f xs)"

text \<open>Collecting the results of a loop.\<close>

fun gather :: "('b \<Rightarrow> ('s, 'a list) act) \<Rightarrow> 'b list \<Rightarrow> ('s, 'a list) act" where
  "gather f [] = ret []"
| "gather f (x # xs) = andThen (f x) (\<lambda>ys. andThen (gather f xs) (\<lambda>zs. ret (ys @ zs)))"

section \<open>The exception classes the code names\<close>

fun is_at_error :: "exn \<Rightarrow> bool" where
  "is_at_error (ATError _) = True"
| "is_at_error _ = False"

fun is_at_timeout :: "exn \<Rightarrow> bool" where
  "is_at_timeout (ATTimeout _) = True"
| "is_at_timeout _ = False"

definition any_exception :: "exn \<Rightarrow> bool" where
  "any_exception e \<longleftrightarrow> True"

definition at_failure :: "exn \<Rightarrow> bool" where
  "at_failure e \<longleftrightarrow> is_at_error e \<or> is_at_timeout e"

definition error_or_value :: "exn \<Rightarrow> bool" where
  "error_or_value e \<longleftrightarrow> is_at_error e \<or> e = ValueError"

definition value_or_index :: "exn \<Rightarrow> bool" where
  "value_or_index e \<longleftrightarrow> e = ValueError \<or> e = IndexError"

definition serial_failure :: "exn \<Rightarrow> bool" where
  "serial_failure e \<longleftrightarrow> is_at_timeout e \<or> e = OSError"

section \<open>Running them\<close>

lemma act_simps [simp]:
  "ret x s = (Inr x, s)" "throw e s = (Inl e, s)" "change f s = (Inr (), f s)" "look h s = h s s" "lift r s = (r, s)"
  by (simp_all add: ret_def throw_def change_def look_def lift_def)

lemma andThen_step:
  "m s = (Inr x, s') \<Longrightarrow> andThen m f s = f x s'"
  "m s = (Inl e, s') \<Longrightarrow> andThen m f s = (Inl e, s')"
  by (simp_all add: andThen_def)

lemma andThen_simps [simp]:
  "andThen (ret x) f = f x" "andThen (throw e) f = throw e" "andThen (change g) f s = f () (g s)"
  "andThen (look h) f = look (\<lambda>s. andThen (h s) f)"
  by (simp_all add: andThen_def fun_eq_iff ret_def throw_def change_def look_def)

lemma andThen_eq_InrE:
  assumes "andThen m f s = (Inr y, s'')"
  obtains x s' where "m s = (Inr x, s')" "f x s' = (Inr y, s'')"
  using assms by (auto simp: andThen_def split: prod.splits sum.splits)

section \<open>Relations an operation keeps\<close>

definition keeps :: "('s \<Rightarrow> 's \<Rightarrow> bool) \<Rightarrow> ('s, 'a) act \<Rightarrow> bool" where
  "keeps R m \<longleftrightarrow> (\<forall>s. R s (snd (m s)))"

definition preorder :: "('s \<Rightarrow> 's \<Rightarrow> bool) \<Rightarrow> bool" where
  "preorder R \<longleftrightarrow> (\<forall>s. R s s) \<and> (\<forall>s t u. R s t \<longrightarrow> R t u \<longrightarrow> R s u)"

named_theorems keeps_intros \<open>composition of the operations that keep a relation\<close>

lemma preorderD: "preorder R \<Longrightarrow> R s s" "preorder R \<Longrightarrow> R s t \<Longrightarrow> R t u \<Longrightarrow> R s u"
  unfolding preorder_def by blast+

lemma keepsD: "keeps R m \<Longrightarrow> m s = (r, s') \<Longrightarrow> R s s'"
  unfolding keeps_def by (metis snd_conv)

lemma keepsI: "(\<And>s r s'. m s = (r, s') \<Longrightarrow> R s s') \<Longrightarrow> keeps R m"
  unfolding keeps_def by (metis prod.collapse)

lemma keeps_ret [keeps_intros]: "preorder R \<Longrightarrow> keeps R (ret x)"
  and keeps_throw [keeps_intros]: "preorder R \<Longrightarrow> keeps R (throw e)"
  and keeps_lift [keeps_intros]: "preorder R \<Longrightarrow> keeps R (lift r)"
  by (simp_all add: keeps_def preorderD)

lemma keeps_change: "(\<And>s. R s (f s)) \<Longrightarrow> keeps R (change f)"
  by (simp add: keeps_def)

lemma keeps_look [keeps_intros]: "(\<And>s. keeps R (g s)) \<Longrightarrow> keeps R (look g)"
  by (simp add: keeps_def)

lemma keeps_andThen [keeps_intros]:
  assumes "preorder R" "keeps R m" "\<And>x. keeps R (f x)"
  shows "keeps R (andThen m f)"
proof (rule keepsI)
  fix s r s'
  assume "andThen m f s = (r, s')"
  then show "R s s'"
    using keepsD [OF assms(2), of s] keepsD [OF assms(3)] preorderD(2) [OF assms(1)]
    unfolding andThen_def by (fastforce split: prod.splits sum.splits)
qed

lemma keeps_except [keeps_intros]:
  assumes "preorder R" "keeps R m" "\<And>e. keeps R (h e)"
  shows "keeps R (except m P h)"
proof (rule keepsI)
  fix s r s'
  assume "except m P h s = (r, s')"
  then show "R s s'"
    using keepsD [OF assms(2), of s] keepsD [OF assms(3)] preorderD(2) [OF assms(1)]
    unfolding except_def by (fastforce split: prod.splits sum.splits if_splits)
qed

lemma keeps_attempt [keeps_intros]:
  assumes "preorder R" "keeps R m" "\<And>e. keeps R (h e)" "\<And>x. keeps R (f x)"
  shows "keeps R (attempt m P h f)"
proof (rule keepsI)
  fix s r s'
  assume "attempt m P h f s = (r, s')"
  then show "R s s'"
    using keepsD [OF assms(2), of s] keepsD [OF assms(3)] keepsD [OF assms(4)] preorderD(2) [OF assms(1)]
    unfolding attempt_def by (fastforce split: prod.splits sum.splits if_splits)
qed

lemma keeps_ensure [keeps_intros]:
  assumes "preorder R" "keeps R m" "\<And>s. R s (f s)"
  shows "keeps R (ensure m f)"
proof (rule keepsI)
  fix s r s'
  assume "ensure m f s = (r, s')"
  then obtain t where "m s = (r, t)" "s' = f t" by (auto simp: ensure_def split: prod.splits)
  with keepsD [OF assms(2)] assms(3) preorderD(2) [OF assms(1)] show "R s s'" by blast
qed

lemma keeps_if [keeps_intros]: "keeps R m \<Longrightarrow> keeps R n \<Longrightarrow> keeps R (if b then m else n)"
  by simp

lemma keeps_each [keeps_intros]: "preorder R \<Longrightarrow> (\<And>x. keeps R (f x)) \<Longrightarrow> keeps R (each f xs)"
  by (induction xs) (auto intro: keeps_intros)

lemma keeps_gather [keeps_intros]: "preorder R \<Longrightarrow> (\<And>x. keeps R (f x)) \<Longrightarrow> keeps R (gather f xs)"
  by (induction xs) (auto intro: keeps_intros)

end
