(* ===== verification/At_Port.thy ===== *)
theory At_Port
  imports Actions
begin

text \<open>
  The serial AT port, \<open>server/gtg_server/modem/at.py\<close>.  The modem is the environment: the
  results of the coming \<open>ser.read\<close> calls, each with the milliseconds it took; \<open>None\<close> is a
  read that raises \<open>OSError\<close>, and when the list is used up a read returns nothing after its
  timeout of 300 ms.  What is handed to \<open>ser.write\<close> is recorded, also when the write or the flush then
  raises \<open>OSError\<close>, since the modem may have got it; \<open>p_faults\<close> says which of the coming writes raise.
  The port is a record that the worker's state extends, and \<open>urc_cb\<close> is a state transformer, called while a command is running, as in the
  code.
\<close>

section \<open>The port\<close>

record port =
  p_buf :: pybytes
  p_feed :: "(nat \<times> pybytes option) list"
  p_clock :: int
  p_written :: "pybytes list"
  p_faults :: "bool list"

definition FINAL_OK :: pystr where "FINAL_OK = str_of ''OK''"

definition FINAL_ERRORS :: "pystr list" where
  "FINAL_ERRORS = [str_of ''ERROR'', str_of ''+CMS ERROR:'', str_of ''+CME ERROR:'', str_of ''NO CARRIER'',
     str_of ''BUSY'', str_of ''NO ANSWER'', str_of ''COMMAND NOT SUPPORT'']"

definition URC_PREFIXES :: "pystr list" where
  "URC_PREFIXES = [str_of ''+CMTI:'', str_of ''+CMT:'', str_of ''+CDS:'', str_of ''+CBM:'', str_of ''RING'',
     str_of ''+CRING'', str_of ''+CREG:'', str_of ''+CGREG:'', str_of ''+CEREG:'', str_of ''+CUSD:'',
     str_of ''NO CARRIER'', str_of ''^'']"

definition is_urc :: "pystr \<Rightarrow> bool" where
  "is_urc line \<longleftrightarrow> list_ex (py_startswith line) URC_PREFIXES"

definition final_error :: "pystr \<Rightarrow> bool" where
  "final_error line \<longleftrightarrow> list_ex (py_startswith line) FINAL_ERRORS"

text \<open>\<open>sub in s\<close>.\<close>

fun py_contains :: "pystr \<Rightarrow> pystr \<Rightarrow> bool" where
  "py_contains sub [] = (sub = [])"
| "py_contains sub (c # cs) = (py_startswith (c # cs) sub \<or> py_contains sub cs)"

section \<open>Reading\<close>

definition read_chunk :: "'a port_scheme \<Rightarrow> (exn + unit) \<times> 'a port_scheme" where
  "read_chunk p =
     (case p_feed p of
        [] \<Rightarrow> (Inr (), p\<lparr>p_clock := p_clock p + 300\<rparr>)
      | (dt, d) # feed \<Rightarrow>
          (let p' = p\<lparr>p_feed := feed, p_clock := p_clock p + int dt\<rparr>
           in case d of
                None \<Rightarrow> (Inl OSError, p')
              | Some data \<Rightarrow> (Inr (), p'\<lparr>p_buf := p_buf p @ data\<rparr>)))"

definition decode_line :: "pybytes \<Rightarrow> pystr" where
  "decode_line raw = py_strip (utf8_decode (py_rstrip (\<lambda>b. b = 13) (py_lstrip (\<lambda>b. b = 13) raw)))"

text \<open>\<open>_pop_line\<close> on the buffer: the line, if there is a complete one that is not empty, and
  what is left.\<close>

fun pop_line :: "nat \<Rightarrow> pybytes \<Rightarrow> pystr option \<times> pybytes" where
  "pop_line 0 buf = (None, buf)"
| "pop_line (Suc n) buf =
     (case py_partition 10 buf of
        (_, None) \<Rightarrow> (None, buf)
      | (raw, Some rest) \<Rightarrow>
          (let line = decode_line raw in if line \<noteq> [] then (Some line, rest) else pop_line n rest))"

definition pop_port :: "'a port_scheme \<Rightarrow> pystr option \<times> 'a port_scheme" where
  "pop_port p =
     (case pop_line (length (p_buf p)) (p_buf p) of (line, rest) \<Rightarrow> (line, p\<lparr>p_buf := rest\<rparr>))"

definition wait_measure :: "int \<Rightarrow> 'a port_scheme \<Rightarrow> nat" where
  "wait_measure deadline p = length (p_feed p) + nat (deadline - p_clock p)"

lemma read_chunk_measure:
  "p_clock p < deadline \<Longrightarrow> wait_measure deadline (snd (read_chunk p)) < wait_measure deadline p"
  by (auto simp: read_chunk_def wait_measure_def Let_def split: list.split option.split prod.split)

lemma wait_measure_buf [simp]: "wait_measure deadline (p\<lparr>p_buf := b\<rparr>) = wait_measure deadline p"
  by (simp add: wait_measure_def)

lemma pop_port_fields [simp]:
  "p_feed (snd (pop_port p)) = p_feed p" "p_clock (snd (pop_port p)) = p_clock p"
  "p_written (snd (pop_port p)) = p_written p" "wait_measure deadline (snd (pop_port p)) = wait_measure deadline p"
  by (simp_all add: pop_port_def wait_measure_def split: prod.split)

text \<open>\<open>_readline\<close>: \<open>None\<close> at the deadline.\<close>

function readline :: "int \<Rightarrow> 'a port_scheme \<Rightarrow> (exn + pystr option) \<times> 'a port_scheme" where
  "readline deadline p =
     (case pop_port p of
        (Some line, p') \<Rightarrow> (Inr (Some line), p')
      | (None, p') \<Rightarrow>
          (if p_clock p' \<ge> deadline then (Inr None, p')
           else (case read_chunk p' of
               (Inl e, p'') \<Rightarrow> (Inl e, p'')
             | (Inr _, p'') \<Rightarrow> readline deadline p'')))"
  by pat_completeness auto

lemma prompt_decreases:
  "(r, q) = read_chunk p \<Longrightarrow> p_clock p < deadline \<Longrightarrow> wait_measure deadline q < wait_measure deadline p"
  using read_chunk_measure [of p deadline] by (metis snd_conv)

lemma readline_decreases:
  assumes "(l, p') = pop_port p" "(r, q) = read_chunk p'" "\<not> deadline \<le> p_clock p'"
  shows "wait_measure deadline q < wait_measure deadline p"
proof -
  have "wait_measure deadline p' = wait_measure deadline p"
    using pop_port_fields(4) [of deadline p] assms(1) by (metis snd_conv)
  with prompt_decreases [OF assms(2), of deadline] assms(3) show ?thesis by simp
qed

termination readline
  by (relation "measure (\<lambda>(deadline, p). wait_measure deadline p)") (auto intro: readline_decreases)

declare readline.simps [simp del]

section \<open>Writing\<close>

definition port_write :: "pybytes \<Rightarrow> 'a port_scheme \<Rightarrow> 'a port_scheme" where
  "port_write bs p = p\<lparr>p_written := p_written p @ [bs], p_faults := tl (p_faults p)\<rparr>"

text \<open>\<open>ser.write\<close> and \<open>ser.flush\<close>.\<close>

definition write_fails :: "'a port_scheme \<Rightarrow> bool" where
  "write_fails p \<longleftrightarrow> (case p_faults p of [] \<Rightarrow> False | f # _ \<Rightarrow> f)"

section \<open>Commands\<close>

text \<open>Waiting for the prompt \<open>>\<close>, or an error in its place.\<close>

function wait_prompt :: "pystr \<Rightarrow> int \<Rightarrow> 'a port_scheme \<Rightarrow> (exn + unit) \<times> 'a port_scheme" where
  "wait_prompt cmd deadline p =
     (if 62 \<in> set (p_buf p) then (Inr (), p)
      else if p_clock p \<ge> deadline then (Inl (ATTimeout (cmd @ str_of '': no '>' prompt'')), p)
      else (case read_chunk p of
          (Inl e, p') \<Rightarrow> (Inl e, p')
        | (Inr _, p') \<Rightarrow>
            (let probe = utf8_decode (p_buf p')
             in if list_ex (\<lambda>err. py_contains err probe) FINAL_ERRORS
                then (Inl (ATError (py_strip probe)), p'\<lparr>p_buf := []\<rparr>)
                else wait_prompt cmd deadline p')))"
  by pat_completeness auto

termination wait_prompt
  by (relation "measure (\<lambda>(cmd, deadline, p). wait_measure deadline p)") (auto intro: prompt_decreases)

declare wait_prompt.simps [simp del]

type_synonym 'a urc_cb = "pystr \<Rightarrow> ('a port_scheme, unit) act"

text \<open>The response loop of \<open>execute\<close>.  The fuel bounds the number of lines; the bytes the modem
  has still to send are enough of it.\<close>

fun response :: "'a urc_cb \<Rightarrow> nat \<Rightarrow> pystr \<Rightarrow> int \<Rightarrow> bool \<Rightarrow> pystr list \<Rightarrow> 'a port_scheme \<Rightarrow>
    (exn + pystr list) \<times> 'a port_scheme" where
  "response cb 0 cmd deadline extra lines p = (Inl OutOfFuel, p)"
| "response cb (Suc n) cmd deadline extra lines p =
     (case readline deadline p of
        (Inl e, p') \<Rightarrow> (Inl e, p')
      | (Inr None, p') \<Rightarrow> (Inl (ATTimeout (cmd @ str_of '': no final response'')), p')
      | (Inr (Some line), p') \<Rightarrow>
          (if line = cmd then response cb n cmd deadline extra lines p'
           else if line = FINAL_OK then (Inr lines, p')
           else if final_error line then (Inl (ATError line), p')
           else if is_urc line \<and> \<not> extra then
             (case cb line p' of
                (Inl e, p'') \<Rightarrow> (Inl e, p'')
              | (Inr _, p'') \<Rightarrow> response cb n cmd deadline extra lines p'')
           else response cb n cmd deadline extra (lines @ [line]) p'))"

text \<open>The bytes that can still be read.\<close>

definition avail :: "'a port_scheme \<Rightarrow> nat" where
  "avail p = length (p_buf p) + sum_list (map (\<lambda>(_, d). case d of None \<Rightarrow> 0 | Some b \<Rightarrow> length b) (p_feed p))"

definition execute :: "'a urc_cb \<Rightarrow> pystr \<Rightarrow> nat \<Rightarrow> pybytes option \<Rightarrow> bool \<Rightarrow> 'a port_scheme \<Rightarrow>
    (exn + pystr list) \<times> 'a port_scheme" where
  "execute cb cmd timeout payload extra p =
     (if \<not> list_all (\<lambda>c. c < 128) cmd then (Inl ValueError, p)
      else
      let p1 = port_write (cmd @ [13]) p;
          deadline = p_clock p1 + int timeout
      in if write_fails p then (Inl OSError, p1)
         else case payload of
           None \<Rightarrow> response cb (avail p1 + 1) cmd deadline extra [] p1
         | Some data \<Rightarrow>
             (case wait_prompt cmd deadline p1 of
                (Inl e, p2) \<Rightarrow> (Inl e, p2)
              | (Inr _, p2) \<Rightarrow>
                  (let p3 = port_write (data @ [26])
                         (p2\<lparr>p_buf := (case snd (py_partition 62 (p_buf p2)) of Some r \<Rightarrow> r | None \<Rightarrow> [])\<rparr>)
                   in if write_fails p2 then (Inl OSError, p3)
                      else response cb (avail p3 + 1) cmd (p_clock p3 + 40000) extra [] p3)))"

text \<open>\<open>drain_urcs\<close>.\<close>

fun drain_loop :: "'a urc_cb \<Rightarrow> nat \<Rightarrow> int \<Rightarrow> 'a port_scheme \<Rightarrow> (exn + unit) \<times> 'a port_scheme" where
  "drain_loop cb 0 deadline p = (Inl OutOfFuel, p)"
| "drain_loop cb (Suc n) deadline p =
     (case readline deadline p of
        (Inl e, p') \<Rightarrow> (Inl e, p')
      | (Inr None, p') \<Rightarrow> (Inr (), p')
      | (Inr (Some line), p') \<Rightarrow>
          (case cb line p' of
             (Inl e, p'') \<Rightarrow> (Inl e, p'')
           | (Inr _, p'') \<Rightarrow> drain_loop cb n deadline p''))"

definition drain_urcs :: "'a urc_cb \<Rightarrow> nat \<Rightarrow> 'a port_scheme \<Rightarrow> (exn + unit) \<times> 'a port_scheme" where
  "drain_urcs cb duration p = drain_loop cb (avail p + 1) (p_clock p + int duration) p"

section \<open>Reading consumes\<close>

lemma avail_read_chunk: "avail (snd (read_chunk p)) \<le> avail p"
  by (auto simp: read_chunk_def avail_def Let_def split: list.split option.split prod.split)

lemma pop_line_length:
  "pop_line n buf = (l, rest) \<Longrightarrow> length rest \<le> length buf \<and> (l \<noteq> None \<longrightarrow> length rest < length buf)"
proof (induction n buf rule: pop_line.induct)
  case (1 buf)
  then show ?case by simp
next
  case (2 n buf)
  have short: "length r < length buf" if "snd (py_partition 10 buf) = Some r" for r
    using that length_dropWhile_le [of "\<lambda>x. x \<noteq> 10" buf]
    by (cases "dropWhile (\<lambda>x. x \<noteq> 10) buf") (simp_all add: py_partition_def)
  show ?case
  proof (cases "snd (py_partition 10 buf)")
    case None
    with 2(2) show ?thesis by (auto split: prod.splits)
  next
    case (Some r)
    then obtain raw where pt: "py_partition 10 buf = (raw, Some r)" by (metis prod.collapse)
    show ?thesis
    proof (cases "decode_line raw \<noteq> []")
      case True
      with 2(2) pt short [OF Some] show ?thesis by (auto simp: Let_def)
    next
      case False
      with 2(2) pt have "pop_line n r = (l, rest)" by (simp add: Let_def)
      with 2(1) [OF pt [symmetric] refl refl] False short [OF Some] show ?thesis by fastforce
    qed
  qed
qed

lemma avail_pop_port:
  assumes "pop_port p = (l, p')"
  shows "avail p' \<le> avail p" "l \<noteq> None \<Longrightarrow> avail p' < avail p"
proof -
  obtain rest where r: "pop_line (length (p_buf p)) (p_buf p) = (l, rest)" "p' = p\<lparr>p_buf := rest\<rparr>"
    using assms by (auto simp: pop_port_def split: prod.splits)
  from pop_line_length [OF r(1)] show "avail p' \<le> avail p" "l \<noteq> None \<Longrightarrow> avail p' < avail p"
    by (auto simp: avail_def r(2))
qed

lemma avail_readline:
  "readline deadline p = (r, p') \<Longrightarrow> avail p' \<le> avail p \<and> ((\<exists>l. r = Inr (Some l)) \<longrightarrow> avail p' < avail p)"
proof (induction deadline p arbitrary: r p' rule: readline.induct)
  case (1 deadline p)
  obtain l q where q: "pop_port p = (l, q)" by fastforce
  show ?case
  proof (cases l)
    case (Some line)
    with 1(2) q avail_pop_port [OF q] show ?thesis by (subst (asm) readline.simps) auto
  next
    case None
    show ?thesis
    proof (cases "deadline \<le> p_clock q")
      case True
      with 1(2) q None avail_pop_port [OF q] show ?thesis by (subst (asm) readline.simps) auto
    next
      case False
      obtain c q' where c: "read_chunk q = (c, q')" by fastforce
      have le: "avail q' \<le> avail p" using avail_read_chunk [of q] avail_pop_port(1) [OF q] c by simp
      show ?thesis
      proof (cases c)
        case (Inl e)
        with 1(2) q None False c le show ?thesis by (subst (asm) readline.simps) auto
      next
        case (Inr u)
        with 1(2) q None False c have "readline deadline q' = (r, p')" by (subst (asm) readline.simps) auto
        from 1(1) [OF q [symmetric] None False c [symmetric] Inr this] le show ?thesis by auto
      qed
    qed
  qed
qed

lemma readline_no_fuel: "fst (readline deadline p) \<noteq> Inl OutOfFuel"
proof (induction deadline p rule: readline.induct)
  case (1 deadline p)
  show ?case
    using 1 by (subst readline.simps)
      (auto simp: read_chunk_def Let_def split: prod.split option.split sum.split list.split if_split)
qed

lemma wait_prompt_avail:
  "avail (snd (wait_prompt cmd deadline p)) \<le> avail p \<and> fst (wait_prompt cmd deadline p) \<noteq> Inl OutOfFuel"
proof (induction cmd deadline p rule: wait_prompt.induct)
  case (1 cmd deadline p)
  obtain c q where c: "read_chunk p = (c, q)" by fastforce
  have q: "avail q \<le> avail p" using avail_read_chunk [of p] c by simp
  have nf: "c \<noteq> Inl OutOfFuel" using c
    by (auto simp: read_chunk_def Let_def split: list.splits option.splits prod.splits)
  have clear: "avail (q\<lparr>p_buf := []\<rparr>) \<le> avail q" by (simp add: avail_def)
  consider "62 \<in> set (p_buf p) \<or> deadline \<le> p_clock p" | (err) e where "c = Inl e"
      "62 \<notin> set (p_buf p)" "\<not> deadline \<le> p_clock p"
    | (stop) "c = Inr ()" "62 \<notin> set (p_buf p)" "\<not> deadline \<le> p_clock p"
      "list_ex (\<lambda>err. py_contains err (utf8_decode (p_buf q))) FINAL_ERRORS"
    | (more) "c = Inr ()" "62 \<notin> set (p_buf p)" "\<not> deadline \<le> p_clock p"
      "\<not> list_ex (\<lambda>err. py_contains err (utf8_decode (p_buf q))) FINAL_ERRORS"
    by (cases c) auto
  then show ?case
  proof cases
    case 1
    then show ?thesis by (subst (1 2) wait_prompt.simps) auto
  next
    case err
    with c q nf show ?thesis by (subst (1 2) wait_prompt.simps) simp
  next
    case stop
    with c q clear show ?thesis by (subst (1 2) wait_prompt.simps) (simp add: Let_def)
  next
    case more
    from 1 [OF more(2,3) c [symmetric] more(1) refl more(4)] q
    have "avail (snd (wait_prompt cmd deadline q)) \<le> avail p \<and> fst (wait_prompt cmd deadline q) \<noteq> Inl OutOfFuel"
      by linarith
    moreover have "wait_prompt cmd deadline p = wait_prompt cmd deadline q"
      using more c by (subst wait_prompt.simps) (simp add: Let_def)
    ultimately show ?thesis by simp
  qed
qed

lemma avail_write [simp]: "avail (port_write bs p) = avail p"
  by (simp add: avail_def port_write_def)

section \<open>Enough fuel\<close>

text \<open>A callback that reads no more than there is and does not run out of fuel, on the states
  with fewer than \<open>n\<close> bytes to read; two callbacks that agree on those states.  An operation
  \<open>F\<close>, which takes the callback, is steady when the callback's behaviour below \<open>n\<close> decides
  what it does up to \<open>n\<close>, and it does not run out of fuel.\<close>

definition cb_ok :: "'a urc_cb \<Rightarrow> nat \<Rightarrow> bool" where
  "cb_ok cb n \<longleftrightarrow> (\<forall>line p. avail p < n \<longrightarrow> avail (snd (cb line p)) \<le> avail p \<and> fst (cb line p) \<noteq> Inl OutOfFuel)"

definition cb_agree :: "'a urc_cb \<Rightarrow> 'a urc_cb \<Rightarrow> nat \<Rightarrow> bool" where
  "cb_agree cb cb' n \<longleftrightarrow> (\<forall>line p. avail p < n \<longrightarrow> cb' line p = cb line p)"

definition steady :: "nat \<Rightarrow> ('a urc_cb \<Rightarrow> ('a port_scheme, 'b) act) \<Rightarrow> bool" where
  "steady m F \<longleftrightarrow> (\<forall>cb cb' p. cb_ok cb m \<longrightarrow> cb_agree cb cb' m \<longrightarrow> avail p \<le> m \<longrightarrow>
     avail (snd (F cb p)) \<le> avail p \<and> fst (F cb p) \<noteq> Inl OutOfFuel \<and> F cb' p = F cb p)"

named_theorems steady_intros \<open>composition of the steady operations\<close>

lemma steadyI:
  assumes "\<And>cb cb' p r q. \<lbrakk>cb_ok cb m; cb_agree cb cb' m; avail p \<le> m; F cb p = (r, q)\<rbrakk>
    \<Longrightarrow> avail q \<le> avail p \<and> r \<noteq> Inl OutOfFuel \<and> F cb' p = (r, q)"
  shows "steady m F"
  unfolding steady_def
proof (intro allI impI)
  fix cb cb' :: "'a urc_cb" and p :: "'a port_scheme"
  assume "cb_ok cb m" "cb_agree cb cb' m" "avail p \<le> m"
  from assms [OF this, of "fst (F cb p)" "snd (F cb p)"]
  show "avail (snd (F cb p)) \<le> avail p \<and> fst (F cb p) \<noteq> Inl OutOfFuel \<and> F cb' p = F cb p" by simp
qed

lemma steadyD:
  assumes "steady m F" "cb_ok cb m" "cb_agree cb cb' m" "avail p \<le> m" "F cb p = (r, q)"
  shows "avail q \<le> avail p" "r \<noteq> Inl OutOfFuel" "F cb' p = (r, q)" "avail q \<le> m"
proof -
  from assms(1)[unfolded steady_def, rule_format, OF assms(2-4)] assms(5)
  show "avail q \<le> avail p" "r \<noteq> Inl OutOfFuel" "F cb' p = (r, q)" by auto
  with assms(4) show "avail q \<le> m" by simp
qed

lemma response_steady:
  assumes "cb_ok cb m" "cb_agree cb cb' m"
  shows "avail p \<le> m \<Longrightarrow> avail p < n \<Longrightarrow> response cb n cmd deadline extra lines p = (r, t) \<Longrightarrow>
    r \<noteq> Inl OutOfFuel \<and> avail t \<le> avail p \<and> response cb' n cmd deadline extra lines p = (r, t)"
proof (induction n arbitrary: lines p)
  case 0
  then show ?case by simp
next
  case (Suc n)
  obtain r0 q where r: "readline deadline p = (r0, q)" by fastforce
  have nf: "r0 \<noteq> Inl OutOfFuel" using readline_no_fuel [of deadline p] r by simp
  consider (err) e where "r0 = Inl e" | (none) "r0 = Inr None" | (line) l where "r0 = Inr (Some l)"
    by (metis not_None_eq sum.exhaust_sel)
  then show ?case
  proof cases
    case err
    with r nf avail_readline [OF r] Suc.prems(3) show ?thesis by auto
  next
    case none
    with r avail_readline [OF r] Suc.prems(3) show ?thesis by auto
  next
    case (line l)
    then have lt: "avail q < avail p" using avail_readline [OF r] by blast
    then have q: "avail q < m" "avail q \<le> m" "avail q < n" using Suc.prems by linarith+
    obtain c q' where c: "cb l q = (c, q')" by fastforce
    then have cq: "avail q' \<le> avail q" "c \<noteq> Inl OutOfFuel" "cb' l q = (c, q')"
      using assms q(1) unfolding cb_ok_def cb_agree_def by (metis snd_conv, metis fst_conv, metis)
    have q': "avail q' \<le> m" "avail q' < n" using cq(1) q by linarith+
    note ih = Suc.IH [OF q(2,3)] and ih' = Suc.IH [OF q']
    show ?thesis
      using r line c cq lt ih [of lines] ih [of "lines @ [l]"] ih' [of lines] Suc.prems(3)
      by (auto split: sum.splits if_splits)
  qed
qed

lemma drain_loop_steady:
  assumes "cb_ok cb m" "cb_agree cb cb' m"
  shows "avail p \<le> m \<Longrightarrow> avail p < n \<Longrightarrow> drain_loop cb n deadline p = (r, t) \<Longrightarrow>
    r \<noteq> Inl OutOfFuel \<and> avail t \<le> avail p \<and> drain_loop cb' n deadline p = (r, t)"
proof (induction n arbitrary: p)
  case 0
  then show ?case by simp
next
  case (Suc n)
  obtain r0 q where r: "readline deadline p = (r0, q)" by fastforce
  have nf: "r0 \<noteq> Inl OutOfFuel" using readline_no_fuel [of deadline p] r by simp
  consider (err) e where "r0 = Inl e" | (none) "r0 = Inr None" | (line) l where "r0 = Inr (Some l)"
    by (metis not_None_eq sum.exhaust_sel)
  then show ?case
  proof cases
    case err
    with r nf avail_readline [OF r] Suc.prems(3) show ?thesis by auto
  next
    case none
    with r avail_readline [OF r] Suc.prems(3) show ?thesis by auto
  next
    case (line l)
    then have lt: "avail q < avail p" using avail_readline [OF r] by blast
    then have q: "avail q < m" "avail q < n" using Suc.prems by linarith+
    obtain c q' where c: "cb l q = (c, q')" by fastforce
    then have cq: "avail q' \<le> avail q" "c \<noteq> Inl OutOfFuel" "cb' l q = (c, q')"
      using assms q(1) unfolding cb_ok_def cb_agree_def by (metis snd_conv, metis fst_conv, metis)
    have q': "avail q' \<le> m" "avail q' < n" using cq(1) q by linarith+
    from Suc.IH [OF q'] show ?thesis using r line c cq lt Suc.prems(3) by (auto split: sum.splits)
  qed
qed

lemma execute_steady [steady_intros]: "steady m (\<lambda>cb. execute cb cmd timeout payload extra)"
proof (rule steadyI)
  fix cb cb' :: "'a urc_cb" and p r q
  assume ok: "cb_ok cb m" "cb_agree cb cb' m" and p: "avail p \<le> m"
    and ex: "execute cb cmd timeout payload extra p = (r, q)"
  let ?p1 = "port_write (cmd @ [13]) p" and ?d = "p_clock (port_write (cmd @ [13]) p) + int timeout"
  show "avail q \<le> avail p \<and> r \<noteq> Inl OutOfFuel \<and> execute cb' cmd timeout payload extra p = (r, q)"
  proof (cases "list_all (\<lambda>c. c < 128) cmd \<and> \<not> write_fails p")
    case False
    with ex show ?thesis by (auto simp: execute_def Let_def split: if_splits)
  next
    case True
    show ?thesis
    proof (cases payload)
      case None
      have "avail ?p1 \<le> m" "avail ?p1 < avail ?p1 + 1" using p by simp_all
      from response_steady [OF ok this, of cmd ?d extra "[]" r q] True None ex show ?thesis
        by (simp add: execute_def Let_def del: response.simps)
    next
      case (Some data)
      obtain w p2 where w: "wait_prompt cmd ?d ?p1 = (w, p2)" by fastforce
      with wait_prompt_avail [of cmd ?d ?p1] have p2: "avail p2 \<le> avail p" "w \<noteq> Inl OutOfFuel" by auto
      let ?b = "case snd (py_partition 62 (p_buf p2)) of Some r \<Rightarrow> r | None \<Rightarrow> []"
      have "length ?b \<le> length (p_buf p2)"
        using length_dropWhile_le [of "\<lambda>x. x \<noteq> 62" "p_buf p2"]
        by (auto simp: py_partition_def split: list.splits option.splits)
      then have b: "avail (port_write (data @ [26]) (p2\<lparr>p_buf := ?b\<rparr>)) \<le> avail p2"
        by (simp add: avail_def port_write_def)
      let ?p3 = "port_write (data @ [26]) (p2\<lparr>p_buf := ?b\<rparr>)"
      have "avail ?p3 \<le> m" "avail ?p3 < avail ?p3 + 1" using b p2 p by linarith+
      from response_steady [OF ok this, of cmd "p_clock ?p3 + 40000" extra "[]" r q] True Some w p2 b ex
      show ?thesis by (cases w) (auto simp add: execute_def Let_def simp del: response.simps split: if_splits)
    qed
  qed
qed

lemma drain_steady [steady_intros]: "steady m (\<lambda>cb. drain_urcs cb duration)"
proof (rule steadyI)
  fix cb cb' :: "'a urc_cb" and p r q
  assume ok: "cb_ok cb m" "cb_agree cb cb' m" and p: "avail p \<le> m" and ex: "drain_urcs cb duration p = (r, q)"
  have "avail p < avail p + 1" by simp
  from drain_loop_steady [OF ok p this] ex
  show "avail q \<le> avail p \<and> r \<noteq> Inl OutOfFuel \<and> drain_urcs cb' duration p = (r, q)"
    unfolding drain_urcs_def by metis
qed

text \<open>Operations that do not take the callback.\<close>

lemma steady_pure:
  assumes "\<And>p. avail (snd (g p)) \<le> avail p \<and> fst (g p) \<noteq> Inl OutOfFuel"
  shows "steady m (\<lambda>cb. g)"
  using assms by (simp add: steady_def)

lemma steady_ret [steady_intros]: "steady m (\<lambda>cb. ret x)"
  and steady_throw [steady_intros]: "e \<noteq> OutOfFuel \<Longrightarrow> steady m (\<lambda>cb. throw e)"
  and steady_lift [steady_intros]: "r \<noteq> Inl OutOfFuel \<Longrightarrow> steady m (\<lambda>cb. lift r)"
  and steady_change [steady_intros]: "(\<And>p. avail (f p) \<le> avail p) \<Longrightarrow> steady m (\<lambda>cb. change f)"
  by (rule steady_pure; simp)+

lemma steady_look [steady_intros]:
  assumes "\<And>s. steady m (\<lambda>cb. G s cb)"
  shows "steady m (\<lambda>cb. look (\<lambda>s. G s cb))"
  using assms by (simp add: steady_def)

lemma steady_andThen [steady_intros]:
  assumes "steady m F" "\<And>x. steady m (G x)"
  shows "steady m (\<lambda>cb. andThen (F cb) (\<lambda>x. G x cb))"
proof (rule steadyI)
  fix cb cb' :: "'a urc_cb" and p r q
  assume ok: "cb_ok cb m" "cb_agree cb cb' m" and p: "avail p \<le> m"
    and run: "andThen (F cb) (\<lambda>x. G x cb) p = (r, q)"
  obtain r0 p0 where f: "F cb p = (r0, p0)" by fastforce
  note F = steadyD [OF assms(1) ok p f]
  show "avail q \<le> avail p \<and> r \<noteq> Inl OutOfFuel \<and> andThen (F cb') (\<lambda>x. G x cb') p = (r, q)"
  proof (cases r0)
    case (Inl e)
    with run f F show ?thesis by (auto simp: andThen_def)
  next
    case (Inr x)
    with run f have g: "G x cb p0 = (r, q)" by (simp add: andThen_def)
    from steadyD [OF assms(2) ok F(4) g] F Inr show ?thesis by (simp add: andThen_def)
  qed
qed

lemma steady_attempt [steady_intros]:
  assumes "steady m F" "\<And>e. e \<noteq> OutOfFuel \<Longrightarrow> steady m (H e)" "\<And>x. steady m (G x)"
  shows "steady m (\<lambda>cb. attempt (F cb) P (\<lambda>e. H e cb) (\<lambda>x. G x cb))"
proof (rule steadyI)
  fix cb cb' :: "'a urc_cb" and p r q
  assume ok: "cb_ok cb m" "cb_agree cb cb' m" and p: "avail p \<le> m"
    and run: "attempt (F cb) P (\<lambda>e. H e cb) (\<lambda>x. G x cb) p = (r, q)"
  obtain r0 p0 where f: "F cb p = (r0, p0)" by fastforce
  note F = steadyD [OF assms(1) ok p f]
  show "avail q \<le> avail p \<and> r \<noteq> Inl OutOfFuel \<and> attempt (F cb') P (\<lambda>e. H e cb') (\<lambda>x. G x cb') p = (r, q)"
  proof (cases r0)
    case (Inl e)
    show ?thesis
    proof (cases "P e")
      case True
      with run f F Inl have h: "H e cb p0 = (r, q)" "e \<noteq> OutOfFuel" by (auto simp: attempt_def)
      from steadyD [OF assms(2) ok F(4) h(1)] h(2) F Inl True show ?thesis by (simp add: attempt_def)
    next
      case False
      with run f F Inl show ?thesis by (auto simp: attempt_def)
    qed
  next
    case (Inr x)
    with run f have g: "G x cb p0 = (r, q)" by (simp add: attempt_def)
    from steadyD [OF assms(3) ok F(4) g] F Inr show ?thesis by (simp add: attempt_def)
  qed
qed

lemma except_as_attempt: "except m P h = attempt m P h ret"
  by (auto simp: except_def attempt_def fun_eq_iff ret_def split: prod.split sum.split)

lemma steady_except [steady_intros]:
  assumes "steady m F" "\<And>e. e \<noteq> OutOfFuel \<Longrightarrow> steady m (H e)"
  shows "steady m (\<lambda>cb. except (F cb) P (\<lambda>e. H e cb))"
  unfolding except_as_attempt using assms by (intro steady_intros)

lemma steady_ensure [steady_intros]:
  assumes "steady m F" "\<And>p. avail (f p) \<le> avail p"
  shows "steady m (\<lambda>cb. ensure (F cb) f)"
proof (rule steadyI)
  fix cb cb' :: "'a urc_cb" and p r q
  assume ok: "cb_ok cb m" "cb_agree cb cb' m" and p: "avail p \<le> m" and run: "ensure (F cb) f p = (r, q)"
  obtain r0 p0 where fp: "F cb p = (r0, p0)" by fastforce
  note F = steadyD [OF assms(1) ok p fp]
  from run fp F assms(2) [of p0]
  show "avail q \<le> avail p \<and> r \<noteq> Inl OutOfFuel \<and> ensure (F cb') f p = (r, q)" by (auto simp: ensure_def)
qed

lemma steady_if [steady_intros]:
  "(b \<Longrightarrow> steady m F) \<Longrightarrow> (\<not> b \<Longrightarrow> steady m G) \<Longrightarrow> steady m (\<lambda>cb. if b then F cb else G cb)"
  by (cases b) simp_all

lemma steady_option [steady_intros]:
  "steady m F \<Longrightarrow> (\<And>x. steady m (G x)) \<Longrightarrow> steady m (\<lambda>cb. case v of None \<Rightarrow> F cb | Some x \<Rightarrow> G x cb)"
  by (cases v) simp_all

lemma steady_each [steady_intros]: "(\<And>x. steady m (G x)) \<Longrightarrow> steady m (\<lambda>cb. each (\<lambda>x. G x cb) xs)"
  by (induction xs) (simp_all add: steady_intros)

lemma steady_gather [steady_intros]: "(\<And>x. steady m (G x)) \<Longrightarrow> steady m (\<lambda>cb. gather (\<lambda>x. G x cb) xs)"
  by (induction xs) (simp_all add: steady_intros)

section \<open>Relations the port's operations keep\<close>

lemma partition_drop:
  "\<exists>k. (case snd (py_partition c bs) of Some r \<Rightarrow> r | None \<Rightarrow> []) = drop k bs"
proof (cases "dropWhile (\<lambda>x. x \<noteq> c) bs")
  case Nil
  then have "(case snd (py_partition c bs) of Some r \<Rightarrow> r | None \<Rightarrow> []) = drop (length bs) bs"
    unfolding py_partition_def Nil by simp
  then show ?thesis by blast
next
  case (Cons x r)
  let ?n = "length (takeWhile (\<lambda>x. x \<noteq> c) bs)"
  have "drop ?n bs = x # r" using Cons by (simp add: dropWhile_eq_drop)
  then have "drop (Suc ?n) bs = r" by (metis drop_Suc list.sel(3) tl_drop)
  with Cons have "(case snd (py_partition c bs) of Some r \<Rightarrow> r | None \<Rightarrow> []) = drop (Suc ?n) bs"
    unfolding py_partition_def by simp
  then show ?thesis by blast
qed

lemma pop_line_drop: "\<exists>k. snd (pop_line n buf) = drop k buf"
proof (induction n arbitrary: buf)
  case 0
  have "snd (pop_line 0 buf) = drop 0 buf" by simp
  then show ?case by blast
next
  case (Suc n)
  show ?case
  proof (cases "snd (py_partition 10 buf)")
    case None
    then have "snd (pop_line (Suc n) buf) = drop 0 buf" by (auto split: prod.split)
    then show ?thesis by blast
  next
    case (Some r)
    with partition_drop [of 10 buf] obtain k where r: "r = drop k buf" by auto
    from Suc.IH [of r] obtain j where "snd (pop_line n r) = drop j r" by blast
    then have "snd (pop_line n r) = drop (j + k) buf" by (simp add: r)
    moreover have "snd (pop_line (Suc n) buf) = r \<or> snd (pop_line (Suc n) buf) = snd (pop_line n r)"
      using Some by (auto simp: Let_def split: prod.split)
    ultimately show ?thesis using r by metis
  qed
qed

text \<open>What a relation between the states before and after must allow for the reading and
  writing of the port; \<open>sends\<close> says which byte strings may be written.\<close>

locale port_frame =
  fixes R :: "'a port_scheme \<Rightarrow> 'a port_scheme \<Rightarrow> bool" and sends :: "pybytes \<Rightarrow> bool"
  assumes order: "preorder R"
    and chunk: "R p (snd (read_chunk p))"
    and eats: "R p (p\<lparr>p_buf := drop k (p_buf p)\<rparr>)"
    and writes: "sends bs \<Longrightarrow> R p (port_write bs p)"
begin

lemma R_refl: "R p p" and R_trans: "R p q \<Longrightarrow> R q r \<Longrightarrow> R p r"
  by (rule preorderD(1) [OF order], rule preorderD(2) [OF order])

lemma pop_kept: "R p (snd (pop_port p))"
proof -
  obtain k where "snd (pop_line (length (p_buf p)) (p_buf p)) = drop k (p_buf p)" using pop_line_drop by blast
  then have "snd (pop_port p) = p\<lparr>p_buf := drop k (p_buf p)\<rparr>" by (cases "pop_line (length (p_buf p)) (p_buf p)") (simp add: pop_port_def)
  with eats show ?thesis by simp
qed

lemma readline_kept: "R p (snd (readline deadline p))"
proof (induction deadline p rule: readline.induct)
  case (1 deadline p)
  obtain l q where q: "pop_port p = (l, q)" by fastforce
  then have Rq: "R p q" using pop_kept [of p] by simp
  obtain c q' where c: "read_chunk q = (c, q')" by fastforce
  then have Rq': "R p q'" using chunk [of q] Rq R_trans by fastforce
  consider line where "l = Some line" | "l = None" "deadline \<le> p_clock q"
    | e where "l = None" "\<not> deadline \<le> p_clock q" "c = Inl e"
    | (more) "l = None" "\<not> deadline \<le> p_clock q" "c = Inr ()"
    by (cases l; cases c) auto
  then show ?case
  proof cases
    case more
    from 1 [OF q [symmetric] more(1,2) c [symmetric] more(3)] Rq' q c more show ?thesis
      by (subst readline.simps) (auto intro: R_trans)
  qed (use q c Rq Rq' in \<open>subst readline.simps; simp\<close>)+
qed

lemma wait_prompt_kept: "R p (snd (wait_prompt cmd deadline p))"
proof (induction cmd deadline p rule: wait_prompt.induct)
  case (1 cmd deadline p)
  obtain c q where c: "read_chunk p = (c, q)" by fastforce
  then have Rq: "R p q" using chunk [of p] by simp
  have clear: "R p (q\<lparr>p_buf := []\<rparr>)" using R_trans [OF Rq eats [of q "length (p_buf q)"]] by simp
  consider "62 \<in> set (p_buf p) \<or> deadline \<le> p_clock p" | e where "c = Inl e"
      "62 \<notin> set (p_buf p)" "\<not> deadline \<le> p_clock p"
    | "c = Inr ()" "62 \<notin> set (p_buf p)" "\<not> deadline \<le> p_clock p"
      "list_ex (\<lambda>err. py_contains err (utf8_decode (p_buf q))) FINAL_ERRORS"
    | (more) "c = Inr ()" "62 \<notin> set (p_buf p)" "\<not> deadline \<le> p_clock p"
      "\<not> list_ex (\<lambda>err. py_contains err (utf8_decode (p_buf q))) FINAL_ERRORS"
    by (cases c) auto
  then show ?case
  proof cases
    case more
    from 1 [OF more(2,3) c [symmetric] more(1) refl more(4)] Rq c more show ?thesis
      by (subst wait_prompt.simps) (auto simp: Let_def intro: R_trans)
  qed (use c Rq clear R_refl in \<open>subst wait_prompt.simps; auto simp: Let_def\<close>)+
qed

lemma response_kept:
  assumes "\<And>line. keeps R (cb line)"
  shows "R p (snd (response cb n cmd deadline extra lines p))"
proof (induction n arbitrary: lines p)
  case 0
  show ?case by (simp add: R_refl)
next
  case (Suc n)
  obtain r q where r: "readline deadline p = (r, q)" by fastforce
  then have q: "R p q" using readline_kept [of p deadline] by simp
  have cb: "R p (snd (cb l q))" for l using assms [of l] q R_trans unfolding keeps_def by blast
  have "R p (snd (response cb n cmd deadline extra ls q'))" if "R p q'" for ls q'
    using Suc.IH R_trans that by blast
  with r q cb show ?case by (auto split: sum.split option.split prod.split) (metis snd_conv)+
qed

lemma execute_kept:
  assumes "\<And>line. keeps R (cb line)" "sends (cmd @ [13])" "\<And>d. payload = Some d \<Longrightarrow> sends (d @ [26])"
  shows "keeps R (execute cb cmd timeout payload extra)"
  unfolding keeps_def
proof
  fix p :: "'a port_scheme"
  let ?p1 = "port_write (cmd @ [13]) p" and ?d = "p_clock (port_write (cmd @ [13]) p) + int timeout"
  have p1: "R p ?p1" using assms(2) writes by blast
  show "R p (snd (execute cb cmd timeout payload extra p))"
  proof (cases "list_all (\<lambda>c. c < 128) cmd \<and> \<not> write_fails p")
    case False
    with p1 show ?thesis by (auto simp: execute_def Let_def R_refl)
  next
    case True
    note resp = response_kept [OF assms(1)]
    show ?thesis
    proof (cases payload)
      case None
      with True R_trans [OF p1 resp] show ?thesis by (simp add: execute_def Let_def del: response.simps)
    next
      case (Some data)
      obtain w p2 where w: "wait_prompt cmd ?d ?p1 = (w, p2)" by fastforce
      with wait_prompt_kept [of ?p1 cmd ?d] have p2: "R p p2" using R_trans [OF p1] by simp
      obtain k where k: "(case snd (py_partition 62 (p_buf p2)) of Some r \<Rightarrow> r | None \<Rightarrow> []) = drop k (p_buf p2)"
        using partition_drop by blast
      have sent: "R p (port_write (data @ [26]) (p2\<lparr>p_buf := drop k (p_buf p2)\<rparr>))"
        using R_trans [OF p2 R_trans [OF eats writes]] assms(3) [OF Some] by blast
      from sent R_trans [OF sent resp] True Some w k p2 show ?thesis
        by (cases w) (auto simp add: execute_def Let_def simp del: response.simps)
    qed
  qed
qed

text \<open>A command that \<open>sends\<close> does not admit: after its write, the rest keeps the relation.\<close>

lemma execute_after_write:
  assumes "\<And>line. keeps R (cb line)" "execute cb cmd timeout None extra p = (r, q)"
  shows "q = p \<or> R (port_write (cmd @ [13]) p) q"
proof (cases "list_all (\<lambda>c. c < 128) cmd \<and> \<not> write_fails p")
  case False
  with assms(2) R_refl show ?thesis by (auto simp: execute_def Let_def split: if_splits)
next
  case True
  with assms(2) have "response cb (avail (port_write (cmd @ [13]) p) + 1) cmd
      (p_clock (port_write (cmd @ [13]) p) + int timeout) extra [] (port_write (cmd @ [13]) p) = (r, q)"
    by (simp add: execute_def Let_def del: response.simps)
  moreover have "R q0 (snd (response cb n cmd d extra [] q0))" for q0 n d
    by (rule response_kept [OF assms(1)])
  ultimately show ?thesis by (metis snd_conv)
qed

lemma drain_kept:
  assumes "\<And>line. keeps R (cb line)"
  shows "keeps R (drain_urcs cb duration)"
proof -
  have "R p (snd (drain_loop cb n deadline p))" for n deadline p
  proof (induction n arbitrary: p)
    case 0
    show ?case by (simp add: R_refl)
  next
    case (Suc n)
    obtain r q where r: "readline deadline p = (r, q)" by fastforce
    then have q: "R p q" using readline_kept [of p deadline] by simp
    have cb: "R p (snd (cb l q))" for l using assms [of l] q R_trans unfolding keeps_def by blast
    have "R p (snd (drain_loop cb n deadline q'))" if "R p q'" for q'
      using Suc.IH R_trans that by blast
    with r q cb show ?case by (auto split: sum.split option.split prod.split) (metis snd_conv)+
  qed
  then show ?thesis by (simp add: keeps_def drain_urcs_def del: drain_loop.simps)
qed

end

text \<open>What was written stays, and grows by byte strings that \<open>sends\<close> admits.\<close>

definition written_grows :: "(pybytes \<Rightarrow> bool) \<Rightarrow> 'a port_scheme \<Rightarrow> 'a port_scheme \<Rightarrow> bool" where
  "written_grows sends p q \<longleftrightarrow> (\<exists>ws. p_written q = p_written p @ ws \<and> list_all sends ws)"

lemma written_grows_order: "preorder (written_grows sends)"
  by (auto simp: preorder_def written_grows_def)

lemma read_chunk_written [simp]: "p_written (snd (read_chunk p)) = p_written p"
  by (simp add: read_chunk_def Let_def split: list.split option.split prod.split)

interpretation writes: port_frame "written_grows sends" sends for sends
  by unfold_locales (auto simp: written_grows_order, auto simp: written_grows_def port_write_def)

section \<open>Lines out of a stream\<close>

text \<open>The bytes still to come, when no read fails: how the modem's answer is cut into reads
  does not matter for the lines.\<close>

definition stream :: "'a port_scheme \<Rightarrow> pybytes" where
  "stream p = p_buf p @ concat (map (\<lambda>(_, d). case d of None \<Rightarrow> [] | Some b \<Rightarrow> b) (p_feed p))"

definition timely :: "int \<Rightarrow> 'a port_scheme \<Rightarrow> bool" where
  "timely deadline p \<longleftrightarrow> list_all (\<lambda>(_, d). d \<noteq> None) (p_feed p)
     \<and> p_clock p + int (sum_list (map fst (p_feed p))) < deadline"

definition first_line :: "pybytes \<Rightarrow> pystr option \<times> pybytes" where
  "first_line bs = pop_line (length bs) bs"

lemma py_partition_miss: "c \<notin> set a \<Longrightarrow> py_partition c a = (a, None)"
  unfolding py_partition_def by (induction a) auto

lemma pop_line_miss: "10 \<notin> set bs \<Longrightarrow> pop_line n bs = (None, bs)"
proof (cases n)
  case (Suc m)
  assume "10 \<notin> set bs"
  then show ?thesis unfolding Suc by (simp add: py_partition_miss)
qed simp

lemma pop_line_hit:
  "10 \<notin> set raw \<Longrightarrow> pop_line (Suc n) (raw @ 10 # rest) =
     (if decode_line raw \<noteq> [] then (Some (decode_line raw), rest) else pop_line n rest)"
  by (simp add: Let_def)

lemma pop_line_fuel: "length bs \<le> n \<Longrightarrow> pop_line n bs = first_line bs"
proof (induction bs arbitrary: n rule: length_induct)
  case (1 bs)
  show ?case
  proof (cases "10 \<in> set bs")
    case False
    then show ?thesis by (simp add: first_line_def pop_line_miss)
  next
    case True
    then obtain raw r where bs: "bs = raw @ 10 # r" "10 \<notin> set raw" by (metis split_list_first)
    obtain m where m: "n = Suc m" "length r \<le> m" using 1(2) bs by (cases n) auto
    have "pop_line k r = first_line r" if "length r \<le> k" for k
      using 1(1) [rule_format, of r k] that bs by simp
    with bs m(2) pop_line_hit [OF bs(2)] show ?thesis
      unfolding m(1) bs(1) first_line_def [of "raw @ 10 # r"] by (simp del: pop_line.simps)
  qed
qed

lemma first_line_miss: "10 \<notin> set bs \<Longrightarrow> first_line bs = (None, bs)"
  by (simp add: first_line_def pop_line_miss)

lemma first_line_hit:
  "10 \<notin> set raw \<Longrightarrow> first_line (raw @ 10 # rest) =
     (if decode_line raw \<noteq> [] then (Some (decode_line raw), rest) else first_line rest)"
  using pop_line_fuel [of rest "length raw + length rest"] pop_line_hit [of raw "length raw + length rest" rest]
  by (simp add: first_line_def del: pop_line.simps)

lemma first_line_append:
  "(\<forall>l r. first_line bs = (Some l, r) \<longrightarrow> first_line (bs @ x) = (Some l, r @ x))
   \<and> (\<forall>r. first_line bs = (None, r) \<longrightarrow> first_line (bs @ x) = first_line (r @ x) \<and> 10 \<notin> set r)"
proof (induction bs rule: length_induct)
  case (1 bs)
  show ?case
  proof (cases "10 \<in> set bs")
    case False
    then show ?thesis by (simp add: first_line_miss)
  next
    case True
    then obtain raw r where bs: "bs = raw @ 10 # r" "10 \<notin> set raw" by (metis split_list_first)
    note hit = first_line_hit [OF bs(2)]
    show ?thesis
    proof (cases "decode_line raw \<noteq> []")
      case True
      with hit [of r] hit [of "r @ x"] show ?thesis by (simp add: bs)
    next
      case False
      with hit [of r] hit [of "r @ x"] 1 [rule_format, of r] show ?thesis by (simp add: bs)
    qed
  qed
qed

lemma stream_read_chunk: "list_all (\<lambda>(_, d). d \<noteq> None) (p_feed p) \<Longrightarrow> stream (snd (read_chunk p)) = stream p"
  by (auto simp: read_chunk_def stream_def Let_def split: list.split option.split)

lemma timely_read_chunk:
  "timely deadline p \<Longrightarrow> p_feed p \<noteq> [] \<Longrightarrow> timely deadline (snd (read_chunk p)) \<and> fst (read_chunk p) = Inr ()"
  by (auto simp: read_chunk_def timely_def Let_def split: list.split option.split)

text \<open>What reading leaves alone.\<close>

definition same_rest :: "'a port_scheme \<Rightarrow> 'a port_scheme \<Rightarrow> bool" where
  "same_rest p q \<longleftrightarrow> p_written q = p_written p \<and> port.more q = port.more p"

lemma readline_stream:
  "timely deadline p \<Longrightarrow> first_line (stream p) = (Some l, rest) \<Longrightarrow>
   \<exists>q. readline deadline p = (Inr (Some l), q) \<and> stream q = rest \<and> timely deadline q \<and> same_rest p q"
proof (induction deadline p rule: readline.induct)
  case (1 deadline p)
  obtain lo q where q: "pop_port p = (lo, q)" by fastforce
  obtain r where r: "first_line (p_buf p) = (lo, r)" "q = p\<lparr>p_buf := r\<rparr>"
    using q by (auto simp: pop_port_def first_line_def split: prod.splits)
  let ?x = "concat (map (\<lambda>(_, d). case d of None \<Rightarrow> [] | Some b \<Rightarrow> b) (p_feed p))"
  have st: "stream p = p_buf p @ ?x" "stream q = r @ ?x" by (simp_all add: stream_def r(2))
  have tq: "timely deadline q" using 1(2) by (simp add: r(2) timely_def)
  show ?case
  proof (cases lo)
    case (Some l')
    then have "first_line (stream p) = (Some l', stream q)"
      using first_line_append [of "p_buf p" ?x] r(1) unfolding st by blast
    with 1(3) have "l' = l" "stream q = rest" by simp_all
    moreover have "same_rest p q" by (simp add: r(2) same_rest_def)
    ultimately show ?thesis using q tq Some by (subst readline.simps) simp
  next
    case None
    then have fl: "first_line (stream q) = first_line (stream p)" "10 \<notin> set r"
      using first_line_append [of "p_buf p" ?x] r(1) unfolding st by simp_all
    have feed: "p_feed q \<noteq> []"
    proof
      assume "p_feed q = []"
      then have "stream q = r" using st(2) by (simp add: r(2))
      with fl 1(3) first_line_miss [OF fl(2)] show False by simp
    qed
    obtain c q' where c: "read_chunk q = (c, q')" by fastforce
    with timely_read_chunk [OF tq feed] have q': "c = Inr ()" "timely deadline q'" by simp_all
    have st': "stream q' = stream q" using stream_read_chunk [of q] tq c by (simp add: timely_def)
    have now: "\<not> deadline \<le> p_clock q" using tq by (simp add: timely_def)
    have "same_rest p q'"
      using c by (auto simp: r(2) same_rest_def read_chunk_def Let_def split: list.splits option.splits)
    then have sr: "same_rest p t" if "same_rest q' t" for t using that by (simp add: same_rest_def)
    from 1(1) [OF q [symmetric] None now c [symmetric] q'(1) q'(2)] 1(3) fl(1) st'
    obtain t where "readline deadline q' = (Inr (Some l), t)" "stream t = rest" "timely deadline t" "same_rest q' t"
      by auto
    with sr q None now c q'(1) show ?thesis by (subst readline.simps) auto
  qed
qed

text \<open>The modem's lines as it sends them, \<open>CR LF line CR LF\<close>.\<close>

definition line_ok :: "pystr \<Rightarrow> bool" where
  "line_ok l \<longleftrightarrow> l \<noteq> [] \<and> scalar_text l \<and> 10 \<notin> set l \<and> 13 \<notin> set l \<and> py_strip l = l"

definition line_bytes :: "pystr \<Rightarrow> pybytes" where
  "line_bytes l = [13, 10] @ (case utf8_encode l of Inr bs \<Rightarrow> bs | Inl _ \<Rightarrow> []) @ [13, 10]"

lemma utf8_char_low: "utf8_char c = Inr bs \<Longrightarrow> b \<in> set bs \<Longrightarrow> b < 128 \<Longrightarrow> b = c"
  by (auto simp: utf8_char_def split: if_splits)

lemma utf8_encode_low: "utf8_encode l = Inr bs \<Longrightarrow> b \<in> set bs \<Longrightarrow> b < 128 \<Longrightarrow> b \<in> set l"
proof (induction l arbitrary: bs)
  case Nil
  then show ?case by (simp add: utf8_encode_def)
next
  case (Cons c l)
  from Cons.prems(1) obtain x y where "utf8_char c = Inr x" "utf8_encode l = Inr y" "bs = x @ y"
    by (auto simp: utf8_encode_Cons bind_exn_eq_Inr)
  with Cons utf8_char_low show ?case by auto
qed

lemma dropWhile_absent: "c \<notin> set xs \<Longrightarrow> dropWhile (\<lambda>b. b = c) xs = xs"
  by (cases xs) auto

lemma first_line_frame:
  assumes "line_ok l"
  shows "first_line (line_bytes l @ rest) = (Some l, [] @ rest)"
proof -
  obtain bs where bs: "utf8_encode l = Inr bs"
    using assms utf8_encode_scalar unfolding line_ok_def by blast
  have nb: "10 \<notin> set bs" "13 \<notin> set bs"
    using utf8_encode_low [OF bs] assms unfolding line_ok_def by auto
  have e: "decode_line [13] = []"
    by (simp add: decode_line_def py_lstrip_def py_rstrip_def py_strip_def)
  have strip: "dropWhile (\<lambda>b. b = 13) bs = bs" "dropWhile (\<lambda>b. b = 13) (rev bs) = rev bs"
    using dropWhile_absent [of 13 bs] dropWhile_absent [of 13 "rev bs"] nb(2) by simp_all
  have "py_lstrip (\<lambda>b. b = 13) (bs @ [13]) = (if bs = [] then [] else bs @ [13])"
    using nb(2) by (cases bs) (auto simp: py_lstrip_def)
  then have "py_rstrip (\<lambda>b. b = 13) (py_lstrip (\<lambda>b. b = 13) (bs @ [13])) = bs"
    using strip by (simp add: py_rstrip_def)
  then have d: "decode_line (bs @ [13]) = l"
    using utf8_decode_encode [OF bs] assms by (simp add: decode_line_def line_ok_def)
  have "first_line (line_bytes l @ rest) = first_line ([13] @ 10 # (bs @ [13]) @ 10 # rest)"
    by (simp add: line_bytes_def bs)
  also have "\<dots> = first_line ((bs @ [13]) @ 10 # rest)"
    using first_line_hit [of "[13]" "(bs @ [13]) @ 10 # rest"] e by simp
  also have "\<dots> = (Some l, rest)"
    using first_line_hit [of "bs @ [13]" rest] d nb assms by (simp add: line_ok_def)
  finally show ?thesis by simp
qed

text \<open>A callback that, on a given line, only changes the part of the state beyond the port, from
  states of a given kind to states of that kind.\<close>

definition acts_apart :: "'a urc_cb \<Rightarrow> (pystr \<Rightarrow> 'a \<Rightarrow> 'a) \<Rightarrow> ('a \<Rightarrow> bool) \<Rightarrow> pystr \<Rightarrow> bool" where
  "acts_apart cb f ok line \<longleftrightarrow> (\<forall>p. ok (port.more p) \<longrightarrow>
     cb line p = (Inr (), p\<lparr>more := f line (port.more p)\<rparr>) \<and> ok (f line (port.more p)))"

definition apart :: "(pystr \<Rightarrow> 'a \<Rightarrow> 'a) \<Rightarrow> 'a urc_cb" where
  "apart f line p = (Inr (), p\<lparr>more := f line (port.more p)\<rparr>)"

lemma acts_apart_apart [simp]: "acts_apart (apart f) f (\<lambda>_. True) line"
  by (simp add: acts_apart_def apart_def)

definition handed_over :: "pystr \<Rightarrow> bool \<Rightarrow> pystr \<Rightarrow> bool" where
  "handed_over cmd extra l \<longleftrightarrow> l \<noteq> cmd \<and> is_urc l \<and> \<not> extra"

definition kept_line :: "pystr \<Rightarrow> bool \<Rightarrow> pystr \<Rightarrow> bool" where
  "kept_line cmd extra l \<longleftrightarrow> l \<noteq> cmd \<and> (extra \<or> \<not> is_urc l)"

definition final_line :: "pystr \<Rightarrow> pystr \<Rightarrow> bool" where
  "final_line cmd l \<longleftrightarrow> l \<noteq> cmd \<and> (l = FINAL_OK \<or> final_error l)"

lemma response_answer:
  assumes "final_line cmd fin" "line_ok fin"
  shows "list_all line_ok pre \<Longrightarrow> list_all (\<lambda>l. \<not> final_line cmd l) pre \<Longrightarrow>
    list_all (acts_apart cb f ok) (filter (handed_over cmd extra) pre) \<Longrightarrow> ok (port.more p) \<Longrightarrow> timely deadline p \<Longrightarrow>
    stream p = concat (map line_bytes pre) @ line_bytes fin @ rest \<Longrightarrow> length pre < n \<Longrightarrow>
    \<exists>q. response cb n cmd deadline extra lines p =
        ((if fin = FINAL_OK then Inr (lines @ filter (kept_line cmd extra) pre) else Inl (ATError fin)), q)
      \<and> stream q = rest \<and> p_written q = p_written p
      \<and> port.more q = fold f (filter (handed_over cmd extra) pre) (port.more p)"
proof (induction pre arbitrary: n lines p)
  case Nil
  from readline_stream [OF Nil.prems(5), of fin rest] Nil.prems(6) first_line_frame [OF assms(2), of rest]
  obtain q where "readline deadline p = (Inr (Some fin), q)" "stream q = rest" "same_rest p q" by auto
  moreover obtain k where "n = Suc k" using Nil.prems(7) by (cases n) auto
  ultimately show ?case using assms(1) by (auto simp: same_rest_def final_line_def)
next
  case (Cons l pre)
  let ?tail = "concat (map line_bytes pre) @ line_bytes fin @ rest"
  have l: "line_ok l" "\<not> final_line cmd l" and pre: "list_all line_ok pre" "list_all (\<lambda>l. \<not> final_line cmd l) pre"
    "list_all (acts_apart cb f ok) (filter (handed_over cmd extra) pre)"
    using Cons.prems(1-3) by (auto split: if_splits)
  from readline_stream [OF Cons.prems(5), of l ?tail] Cons.prems(6) first_line_frame [OF l(1), of ?tail]
  obtain q where q: "readline deadline p = (Inr (Some l), q)" "stream q = ?tail" "timely deadline q" "same_rest p q"
    by auto
  have ok: "ok (port.more q)" using q(4) Cons.prems(4) by (simp add: same_rest_def)
  obtain k where k: "n = Suc k" "length pre < k" using Cons.prems(7) by (cases n) auto
  let ?q = "q\<lparr>more := f l (port.more q)\<rparr>"
  have tq: "timely deadline ?q" "stream ?q = ?tail" using q(2,3) by (simp_all add: timely_def stream_def)
  note ih = Cons.IH [OF pre ok q(3,2) k(2)] and ih' = Cons.IH [OF pre _ tq k(2)]
  consider "l = cmd" "\<not> handed_over cmd extra l" "\<not> kept_line cmd extra l"
    | "l \<noteq> cmd" "is_urc l" "\<not> extra" "handed_over cmd extra l" "\<not> kept_line cmd extra l"
    | "l \<noteq> cmd" "\<not> (is_urc l \<and> \<not> extra)" "\<not> handed_over cmd extra l" "kept_line cmd extra l"
    by (auto simp: handed_over_def kept_line_def)
  then show ?case
  proof cases
    case 1
    with q k ih [of lines] show ?thesis by (auto simp: same_rest_def)
  next
    case 2
    then have "acts_apart cb f ok l" using Cons.prems(3) by simp
    with ok have "cb l q = (Inr (), ?q)" "ok (f l (port.more q))" by (simp_all add: acts_apart_def)
    with 2 q k ih' [of lines] l(2) show ?thesis by (auto simp: same_rest_def final_line_def)
  next
    case 3
    with q k ih [of "lines @ [l]"] l(2) show ?thesis by (auto simp: same_rest_def final_line_def)
  qed
qed

lemma length_frames: "length pre \<le> length (concat (map line_bytes pre))"
  by (induction pre) (auto simp: line_bytes_def)

lemma stream_length: "length (stream p) \<le> avail p"
  by (induction "p_feed p" arbitrary: p) (auto simp: stream_def avail_def length_concat comp_def case_prod_beta split: option.split intro!: sum_list_mono)

text \<open>The answer of a command without a payload, whatever the pieces it is read in: for callbacks
  that leave the port alone on the lines handed to them.\<close>

lemma execute_lines:
  assumes "list_all (\<lambda>c. c < 128) cmd" "\<not> write_fails p"
    and "list_all line_ok pre" "list_all (\<lambda>l. \<not> final_line cmd l) pre" "final_line cmd fin" "line_ok fin"
    and "stream p = concat (map line_bytes pre) @ line_bytes fin @ rest"
    and "timely (p_clock p + int timeout) p"
    and "list_all (acts_apart cb f ok) (filter (handed_over cmd extra) pre)" "ok (port.more p)"
  shows "\<exists>q. execute cb cmd timeout None extra p =
        ((if fin = FINAL_OK then Inr (filter (kept_line cmd extra) pre) else Inl (ATError fin)), q)
      \<and> p_written q = p_written p @ [cmd @ [13]] \<and> stream q = rest
      \<and> port.more q = fold f (filter (handed_over cmd extra) pre) (port.more p)"
proof -
  let ?p = "port_write (cmd @ [13]) p"
  have t: "timely (p_clock ?p + int timeout) ?p" "stream ?p = concat (map line_bytes pre) @ line_bytes fin @ rest"
    "ok (port.more ?p)"
    using assms(7,8,10) by (simp_all add: port_write_def timely_def stream_def)
  have "length pre \<le> length (stream ?p)"
    using length_frames [of pre] unfolding t(2) by simp
  then have n: "length pre < avail ?p + 1" using stream_length [of ?p] by linarith
  from response_answer [OF assms(5,6,3,4,9) t(3,1,2) n, of "[]"] assms(1,2)
  show ?thesis by (auto simp: execute_def Let_def port_write_def simp del: response.simps)
qed

end
