(* ===== verification/Sim.thy ===== *)
theory Sim
  imports At_Port Receive
begin

text \<open>
  The helpers over an \<open>ATPort\<close>: SIM state, PIN entry, registration, signal and operator
  (\<open>server/gtg_server/modem/sim.py\<close>), the receive set-up of \<open>modem/receive.py\<close>, and
  \<open>identify\<close> of \<open>modem/discovery.py\<close>.  \<open>cb\<close> is the port's callback for unsolicited lines;
  times are in milliseconds.  \<open>.upper()\<close> is taken on ASCII, and the division in the signal
  percentage is exact (the modem's values are small).
\<close>

section \<open>SIM state and PIN\<close>

datatype sim_state = SimReady | SimPinRequired | SimPukRequired | SimAbsent | SimUnknown

definition cpin_error :: "pystr \<Rightarrow> sim_state" where
  "cpin_error e =
     (let msg = ascii_upper e
      in if py_contains (str_of ''SIM NOT INSERTED'') msg \<or> py_contains (str_of ''10'') msg
         then SimAbsent else SimUnknown)"

fun cpin_lines :: "pystr list \<Rightarrow> sim_state" where
  "cpin_lines [] = SimUnknown"
| "cpin_lines (line # lines) =
     (let up = ascii_upper line
      in if py_contains (str_of ''READY'') up then SimReady
         else if py_contains (str_of ''SIM PUK'') up then SimPukRequired
         else if py_contains (str_of ''SIM PIN'') up then SimPinRequired
         else cpin_lines lines)"

fun at_message :: "exn \<Rightarrow> pystr" where
  "at_message (ATError m) = m"
| "at_message (ATTimeout m) = m"
| "at_message _ = []"

definition cpin_state :: "'a urc_cb \<Rightarrow> ('a port_scheme, sim_state) act" where
  "cpin_state cb =
     attempt (execute cb (str_of ''AT+CPIN?'') 10000 None False) is_at_error
       (\<lambda>e. ret (cpin_error (at_message e))) (\<lambda>lines. ret (cpin_lines lines))"

definition pin_command :: "pystr \<Rightarrow> pystr" where
  "pin_command pin = str_of ''AT+CPIN='' @ [34] @ pin @ [34]"

definition enter_pin :: "'a urc_cb \<Rightarrow> pystr \<Rightarrow> ('a port_scheme, unit) act" where
  "enter_pin cb pin =
     (if \<not> py_isdigit pin \<or> \<not> (4 \<le> length pin \<and> length pin \<le> 8) then throw ValueError
      else andThen (execute cb (pin_command pin) 20000 None False) (\<lambda>_. ret ()))"

section \<open>Registration, signal, operator\<close>

text \<open>\<open>s.strip().split()[0]\<close>: \<open>None\<close> is \<open>IndexError\<close>.\<close>

definition first_word :: "pystr \<Rightarrow> pystr option" where
  "first_word s =
     (case takeWhile (\<lambda>c. \<not> py_isspace c) (py_lstrip py_isspace s) of [] \<Rightarrow> None | w \<Rightarrow> Some w)"

text \<open>One answer: the state of the first line that has one; no such line is \<open>None\<close>; an empty
  second field raises \<open>IndexError\<close>, which the code does not catch.\<close>

fun registration_lines :: "pystr list \<Rightarrow> exn + int option" where
  "registration_lines [] = Inr None"
| "registration_lines (line # lines) =
     (case after_colon line of
        None \<Rightarrow> registration_lines lines
      | Some rest \<Rightarrow>
          (case py_split 44 rest of
             _ # p1 # _ \<Rightarrow>
               (case first_word p1 of
                  None \<Rightarrow> Inl IndexError
                | Some w \<Rightarrow> (case py_int w of Some n \<Rightarrow> Inr (Some n) | None \<Rightarrow> registration_lines lines))
           | _ \<Rightarrow> registration_lines lines))"

definition descriptions :: "int \<Rightarrow> pystr" where
  "descriptions n =
     (if n = 0 then str_of ''not_registered'' else if n = 1 then str_of ''home''
      else if n = 2 then str_of ''searching'' else if n = 3 then str_of ''denied''
      else if n = 4 then str_of ''unknown'' else if n = 5 then str_of ''roaming''
      else str_of ''unknown'')"

text \<open>The answer of a query, or nothing when it fails in any way.\<close>

definition tolerant :: "'a urc_cb \<Rightarrow> pystr \<Rightarrow> nat \<Rightarrow> ('a port_scheme, pystr list option) act" where
  "tolerant cb cmd timeout =
     attempt (execute cb cmd timeout None False) any_exception (\<lambda>_. ret None) (\<lambda>lines. ret (Some lines))"

fun registration_cmds :: "'a urc_cb \<Rightarrow> pystr list \<Rightarrow> ('a port_scheme, int option \<times> pystr) act" where
  "registration_cmds cb [] = ret (None, str_of ''unknown'')"
| "registration_cmds cb (cmd # cmds) =
     andThen (tolerant cb cmd 5000) (\<lambda>answer.
       case answer of
         None \<Rightarrow> registration_cmds cb cmds
       | Some lines \<Rightarrow> andThen (lift (registration_lines lines)) (\<lambda>st.
           case st of Some n \<Rightarrow> ret (Some n, descriptions n) | None \<Rightarrow> registration_cmds cb cmds))"

definition registration :: "'a urc_cb \<Rightarrow> ('a port_scheme, int option \<times> pystr) act" where
  "registration cb = registration_cmds cb [str_of ''AT+CREG?'', str_of ''AT+CEREG?'', str_of ''AT+CGREG?'']"

definition registered :: "'a urc_cb \<Rightarrow> ('a port_scheme, bool) act" where
  "registered cb = andThen (registration cb) (\<lambda>(st, _). ret (st = Some 1 \<or> st = Some 5))"

text \<open>\<open>round(rssi * 100 / 31)\<close>: the quotient is never half-way, as 31 is odd.\<close>

definition signal_percent :: "int \<Rightarrow> int" where
  "signal_percent rssi = (200 * rssi + 31) div 62"

type_synonym signal = "int option \<times> int option \<times> int option"

fun signal_lines :: "pystr list \<Rightarrow> signal" where
  "signal_lines [] = (None, None, None)"
| "signal_lines (line # lines) =
     (if py_startswith line (str_of ''+CSQ:'') then
        (case py_int (py_strip (hd (py_split 44 (py_split 58 line ! 1)))) of
           None \<Rightarrow> (None, None, None)
         | Some rssi \<Rightarrow>
             (if rssi = 99 then (Some 99, None, None)
              else (Some rssi, Some (-113 + 2 * rssi), Some (signal_percent rssi))))
      else signal_lines lines)"

definition signal :: "'a urc_cb \<Rightarrow> ('a port_scheme, signal) act" where
  "signal cb = andThen (tolerant cb (str_of ''AT+CSQ'') 5000) (\<lambda>answer.
     ret (case answer of None \<Rightarrow> (None, None, None) | Some lines \<Rightarrow> signal_lines lines))"

fun operator_lines :: "pystr list \<Rightarrow> pystr option" where
  "operator_lines [] = None"
| "operator_lines (line # lines) =
     (case py_split 34 line of _ # name # _ \<Rightarrow> Some name | _ \<Rightarrow> operator_lines lines)"

definition operator :: "'a urc_cb \<Rightarrow> ('a port_scheme, pystr option) act" where
  "operator cb = andThen (tolerant cb (str_of ''AT+COPS?'') 10000) (\<lambda>answer.
     ret (case answer of None \<Rightarrow> None | Some lines \<Rightarrow> operator_lines lines))"

section \<open>Receive set-up\<close>

datatype strategy = Cmti | Cmt | Poll

fun try_commands :: "'a urc_cb \<Rightarrow> (pystr \<times> 'b) list \<Rightarrow> 'b \<Rightarrow> ('a port_scheme, 'b) act" where
  "try_commands cb [] none = ret none"
| "try_commands cb ((cmd, v) # rest) none =
     andThen (tolerant cb cmd 5000) (\<lambda>answer.
       case answer of Some _ \<Rightarrow> ret v | None \<Rightarrow> try_commands cb rest none)"

definition select_cnmi :: "'a urc_cb \<Rightarrow> ('a port_scheme, strategy) act" where
  "select_cnmi cb = try_commands cb
     [(str_of ''AT+CNMI=2,1,0,0,0'', Cmti), (str_of ''AT+CNMI=1,1,0,0,0'', Cmti),
      (str_of ''AT+CNMI=2,2,0,0,0'', Cmt), (str_of ''AT+CNMI=1,2,0,0,0'', Cmt)] Poll"

definition cpms_command :: "pystr \<Rightarrow> pystr" where
  "cpms_command storage =
     str_of ''AT+CPMS='' @ py_join [44] [[34] @ storage @ [34], [34] @ storage @ [34], [34] @ storage @ [34]]"

definition select_storage :: "'a urc_cb \<Rightarrow> ('a port_scheme, pystr option) act" where
  "select_storage cb = try_commands cb
     (map (\<lambda>s. (cpms_command s, Some s)) [str_of ''SM'', str_of ''ME'', str_of ''MT'']) None"

definition storage_usage :: "'a urc_cb \<Rightarrow> ('a port_scheme, int option \<times> int option) act" where
  "storage_usage cb = andThen (tolerant cb (str_of ''AT+CPMS?'') 5000) (\<lambda>answer.
     ret (case answer of None \<Rightarrow> (None, None) | Some lines \<Rightarrow> parse_cpms lines))"

section \<open>Identity of the modem\<close>

definition identity_queries :: "(pystr \<times> pystr) list" where
  "identity_queries = [(str_of ''ati'', str_of ''ATI''), (str_of ''manufacturer'', str_of ''AT+CGMI''),
     (str_of ''model'', str_of ''AT+CGMM''), (str_of ''firmware'', str_of ''AT+CGMR''), (str_of ''imei'', str_of ''AT+CGSN'')]"

definition identify :: "'a urc_cb \<Rightarrow> ('a port_scheme, (pystr \<times> pystr option) list) act" where
  "identify cb = gather (\<lambda>(key, cmd). andThen (tolerant cb cmd 5000) (\<lambda>answer.
     ret [(key, map_option (py_join [32]) answer)])) identity_queries"

section \<open>They are steady\<close>

lemma steady_tolerant [steady_intros]: "steady m (\<lambda>cb. tolerant cb cmd timeout)"
  unfolding tolerant_def by (intro steady_intros)

lemma steady_cpin_state [steady_intros]: "steady m cpin_state"
  unfolding cpin_state_def by (intro steady_intros)

lemma steady_enter_pin [steady_intros]: "steady m (\<lambda>cb. enter_pin cb pin)"
  unfolding enter_pin_def by (intro steady_intros) simp

lemma registration_lines_fuel: "registration_lines lines \<noteq> Inl OutOfFuel"
  by (induction lines) (simp_all split: option.split list.split)

lemma steady_registration [steady_intros]: "steady m registration"
proof -
  have "steady m (\<lambda>cb. registration_cmds cb cmds)" for cmds
    by (induction cmds) (auto intro!: steady_intros registration_lines_fuel simp del: act_simps)
  then show ?thesis unfolding registration_def .
qed

lemma steady_registered [steady_intros]: "steady m registered"
  unfolding registered_def case_prod_beta by (intro steady_intros)

lemma steady_signal [steady_intros]: "steady m signal"
  and steady_operator [steady_intros]: "steady m operator"
  and steady_storage_usage [steady_intros]: "steady m storage_usage"
  unfolding signal_def operator_def storage_usage_def by (intro steady_intros)+

lemma steady_try [steady_intros]: "steady m (\<lambda>cb. try_commands cb cs none)"
  by (induction cs) (auto intro!: steady_intros simp del: act_simps)

lemma steady_select [steady_intros]: "steady m select_cnmi" "steady m select_storage"
  unfolding select_cnmi_def select_storage_def by (intro steady_intros)+

lemma steady_identify [steady_intros]: "steady m identify"
  unfolding identify_def case_prod_beta by (intro steady_intros)

end
