(* ===== verification/Codec_Errors.thy ===== *)
theory Codec_Errors
  imports Receive
begin

text \<open>
  Which exceptions the codec and the message hash can raise: the decoder only \<open>ValueError\<close> and
  \<open>IndexError\<close>, which is what \<open>_process_pdu\<close> of the worker catches, the encoder and the hash
  only \<open>ValueError\<close>, which is what \<open>_do_send\<close> and the API catch.
\<close>

definition raises :: "exn set \<Rightarrow> exn + 'a \<Rightarrow> bool" where
  "raises E r \<longleftrightarrow> (\<forall>e. r = Inl e \<longrightarrow> e \<in> E)"

named_theorems raises_intros \<open>which exceptions a computation raises\<close>

lemma raises_Inr [raises_intros, simp]: "raises E (Inr x)"
  and raises_Inl [simp]: "raises E (Inl e) \<longleftrightarrow> e \<in> E"
  by (simp_all add: raises_def)

lemma raisesD: "raises E r \<Longrightarrow> e \<notin> E \<Longrightarrow> r \<noteq> Inl e"
  by (auto simp: raises_def)

lemma raises_mono: "raises E r \<Longrightarrow> E \<subseteq> F \<Longrightarrow> raises F r"
  by (auto simp: raises_def)

lemma raises_bind [raises_intros]: "raises E r \<Longrightarrow> (\<And>x. raises E (f x)) \<Longrightarrow> raises E (bind_exn r f)"
  by (cases r) (simp_all add: raises_def)

lemma raises_if [raises_intros]: "(b \<Longrightarrow> raises E r) \<Longrightarrow> (\<not> b \<Longrightarrow> raises E s) \<Longrightarrow> raises E (if b then r else s)"
  by simp

lemma raises_traverse [raises_intros]: "(\<And>x. raises E (f x)) \<Longrightarrow> raises E (traverse f xs)"
  by (induction xs) (simp_all add: raises_bind)

lemma raises_index [raises_intros]: "IndexError \<in> E \<Longrightarrow> raises E (py_index xs i)"
  by (simp add: py_index_def)

lemma raises_bytes [raises_intros]: "ValueError \<in> E \<Longrightarrow> raises E (py_bytes xs)"
  by (simp add: py_bytes_def)

lemma raises_utf8 [raises_intros]: "ValueError \<in> E \<Longrightarrow> raises E (utf8_encode s)"
  unfolding utf8_encode_def by (intro raises_intros) (simp add: utf8_char_def)

lemma raises_utf16 [raises_intros]: "ValueError \<in> E \<Longrightarrow> raises E (utf16_encode s)"
  unfolding utf16_encode_def by (intro raises_intros) (simp add: utf16_char_def)

lemma raises_fromhex [raises_intros]: "ValueError \<in> E \<Longrightarrow> raises E (fromhex s)"
  by (induction s rule: fromhex.induct) (auto intro!: raises_intros split: list.split option.split)

lemma raises_parse_udh [raises_intros]: "IndexError \<in> E \<Longrightarrow> raises E (parse_udh h cr)"
  by (induction h cr rule: parse_udh.induct) (simp_all add: Let_def raises_intros)

lemma raises_to_septets [raises_intros]: "ValueError \<in> E \<Longrightarrow> raises E (to_septets s)"
  by (induction s) (auto intro!: raises_intros split: option.split)

lemma raises_encode_bcd [raises_intros]: "ValueError \<in> E \<Longrightarrow> raises E (encode_bcd s)"
  by (induction s rule: encode_bcd.induct) (auto intro!: raises_intros split: option.split)

lemma raises_encode_address [raises_intros]: "ValueError \<in> E \<Longrightarrow> raises E (encode_address n)"
  by (auto simp: encode_address_def Let_def intro!: raises_intros)

lemma raises_submit_ud [raises_intros]: "ValueError \<in> E \<Longrightarrow> raises E (submit_ud g u p)"
  unfolding submit_ud_def Let_def by (intro raises_intros)

lemma raises_submit_tpdu [raises_intros]: "ValueError \<in> E \<Longrightarrow> raises E (submit_tpdu n g m r k i p)"
  unfolding submit_tpdu_def case_prod_beta by (intro raises_intros)

lemma raises_submit_parts [raises_intros]: "ValueError \<in> E \<Longrightarrow> raises E (submit_parts s)"
  unfolding submit_parts_def split_ucs2_def by (intro raises_intros) simp_all

lemma raises_build [raises_intros]: "ValueError \<in> E \<Longrightarrow> raises E (build_submit_pdus rnd n s)"
  unfolding build_submit_pdus_def case_prod_beta Let_def by (intro raises_intros)

lemma raises_scts [raises_intros]: "ValueError \<in> E \<Longrightarrow> IndexError \<in> E \<Longrightarrow> raises E (decode_scts d)"
  unfolding decode_scts_def Let_def by (auto intro!: raises_intros split: list.split)

lemma raises_decode_ud [raises_intros]: "IndexError \<in> E \<Longrightarrow> raises E (decode_ud dcs udhi udl ud)"
  unfolding decode_ud_def Let_def by (intro raises_intros)

lemma raises_decode_deliver: "raises {ValueError, IndexError} (decode_deliver pdu)"
  unfolding decode_deliver_def Let_def case_prod_beta by (intro raises_intros) simp_all

lemma raises_message_hash [raises_intros]: "ValueError \<in> E \<Longrightarrow> raises E (message_hash digest a b c)"
  unfolding message_hash_def by (intro raises_intros)

lemma raises_assembler: "raises {IndexError} (fst (assembler_add now asm d i))"
  unfolding assembler_add_def merge_parts_def Let_def case_prod_beta
  by (auto intro!: raises_intros split: option.split)

lemma raises_flush: "raises {IndexError} (fst (flush_stale now asm))"
  unfolding flush_stale_def merge_parts_def Let_def case_prod_beta
  by (auto intro!: raises_intros split: option.split)

end
