(* ===== verification/Worker.thy ===== *)
theory Worker
  imports Hub Outbox Sim Codec_Errors
begin

text \<open>
  The modem worker, \<open>server/gtg_server/modem/worker.py\<close>: the one thread that owns the serial
  port.  Its state extends the port's record with the hub, the outbox, the assembler and the
  fields of \<open>ModemWorker\<close>; its operations are \<open>act\<close>s on that state, and every command of the
  modem runs through \<open>execute\<close>, which calls \<open>on_urc\<close> for unsolicited lines while the command is
  still running, as in the code.  What the environment decides is part of the state: the reads
  of the port, the bytes of \<open>os.urandom\<close>, and how many file operations of each coming store write
  succeed.  Other threads are not interleaved within an operation.
\<close>

section \<open>Configuration and state\<close>

text \<open>Configuration values as \<open>Config\<close> returns them, the hash, the clocks' text, and the text of
  an exception that carries none in the model.  Intervals are in seconds, the clock in
  milliseconds.\<close>

record wcfg =
  digest :: "pybytes \<Rightarrow> pystr"
  sim_pin :: pystr
  sim_pin_max_tries :: int
  poll_interval :: int
  local_now :: "int \<Rightarrow> pystr"
  utc_now :: "int \<Rightarrow> pystr"
  exn_text :: "exn \<Rightarrow> pystr"

datatype conn_state = Starting | NoModem | Down | PinNeeded | PukLocked | Registering | Online

record health =
  hs_state :: conn_state
  hs_sim :: sim_state
  hs_registration :: "pystr option"
  hs_operator :: "pystr option"
  hs_signal :: "signal option"
  hs_strategy :: "strategy option"
  hs_storage :: "(int option \<times> int option) option"
  last_inbound :: "pystr option"
  last_outbound :: "pystr option"
  last_error :: "pystr option"
  hs_modem :: "(pystr \<times> pystr option) list"
  hs_port :: "pystr option"

datatype job = SendJob int | PinJob pystr nat | DeleteJob "int list" | WakeJob

record worker = port +
  w_hub :: "health hub"
  w_outbox :: outbox
  w_asm :: assembler
  seen_hashes :: "pystr list"
  w_strategy :: "strategy option"
  pdu_mode :: bool
  cmgl_broken :: bool
  modem_info :: "(pystr \<times> pystr option) list"
  pin_submissions :: nat
  env_pin_tries :: nat
  runtime_pin :: "pystr option"
  cmt_pending :: bool
  w_health :: health
  jobs :: "job list"
  replies :: "(nat \<times> sim_state) list"
  stopping :: bool
  disk_budget :: "nat list"
  random_bytes :: "nat list"

type_synonym 'r wact = "(worker, 'r) act"
type_synonym wcb = "unit worker_ext urc_cb"

section \<open>The interface of the other threads\<close>

definition submit_send :: "int \<Rightarrow> worker \<Rightarrow> worker" where
  "submit_send rec_id w = w\<lparr>jobs := jobs w @ [SendJob rec_id]\<rparr>"

text \<open>The reply queue is named by a number.\<close>

definition submit_pin :: "pystr \<Rightarrow> nat \<Rightarrow> worker \<Rightarrow> worker" where
  "submit_pin pin reply w = w\<lparr>jobs := jobs w @ [PinJob pin reply]\<rparr>"

definition request_delete :: "int list \<Rightarrow> worker \<Rightarrow> worker" where
  "request_delete indices w = (if indices \<noteq> [] then w\<lparr>jobs := jobs w @ [DeleteJob indices]\<rparr> else w)"

definition stop_worker :: "worker \<Rightarrow> worker" where
  "stop_worker w = w\<lparr>stopping := True, jobs := jobs w @ [WakeJob]\<rparr>"

text \<open>\<open>_set_health\<close>; \<open>loud\<close>: \<open>state\<close> or \<open>sim\<close> is among the fields.\<close>

definition set_health :: "bool \<Rightarrow> (health \<Rightarrow> health) \<Rightarrow> unit wact" where
  "set_health loud f = change (\<lambda>w.
     (let h = f (w_health w); w' = w\<lparr>w_health := h\<rparr>
      in if h \<noteq> w_health w \<and> loud then w'\<lparr>w_hub := broadcast (HealthEv h) (w_hub w')\<rparr> else w'))"

section \<open>Secrets in error texts\<close>

fun err_text :: "wcfg \<Rightarrow> exn \<Rightarrow> pystr" where
  "err_text cfg (ATError m) = m"
| "err_text cfg (ATTimeout m) = m"
| "err_text cfg e = exn_text cfg e"

text \<open>\<open>s.replace(old, new)\<close> for an \<open>old\<close> that is not empty.\<close>

function py_replace :: "pystr \<Rightarrow> pystr \<Rightarrow> pystr \<Rightarrow> pystr" where
  "py_replace old new [] = []"
| "py_replace old new (c # cs) =
     (if old \<noteq> [] \<and> py_startswith (c # cs) old then new @ py_replace old new (drop (length old) (c # cs))
      else c # py_replace old new cs)"
  by pat_completeness auto

termination py_replace
  by (relation "measure (\<lambda>(old, new, s). length s)") (auto simp: Suc_le_eq)

definition mask :: "pystr \<Rightarrow> pystr \<Rightarrow> pystr" where
  "mask secret s = (if secret \<noteq> [] then py_replace secret (str_of ''****'') s else s)"

definition redact_text :: "wcfg \<Rightarrow> pystr option \<Rightarrow> pystr \<Rightarrow> pystr" where
  "redact_text cfg runtime s = mask (case runtime of Some p \<Rightarrow> p | None \<Rightarrow> []) (mask (sim_pin cfg) s)"

definition redact :: "wcfg \<Rightarrow> exn \<Rightarrow> worker \<Rightarrow> pystr" where
  "redact cfg e w = redact_text cfg (runtime_pin w) (err_text cfg e)"

section \<open>Publishing\<close>

definition next_budget :: "worker \<Rightarrow> nat" where
  "next_budget w = (case disk_budget w of [] \<Rightarrow> 99 | k # _ \<Rightarrow> k)"

definition hub_publish :: "stamped \<Rightarrow> int list \<Rightarrow> published wact" where
  "hub_publish m indices w =
     (case publish (next_budget w) (w_hub w) m indices of
        (r, hub) \<Rightarrow> (r, w\<lparr>w_hub := hub, disk_budget := tl (disk_budget w)\<rparr>))"

definition cmgd_command :: "int \<Rightarrow> pystr" where
  "cmgd_command i = str_of ''AT+CMGD='' @ int_dec i"

definition delete_indices :: "int list \<Rightarrow> wcb \<Rightarrow> unit wact" where
  "delete_indices indices cb = each (\<lambda>i.
     attempt (execute cb (cmgd_command i) 10000 None False) at_failure (\<lambda>_. ret ()) (\<lambda>_. ret ())) indices"

definition SEEN_KEEP :: nat where "SEEN_KEEP = 5000"

definition stamp :: "wcfg \<Rightarrow> int \<Rightarrow> pystr \<Rightarrow> inbound \<Rightarrow> stamped" where
  "stamp cfg now h m = inbound.extend m (stamped.fields (local_now cfg now) h)"

definition publish_message :: "wcfg \<Rightarrow> inbound \<Rightarrow> int list \<Rightarrow> wcb \<Rightarrow> unit wact" where
  "publish_message cfg m indices cb =
     andThen (lift (message_hash (digest cfg) (in_sender m) (in_scts m) (in_text m))) (\<lambda>h.
     look (\<lambda>w. if h \<in> set (seen_hashes w) then ret ()
       else andThen (change (\<lambda>w. w\<lparr>seen_hashes := last_n SEEN_KEEP (seen_hashes w @ [h])\<rparr>)) (\<lambda>_.
            andThen (hub_publish (stamp cfg (p_clock w) h m) indices) (\<lambda>msg.
            andThen (look (\<lambda>w'. if hub_store (w_hub w') \<noteq> None then delete_indices indices cb else ret ())) (\<lambda>_.
              set_health False (\<lambda>hs. hs\<lparr>last_inbound := Some (received_at msg)\<rparr>))))))"

section \<open>Reading messages from the modem\<close>

definition index_list :: "int option \<Rightarrow> int list" where
  "index_list index = (case index of Some i \<Rightarrow> [i] | None \<Rightarrow> [])"

definition assemble :: "deliver \<Rightarrow> int option \<Rightarrow> (inbound \<times> int list) option wact" where
  "assemble d index w =
     (case assembler_add (p_clock w) (w_asm w) d index of (r, asm) \<Rightarrow> (r, w\<lparr>w_asm := asm\<rparr>))"

definition process_pdu :: "wcfg \<Rightarrow> pystr \<Rightarrow> int option \<Rightarrow> wcb \<Rightarrow> unit wact" where
  "process_pdu cfg pdu index cb =
     (case decode_deliver pdu of
        Inl e \<Rightarrow> if value_or_index e then ret () else throw e
      | Inr (Deliver d) \<Rightarrow>
          except (andThen (assemble d index) (\<lambda>res.
              case res of None \<Rightarrow> ret () | Some (m, indices) \<Rightarrow> publish_message cfg m indices cb))
            any_exception (\<lambda>_. delete_indices (index_list index) cb)
      | Inr _ \<Rightarrow> delete_indices (index_list index) cb)"

text \<open>The text-mode listing.\<close>

definition text_header :: "pystr \<Rightarrow> (int \<times> pystr \<times> pystr) option" where
  "text_header line =
     (case py_split 44 line of
        p0 # _ # p2 # more_parts \<Rightarrow>
          (case py_split 58 p0 of
             _ # num # _ \<Rightarrow> map_option (\<lambda>i. (i, strip_quotes (py_strip p2),
                 (case more_parts of _ # ts # _ \<Rightarrow> strip_quotes (py_strip ts) | _ \<Rightarrow> [])))
               (py_int (py_strip num))
           | _ \<Rightarrow> None)
      | _ \<Rightarrow> None)"

fun process_text_cmgl :: "wcfg \<Rightarrow> (int \<times> pystr \<times> pystr) option \<Rightarrow> pystr list \<Rightarrow> wcb \<Rightarrow> unit wact" where
  "process_text_cmgl cfg header [] cb = ret ()"
| "process_text_cmgl cfg header (line # lines) cb =
     (if py_startswith line (str_of ''+CMGL:'') then process_text_cmgl cfg (text_header line) lines cb
      else (case header of
          None \<Rightarrow> process_text_cmgl cfg None lines cb
        | Some (i, snd_addr, ts) \<Rightarrow>
            andThen (publish_message cfg
                \<lparr>in_sender = snd_addr, in_text = line, in_scts = ts, in_partial = False\<rparr> [i] cb)
              (\<lambda>_. process_text_cmgl cfg None lines cb)))"

definition list_text_cmgl :: "wcfg \<Rightarrow> wcb \<Rightarrow> unit wact" where
  "list_text_cmgl cfg cb =
     attempt (execute cb (str_of ''AT+CMGL='' @ [34] @ str_of ''ALL'' @ [34]) 30000 None True) at_failure
       (\<lambda>_. ret ()) (\<lambda>lines. process_text_cmgl cfg None lines cb)"

definition cmgr_command :: "int \<Rightarrow> pystr" where
  "cmgr_command i = str_of ''AT+CMGR='' @ int_dec i"

text \<open>The sweep over the slots of the storage.\<close>

fun sweep :: "wcfg \<Rightarrow> int \<Rightarrow> int list \<Rightarrow> nat \<Rightarrow> wcb \<Rightarrow> unit wact" where
  "sweep cfg used [] found cb = ret ()"
| "sweep cfg used (i # rest) found cb =
     (if int found \<ge> used then ret ()
      else attempt (execute cb (cmgr_command i) 10000 None True) is_at_error
        (\<lambda>_. sweep cfg used rest found cb)
        (\<lambda>lines. case parse_cmgr_pdu lines of
             None \<Rightarrow> sweep cfg used rest found cb
           | Some pdu \<Rightarrow>
               if pdu = [] then sweep cfg used rest found cb
               else andThen (process_pdu cfg pdu (Some i) cb) (\<lambda>_. sweep cfg used rest (found + 1) cb)))"

definition sweep_slots :: "int option \<Rightarrow> int list" where
  "sweep_slots total_slots =
     map int [0..<nat (case total_slots of None \<Rightarrow> 20 | Some t \<Rightarrow> if t = 0 then 20 else t)]"

definition list_stored :: "wcfg \<Rightarrow> wcb \<Rightarrow> bool wact" where
  "list_stored cfg cb =
     except (andThen (execute cb (str_of ''AT+CMGL=4'') 15000 None True) (\<lambda>lines.
         andThen (each (\<lambda>(i, pdu). process_pdu cfg pdu (Some i) cb) (parse_cmgl_pdu lines)) (\<lambda>_.
           ret (parse_cmgl_pdu lines \<noteq> []))))
       at_failure (\<lambda>_. andThen (change (\<lambda>w. w\<lparr>cmgl_broken := True\<rparr>)) (\<lambda>_. ret False))"

definition scan_stored :: "wcfg \<Rightarrow> wcb \<Rightarrow> unit wact" where
  "scan_stored cfg cb = look (\<lambda>w.
     if \<not> pdu_mode w then list_text_cmgl cfg cb
     else andThen (if \<not> cmgl_broken w then list_stored cfg cb else ret False) (\<lambda>done.
       if done then ret ()
       else andThen (storage_usage cb) (\<lambda>(used, total_slots).
         case used of None \<Rightarrow> ret () | Some u \<Rightarrow>
           if u = 0 then ret () else sweep cfg u (sweep_slots total_slots) 0 cb)))"

definition read_index :: "wcfg \<Rightarrow> int \<Rightarrow> wcb \<Rightarrow> unit wact" where
  "read_index cfg i cb =
     except (look (\<lambda>w. if pdu_mode w then
         andThen (execute cb (cmgr_command i) 10000 None True) (\<lambda>lines.
           case parse_cmgr_pdu lines of None \<Rightarrow> ret ()
           | Some pdu \<Rightarrow> if pdu = [] then ret () else process_pdu cfg pdu (Some i) cb)
       else scan_stored cfg cb)) is_at_error (\<lambda>_. ret ())"

section \<open>Unsolicited lines\<close>

text \<open>\<open>_on_urc\<close>: it runs commands itself, which may again meet unsolicited lines.  The fuel is the
  depth of this nesting; every level has read a line, so the bytes still to be read are enough
  (\<open>on_urc_enough\<close>).\<close>

definition urc_body :: "wcfg \<Rightarrow> pystr \<Rightarrow> wcb \<Rightarrow> unit wact" where
  "urc_body cfg line cb = look (\<lambda>w.
     if cmt_pending w then andThen (change (\<lambda>w. w\<lparr>cmt_pending := False\<rparr>)) (\<lambda>_. process_pdu cfg line None cb)
     else (case parse_cmti line of
         Some (_, i) \<Rightarrow> read_index cfg i cb
       | None \<Rightarrow>
           if py_startswith line (str_of ''+CMT:'') then
             change (\<lambda>w. if pdu_mode w then w\<lparr>cmt_pending := True\<rparr> else w)
           else ret ()))"

fun on_urc :: "wcfg \<Rightarrow> nat \<Rightarrow> wcb" where
  "on_urc cfg 0 line = throw OutOfFuel"
| "on_urc cfg (Suc n) line = urc_body cfg line (on_urc cfg n)"

section \<open>Sending\<close>

definition ob_update :: "wcfg \<Rightarrow> int \<Rightarrow> (out_record \<Rightarrow> out_record) \<Rightarrow> unit wact" where
  "ob_update cfg rec_id chg = change (\<lambda>w.
     (case update (next_budget w) rec_id chg (utc_now cfg (p_clock w)) (hub_store (w_hub w)) (w_outbox w) of
        (_, st, ob) \<Rightarrow> w\<lparr>w_hub := (w_hub w)\<lparr>hub_store := st\<rparr>, w_outbox := ob, disk_budget := tl (disk_budget w)\<rparr>))"

fun cmgs_ref :: "pystr list \<Rightarrow> int option" where
  "cmgs_ref [] = None"
| "cmgs_ref (line # lines) =
     (if py_startswith line (str_of ''+CMGS:'') then
        py_int (hd (py_split 44 (py_strip (py_split 58 line ! 1))))
      else cmgs_ref lines)"

definition cmgs_pdu_command :: "nat \<Rightarrow> pystr" where
  "cmgs_pdu_command n = str_of ''AT+CMGS='' @ nat_dec n"

definition cmgs_text_command :: "pystr \<Rightarrow> pystr" where
  "cmgs_text_command number = str_of ''AT+CMGS='' @ [34] @ number @ [34]"

text \<open>\<open>body.encode("ascii", errors="replace")\<close> after the line ends became spaces.\<close>

definition text_body :: "pystr \<Rightarrow> pybytes" where
  "text_body s = map (\<lambda>c. if c < 128 then c else 63) (map (\<lambda>c. if c = 13 \<or> c = 10 then 32 else c) s)"

definition next_random :: "worker \<Rightarrow> nat" where
  "next_random w = (case random_bytes w of [] \<Rightarrow> 0 | b # _ \<Rightarrow> b mod 256)"

definition send_one :: "wcfg \<Rightarrow> pystr \<Rightarrow> pystr \<Rightarrow> wcb \<Rightarrow> int option list wact" where
  "send_one cfg number body cb = look (\<lambda>w.
     if \<not> e164 number then throw ValueError
     else if pdu_mode w then
       andThen (change (\<lambda>w. w\<lparr>random_bytes := tl (random_bytes w)\<rparr>)) (\<lambda>_.
       andThen (lift (build_submit_pdus (next_random w) number body)) (\<lambda>pdus.
         gather (\<lambda>(pdu, n). andThen (execute cb (cmgs_pdu_command n) 10000 (Some pdu) False) (\<lambda>lines.
           ret [cmgs_ref lines])) pdus))
     else if \<not> is_gsm7 body then throw ValueError
     else andThen (execute cb (cmgs_text_command number) 10000 (Some (text_body body)) False) (\<lambda>lines.
       ret [cmgs_ref lines]))"

definition mark_outbound :: "wcfg \<Rightarrow> unit wact" where
  "mark_outbound cfg = look (\<lambda>w. set_health False (\<lambda>hs. hs\<lparr>last_outbound := Some (local_now cfg (p_clock w))\<rparr>))"

definition send_failed :: "wcfg \<Rightarrow> int \<Rightarrow> pystr \<Rightarrow> int option list \<Rightarrow> exn \<Rightarrow> unit wact" where
  "send_failed cfg rec_id number refs e =
     (if is_at_timeout e then
        andThen (ob_update cfg rec_id (\<lambda>r. r\<lparr>out_state := SubmissionUnknown, out_refs := refs,
            out_error := Some (str_of ''timeout while sending to '' @ number)\<rparr>)) (\<lambda>_. mark_outbound cfg)
      else look (\<lambda>w. ob_update cfg rec_id (\<lambda>r. r\<lparr>out_state := Failed, out_refs := refs,
            out_error := Some (number @ str_of '': '' @ redact cfg e w)\<rparr>)))"

fun send_loop :: "wcfg \<Rightarrow> int \<Rightarrow> pystr \<Rightarrow> pystr list \<Rightarrow> int option list \<Rightarrow> bool \<Rightarrow> wcb \<Rightarrow> unit wact" where
  "send_loop cfg rec_id body [] refs sent cb =
     andThen (ob_update cfg rec_id (\<lambda>r. r\<lparr>out_state := (if sent then Submitted else Failed), out_refs := refs\<rparr>))
       (\<lambda>_. mark_outbound cfg)"
| "send_loop cfg rec_id body (number # rest) refs sent cb =
     attempt (send_one cfg number body cb) (\<lambda>e. is_at_timeout e \<or> error_or_value e)
       (\<lambda>e. send_failed cfg rec_id number refs e)
       (\<lambda>new. send_loop cfg rec_id body rest (refs @ new) True cb)"

definition do_send :: "wcfg \<Rightarrow> int \<Rightarrow> wcb \<Rightarrow> unit wact" where
  "do_send cfg rec_id cb = look (\<lambda>w.
     case get_record rec_id (w_outbox w) of
       None \<Rightarrow> ret ()
     | Some r \<Rightarrow>
         if out_state r \<noteq> Queued then ret ()
         else if hs_sim (w_health w) \<noteq> SimReady then
           ob_update cfg rec_id (\<lambda>r. r\<lparr>out_state := Failed, out_error := Some (str_of ''modem not ready'')\<rparr>)
         else andThen (ob_update cfg rec_id (\<lambda>r. r\<lparr>out_state := Sending\<rparr>)) (\<lambda>_.
           send_loop cfg rec_id (out_text r) (out_to r) [] False cb))"

section \<open>Connecting\<close>

definition pause :: "int \<Rightarrow> unit wact" where
  "pause ms = change (\<lambda>w. w\<lparr>p_clock := p_clock w + ms\<rparr>)"

definition refresh_network_health :: "wcb \<Rightarrow> unit wact" where
  "refresh_network_health cb =
     andThen (registration cb) (\<lambda>(_, reg).
     andThen (signal cb) (\<lambda>sig.
     andThen (storage_usage cb) (\<lambda>st.
     andThen (operator cb) (\<lambda>oper.
       set_health False (\<lambda>hs. hs\<lparr>hs_registration := Some reg, hs_operator := oper, hs_signal := Some sig,
         hs_storage := Some st\<rparr>)))))"

text \<open>The wait for the registration.  Every round sleeps two seconds, so that after 30 rounds the
  deadline of 60 seconds is reached (\<open>wait_registered_deadline\<close>).\<close>

fun wait_registered :: "nat \<Rightarrow> int \<Rightarrow> wcb \<Rightarrow> unit wact" where
  "wait_registered 0 deadline cb = ret ()"
| "wait_registered (Suc n) deadline cb = look (\<lambda>w.
     if p_clock w < deadline \<and> \<not> stopping w then
       andThen (registered cb) (\<lambda>ok.
         if ok then ret () else andThen (pause 2000) (\<lambda>_. wait_registered n deadline cb))
     else ret ())"

definition choose_mode :: "wcb \<Rightarrow> unit wact" where
  "choose_mode cb =
     attempt (execute cb (str_of ''AT+CMGF=0'') 5000 None False) at_failure
       (\<lambda>_. andThen (execute cb (str_of ''AT+CMGF=1'') 5000 None False) (\<lambda>_.
              change (\<lambda>w. w\<lparr>pdu_mode := False\<rparr>)))
       (\<lambda>_. change (\<lambda>w. w\<lparr>pdu_mode := True\<rparr>))"

definition after_sim_ready :: "wcfg \<Rightarrow> wcb \<Rightarrow> unit wact" where
  "after_sim_ready cfg cb =
     andThen (set_health True (\<lambda>hs. hs\<lparr>hs_state := Registering, hs_sim := SimReady\<rparr>)) (\<lambda>_.
     andThen (look (\<lambda>w. wait_registered 30 (p_clock w + 60000) cb)) (\<lambda>_.
     andThen (refresh_network_health cb) (\<lambda>_.
     andThen (choose_mode cb) (\<lambda>_.
     andThen (select_storage cb) (\<lambda>_.
     andThen (select_cnmi cb) (\<lambda>strat.
     andThen (change (\<lambda>w. w\<lparr>w_strategy := Some strat\<rparr>)) (\<lambda>_.
     andThen (set_health True (\<lambda>hs. hs\<lparr>hs_state := Online, hs_strategy := Some strat\<rparr>)) (\<lambda>_.
       scan_stored cfg cb))))))))"

definition try_pin :: "pystr \<Rightarrow> wcb \<Rightarrow> sim_state wact" where
  "try_pin pin cb =
     andThen (except (enter_pin cb pin) error_or_value (\<lambda>_. ret ())) (\<lambda>_.
     andThen (pause 3000) (\<lambda>_. cpin_state cb))"

definition report_sim :: "sim_state \<Rightarrow> pystr \<Rightarrow> bool wact" where
  "report_sim st name =
     andThen (set_health True (\<lambda>hs. hs\<lparr>hs_sim := st\<rparr>)) (\<lambda>_.
     case st of
       SimReady \<Rightarrow> andThen (change (\<lambda>w. w\<lparr>env_pin_tries := 0\<rparr>)) (\<lambda>_. ret True)
     | SimPinRequired \<Rightarrow> andThen (set_health True (\<lambda>hs. hs\<lparr>hs_state := PinNeeded\<rparr>)) (\<lambda>_. ret False)
     | SimPukRequired \<Rightarrow> andThen (set_health True (\<lambda>hs. hs\<lparr>hs_state := PukLocked,
           last_error := Some (str_of ''SIM is PUK-locked; will not attempt unlock'')\<rparr>)) (\<lambda>_. ret False)
     | _ \<Rightarrow> andThen (set_health True (\<lambda>hs. hs\<lparr>hs_state := Down,
           last_error := Some (str_of ''sim state: '' @ name)\<rparr>)) (\<lambda>_. ret False))"

definition sim_name :: "sim_state \<Rightarrow> pystr" where
  "sim_name st = (case st of SimReady \<Rightarrow> str_of ''ready'' | SimPinRequired \<Rightarrow> str_of ''pin_required''
     | SimPukRequired \<Rightarrow> str_of ''puk_required'' | SimAbsent \<Rightarrow> str_of ''absent'' | SimUnknown \<Rightarrow> str_of ''unknown'')"

definition unlock_sim :: "wcfg \<Rightarrow> wcb \<Rightarrow> bool wact" where
  "unlock_sim cfg cb =
     andThen (cpin_state cb) (\<lambda>st.
     andThen (look (\<lambda>w.
         if st = SimPinRequired \<and> sim_pin cfg \<noteq> [] \<and> int (env_pin_tries w) < sim_pin_max_tries cfg then
           andThen (change (\<lambda>w. w\<lparr>env_pin_tries := env_pin_tries w + 1\<rparr>)) (\<lambda>_. try_pin (sim_pin cfg) cb)
         else ret st)) (\<lambda>st'. report_sim st' (sim_name st')))"

text \<open>\<open>_connect\<close>; \<open>dev\<close> is what \<open>find_at_port\<close> found, after the mode switch.\<close>

definition w_connect :: "wcfg \<Rightarrow> pystr option \<Rightarrow> wcb \<Rightarrow> bool wact" where
  "w_connect cfg dev cb =
     andThen (set_health True (\<lambda>hs. hs\<lparr>hs_state := Starting\<rparr>)) (\<lambda>_.
     case dev of
       None \<Rightarrow> andThen (set_health True (\<lambda>hs. hs\<lparr>hs_state := NoModem,
           last_error := Some (str_of ''no AT port found'')\<rparr>)) (\<lambda>_. ret False)
     | Some d \<Rightarrow>
         andThen (change (\<lambda>w. w\<lparr>p_buf := []\<rparr>)) (\<lambda>_.
         andThen (execute cb (str_of ''ATE0'') 5000 None False) (\<lambda>_.
         andThen (attempt (execute cb (str_of ''AT+CMEE=1'') 5000 None False) at_failure (\<lambda>_. ret ()) (\<lambda>_. ret ())) (\<lambda>_.
         andThen (identify cb) (\<lambda>info.
         andThen (change (\<lambda>w. w\<lparr>modem_info := info\<rparr>)) (\<lambda>_.
         andThen (set_health False (\<lambda>hs. hs\<lparr>hs_port := Some d, hs_modem := info\<rparr>)) (\<lambda>_.
         andThen (unlock_sim cfg cb) (\<lambda>ok.
           if \<not> ok then ret True else andThen (after_sim_ready cfg cb) (\<lambda>_. ret True)))))))))"

section \<open>The runtime PIN\<close>

definition put_reply :: "nat \<Rightarrow> sim_state \<Rightarrow> unit wact" where
  "put_reply reply st = change (\<lambda>w. if reply \<in> fst ` set (replies w) then w else w\<lparr>replies := replies w @ [(reply, st)]\<rparr>)"

definition pin_cap :: "wcfg \<Rightarrow> int" where
  "pin_cap cfg = sim_pin_max_tries cfg + 2"

definition do_pin :: "wcfg \<Rightarrow> pystr \<Rightarrow> nat \<Rightarrow> wcb \<Rightarrow> unit wact" where
  "do_pin cfg pin reply cb = look (\<lambda>w.
     if int (pin_submissions w) \<ge> pin_cap cfg \<or> hs_sim (w_health w) \<noteq> SimPinRequired then
       put_reply reply (hs_sim (w_health w))
     else
       andThen (change (\<lambda>w. w\<lparr>pin_submissions := pin_submissions w + 1, runtime_pin := Some pin\<rparr>)) (\<lambda>_.
       andThen (ensure (try_pin pin cb) (\<lambda>w. w\<lparr>runtime_pin := None\<rparr>)) (\<lambda>st.
       andThen (set_health True (\<lambda>hs. hs\<lparr>hs_sim := st\<rparr>)) (\<lambda>_.
       andThen (if st = SimReady then after_sim_ready cfg cb
          else if st = SimPukRequired then set_health True (\<lambda>hs. hs\<lparr>hs_state := PukLocked\<rparr>)
          else ret ()) (\<lambda>_. put_reply reply st)))))"

section \<open>Serving\<close>

definition handle_job :: "wcfg \<Rightarrow> job \<Rightarrow> wcb \<Rightarrow> unit wact" where
  "handle_job cfg j cb =
     (case j of SendJob i \<Rightarrow> do_send cfg i cb | PinJob pin reply \<Rightarrow> do_pin cfg pin reply cb
      | DeleteJob indices \<Rightarrow> delete_indices indices cb | WakeJob \<Rightarrow> ret ())"

definition flush_partials :: "wcfg \<Rightarrow> wcb \<Rightarrow> unit wact" where
  "flush_partials cfg cb =
     andThen (\<lambda>w. case flush_stale (p_clock w) (w_asm w) of (r, asm) \<Rightarrow> (r, w\<lparr>w_asm := asm\<rparr>)) (\<lambda>partials.
       each (\<lambda>(m, indices). publish_message cfg m indices cb) partials)"

text \<open>One round of \<open>_serve\<close>, with the times of the last poll and of the last network refresh;
  \<open>None\<close>: the loop ends on a serial failure.\<close>

definition serve_work :: "wcfg \<Rightarrow> int \<times> int \<Rightarrow> wcb \<Rightarrow> (int \<times> int) wact" where
  "serve_work cfg polls cb = (case polls of (last_poll, last_net) \<Rightarrow>
     andThen (look (\<lambda>w. case jobs w of
         [] \<Rightarrow> andThen (pause 500) (\<lambda>_. drain_urcs cb 200)
       | j # js \<Rightarrow> andThen (change (\<lambda>w. w\<lparr>jobs := js\<rparr>)) (\<lambda>_. handle_job cfg j cb))) (\<lambda>_.
     look (\<lambda>w. let now = p_clock w; ready = (hs_sim (w_health w) = SimReady);
                   poll = (ready \<and> now - last_poll \<ge> 1000 * poll_interval cfg); net = (now - last_net \<ge> 60000)
       in andThen (if poll then scan_stored cfg cb else ret ()) (\<lambda>_.
          andThen (if net \<and> ready then refresh_network_health cb else ret ()) (\<lambda>_.
          andThen (flush_partials cfg cb) (\<lambda>_.
            ret (if poll then now else last_poll, if net then now else last_net)))))))"

definition serve_round :: "wcfg \<Rightarrow> int \<times> int \<Rightarrow> wcb \<Rightarrow> (int \<times> int) option wact" where
  "serve_round cfg polls cb =
     attempt (serve_work cfg polls cb) serial_failure
       (\<lambda>e. look (\<lambda>w. andThen (set_health True (\<lambda>hs. hs\<lparr>hs_state := Down, last_error := Some (redact cfg e w)\<rparr>))
          (\<lambda>_. ret None)))
       (\<lambda>polls'. ret (Some polls'))"

text \<open>\<open>_serve\<close> for at most \<open>n\<close> rounds.\<close>

fun serve :: "wcfg \<Rightarrow> nat \<Rightarrow> int \<times> int \<Rightarrow> wcb \<Rightarrow> unit wact" where
  "serve cfg 0 polls cb = ret ()"
| "serve cfg (Suc n) polls cb = look (\<lambda>w.
     if stopping w then ret ()
     else andThen (serve_round cfg polls cb) (\<lambda>res.
       case res of None \<Rightarrow> ret () | Some polls' \<Rightarrow> serve cfg n polls' cb))"

text \<open>One cycle of \<open>run\<close>.\<close>

definition run_cycle :: "wcfg \<Rightarrow> pystr option \<Rightarrow> nat \<Rightarrow> wcb \<Rightarrow> unit wact" where
  "run_cycle cfg dev n cb =
     except (andThen (w_connect cfg dev cb) (\<lambda>ok.
         if ok then look (\<lambda>w. serve cfg n (p_clock w, p_clock w) cb) else ret ()))
       any_exception (\<lambda>e. look (\<lambda>w.
         set_health True (\<lambda>hs. hs\<lparr>hs_state := Down, last_error := Some (redact cfg e w)\<rparr>)))"

text \<open>Running an operation on a worker: the callback with enough fuel for every nesting.\<close>

definition on_worker :: "wcfg \<Rightarrow> (wcb \<Rightarrow> 'r wact) \<Rightarrow> 'r wact" where
  "on_worker cfg F w = F (on_urc cfg (avail w)) w"

text \<open>\<open>run\<close>: cycle after cycle until the worker is stopped.  A cycle is given by what the search for the
  port came to (also a failing mode switch, or a port that cannot be opened: \<open>Inl\<close>) and the number of
  rounds, and by what happens while the loop waits: the jobs other threads queue, whether they stop
  the worker, what they have made of hub and outbox, and what the next port will read and which writes to
  it fail.  The result is the state at the end of each cycle.\<close>

record cycle =
  cy_port :: "exn + pystr option"
  cy_rounds :: nat
  cy_jobs :: "job list"
  cy_stop :: bool
  cy_hub :: "health hub"
  cy_outbox :: outbox
  cy_feed :: "(nat \<times> pybytes option) list"
  cy_faults :: "bool list"

definition one_cycle :: "wcfg \<Rightarrow> cycle \<Rightarrow> wcb \<Rightarrow> unit wact" where
  "one_cycle cfg c cb =
     (case cy_port c of
        Inl e \<Rightarrow> andThen (set_health True (\<lambda>hs. hs\<lparr>hs_state := Starting\<rparr>)) (\<lambda>_. look (\<lambda>w.
          set_health True (\<lambda>hs. hs\<lparr>hs_state := Down, last_error := Some (redact cfg e w)\<rparr>)))
      | Inr dev \<Rightarrow> run_cycle cfg dev (cy_rounds c) cb)"

definition connected :: "wcfg \<Rightarrow> cycle \<Rightarrow> worker \<Rightarrow> bool" where
  "connected cfg c w =
     (case cy_port c of Inl e \<Rightarrow> False | Inr dev \<Rightarrow> fst (on_worker cfg (w_connect cfg dev) w) = Inr True)"

definition meanwhile :: "cycle \<Rightarrow> int \<Rightarrow> worker \<Rightarrow> worker" where
  "meanwhile c wait w = w\<lparr>p_feed := cy_feed c, p_faults := cy_faults c, p_clock := p_clock w + wait,
     w_hub := cy_hub c, w_outbox := cy_outbox c, jobs := jobs w @ cy_jobs c, stopping := stopping w \<or> cy_stop c\<rparr>"

fun worker_run :: "wcfg \<Rightarrow> cycle list \<Rightarrow> int \<Rightarrow> worker \<Rightarrow> worker list" where
  "worker_run cfg [] backoff w = []"
| "worker_run cfg (c # cs) backoff w =
     (if stopping w then []
      else let wait = (if connected cfg c w then 2000 else backoff); w' = snd (on_worker cfg (one_cycle cfg c) w)
           in w' # (if stopping w' then [] else worker_run cfg cs (min (2 * wait) 60000) (meanwhile c wait w')))"

section \<open>Enough fuel\<close>

lemma avail_update [simp]:
  "avail (w\<lparr>w_hub := a\<rparr>) = avail w" "avail (w\<lparr>w_outbox := b\<rparr>) = avail w" "avail (w\<lparr>w_asm := c\<rparr>) = avail w"
  "avail (w\<lparr>seen_hashes := d\<rparr>) = avail w" "avail (w\<lparr>w_health := e\<rparr>) = avail w" "avail (w\<lparr>disk_budget := f\<rparr>) = avail w"
  "avail (w\<lparr>random_bytes := g\<rparr>) = avail w" "avail (w\<lparr>cmt_pending := h\<rparr>) = avail w" "avail (w\<lparr>cmgl_broken := i\<rparr>) = avail w"
  "avail (w\<lparr>pdu_mode := j\<rparr>) = avail w" "avail (w\<lparr>w_strategy := k\<rparr>) = avail w" "avail (w\<lparr>env_pin_tries := l\<rparr>) = avail w"
  "avail (w\<lparr>modem_info := m\<rparr>) = avail w" "avail (w\<lparr>replies := n\<rparr>) = avail w" "avail (w\<lparr>pin_submissions := q\<rparr>) = avail w"
  "avail (w\<lparr>runtime_pin := r\<rparr>) = avail w" "avail (w\<lparr>jobs := t\<rparr>) = avail w"
  by (simp_all add: avail_def)

lemma avail_clock [simp]: "avail (p\<lparr>p_clock := t\<rparr>) = avail p" and avail_empty [simp]: "avail (p\<lparr>p_buf := []\<rparr>) \<le> avail p"
  by (simp_all add: avail_def)

lemma steady_set_health [steady_intros]: "steady m (\<lambda>cb. set_health loud f)"
  unfolding set_health_def by (intro steady_intros) (simp add: Let_def)

lemma save_inbound_fuel: "fst (save_inbound k st m n) \<noteq> Inl OutOfFuel"
  by (auto simp: save_inbound_def Let_def)

lemma publish_fuel: "fst (publish k hub m idx) \<noteq> Inl OutOfFuel"
proof (cases "hub_store hub")
  case None
  then show ?thesis by (simp add: publish_def Let_def)
next
  case (Some st)
  obtain r st' where s: "save_inbound k st (with_id m (next_id hub)) (next_id hub + 1) = (r, st')" by fastforce
  then have "r \<noteq> Inl OutOfFuel" using save_inbound_fuel [of k st "with_id m (next_id hub)" "next_id hub + 1"] by simp
  with Some s show ?thesis by (auto simp: publish_def Let_def split: sum.split)
qed

lemma steady_hub_publish [steady_intros]: "steady m (\<lambda>cb. hub_publish msg idx)"
  by (rule steady_pure) (use publish_fuel in \<open>auto simp: hub_publish_def case_prod_beta\<close>)

lemma steady_delete [steady_intros]: "steady m (delete_indices idx)"
  unfolding delete_indices_def by (intro steady_intros)

lemma steady_publish [steady_intros]: "steady m (publish_message cfg msg idx)"
  unfolding publish_message_def by (intro steady_intros raisesD [OF raises_message_hash [of "{ValueError}"]]) simp_all

lemma steady_assemble [steady_intros]: "steady m (\<lambda>cb. assemble d idx)"
  by (rule steady_pure)
    (use raisesD [OF raises_assembler] in \<open>auto simp: assemble_def case_prod_beta\<close>)

lemma steady_process_pdu [steady_intros]: "steady m (process_pdu cfg pdu idx)"
proof (cases "decode_deliver pdu")
  case (Inl e)
  then have "e \<noteq> OutOfFuel" using raises_decode_deliver [of pdu] by (auto simp: raises_def)
  then show ?thesis unfolding process_pdu_def Inl sum.case by (intro steady_intros)
next
  case (Inr r)
  show ?thesis unfolding process_pdu_def Inr sum.case case_prod_beta
    by (cases r) (simp_all only: decoded.case, (intro steady_intros)+)
qed

lemma steady_process_text [steady_intros]: "steady m (process_text_cmgl cfg header lines)"
proof (induction lines arbitrary: header)
  case Nil
  show ?case by (subst ext [OF process_text_cmgl.simps(1)]) (intro steady_intros)
next
  case (Cons line lines)
  show ?case
    by (subst ext [OF process_text_cmgl.simps(2)]) (unfold case_prod_beta, intro steady_intros Cons)
qed

lemma steady_list_text [steady_intros]: "steady m (list_text_cmgl cfg)"
  unfolding list_text_cmgl_def by (intro steady_intros)

lemma steady_sweep [steady_intros]: "steady m (sweep cfg used slots found)"
proof (induction slots arbitrary: found)
  case Nil
  show ?case by (subst ext [OF sweep.simps(1)]) (intro steady_intros)
next
  case (Cons i slots)
  show ?case by (subst ext [OF sweep.simps(2)]) (intro steady_intros Cons)
qed

lemma steady_list_stored [steady_intros]: "steady m (list_stored cfg)"
  unfolding list_stored_def case_prod_beta by (intro steady_intros) simp

lemma steady_scan [steady_intros]: "steady m (scan_stored cfg)"
  unfolding scan_stored_def case_prod_beta by (intro steady_intros)

lemma steady_read_index [steady_intros]: "steady m (read_index cfg i)"
  unfolding read_index_def by (intro steady_intros)

lemma steady_urc_body: "steady m (urc_body cfg line)"
  unfolding urc_body_def case_prod_beta by (intro steady_intros) (simp_all add: Let_def)

text \<open>With \<open>n\<close> levels \<open>on_urc\<close> is a proper callback below \<open>n\<close> bytes, and more levels change
  nothing.\<close>

lemma on_urc_ok: "cb_ok (on_urc cfg n) n \<and> cb_agree (on_urc cfg n) (on_urc cfg (n + k)) n"
proof (induction n)
  case 0
  show ?case by (simp add: cb_ok_def cb_agree_def)
next
  case (Suc n)
  then have ok: "cb_ok (on_urc cfg n) n" and agree: "cb_agree (on_urc cfg n) (on_urc cfg (n + k)) n" by auto
  have "avail q \<le> avail p \<and> r \<noteq> Inl OutOfFuel \<and> urc_body cfg line (on_urc cfg (n + k)) p = (r, q)"
    if "avail p \<le> n" "urc_body cfg line (on_urc cfg n) p = (r, q)" for line p r q
    using steadyD [OF steady_urc_body ok agree that] by blast
  then show ?case unfolding cb_ok_def cb_agree_def
    by (simp add: less_Suc_eq_le) (metis prod.collapse)
qed

lemma steady_on_urc:
  assumes "steady (avail w) F" "avail w \<le> n"
  shows "F (on_urc cfg n) w = on_worker cfg F w" "fst (on_worker cfg F w) \<noteq> Inl OutOfFuel"
    "avail (snd (on_worker cfg F w)) \<le> avail w"
proof -
  obtain r q where run: "F (on_urc cfg (avail w)) w = (r, q)" by fastforce
  obtain k where n: "n = avail w + k" using assms(2) by (metis le_Suc_ex)
  from on_urc_ok [of cfg "avail w" k] n have ok: "cb_ok (on_urc cfg (avail w)) (avail w)"
    "cb_agree (on_urc cfg (avail w)) (on_urc cfg n) (avail w)" by auto
  from steadyD [OF assms(1) ok order.refl run] run
  show "F (on_urc cfg n) w = on_worker cfg F w" "fst (on_worker cfg F w) \<noteq> Inl OutOfFuel"
    "avail (snd (on_worker cfg F w)) \<le> avail w"
    by (simp_all add: on_worker_def)
qed

lemma avail_clock_more [simp]: "avail (w\<lparr>w_hub := a, w_outbox := b, disk_budget := c\<rparr>) = avail w"
  "avail (w\<lparr>pin_submissions := d, runtime_pin := e\<rparr>) = avail w"
  by (simp_all add: avail_def)

lemma steady_ob_update [steady_intros]: "steady m (\<lambda>cb. ob_update cfg rec_id chg)"
  unfolding ob_update_def by (intro steady_intros) (simp add: case_prod_beta)

lemma steady_send_one [steady_intros]: "steady m (send_one cfg number body)"
  unfolding send_one_def case_prod_beta
  by (intro steady_intros raisesD [OF raises_build [of "{ValueError}"]]) simp_all

lemma steady_mark_outbound [steady_intros]: "steady m (\<lambda>cb. mark_outbound cfg)"
  unfolding mark_outbound_def by (intro steady_intros)

lemma steady_send_failed [steady_intros]: "steady m (\<lambda>cb. send_failed cfg rec_id number refs e)"
  unfolding send_failed_def by (intro steady_intros)

lemma steady_send_loop [steady_intros]: "steady m (send_loop cfg rec_id body numbers refs sent)"
proof (induction numbers arbitrary: refs sent)
  case Nil
  show ?case by (subst ext [OF send_loop.simps(1)]) (intro steady_intros)
next
  case (Cons number numbers)
  show ?case by (subst ext [OF send_loop.simps(2)]) (intro steady_intros Cons)
qed

lemma steady_do_send [steady_intros]: "steady m (do_send cfg rec_id)"
  unfolding do_send_def by (intro steady_intros)

lemma steady_pause [steady_intros]: "steady m (\<lambda>cb. pause ms)"
  unfolding pause_def by (intro steady_intros) simp

lemma steady_refresh [steady_intros]: "steady m refresh_network_health"
  unfolding refresh_network_health_def case_prod_beta by (intro steady_intros)

lemma steady_wait_registered [steady_intros]: "steady m (wait_registered n deadline)"
proof (induction n)
  case 0
  show ?case by (subst ext [OF wait_registered.simps(1)]) (intro steady_intros)
next
  case (Suc n)
  show ?case by (subst ext [OF wait_registered.simps(2)]) (intro steady_intros Suc)
qed

lemma steady_choose_mode [steady_intros]: "steady m choose_mode"
  unfolding choose_mode_def by (intro steady_intros) simp_all

lemma steady_after_sim_ready [steady_intros]: "steady m (after_sim_ready cfg)"
  unfolding after_sim_ready_def by (intro steady_intros) simp_all

lemma steady_try_pin [steady_intros]: "steady m (try_pin pin)"
  unfolding try_pin_def by (intro steady_intros)

lemma steady_report_sim [steady_intros]: "steady m (\<lambda>cb. report_sim st name)"
  unfolding report_sim_def by (cases st) (simp_all only: sim_state.case, (intro steady_intros; simp)+)

lemma steady_unlock [steady_intros]: "steady m (unlock_sim cfg)"
  unfolding unlock_sim_def by (intro steady_intros) simp_all

lemma steady_connect [steady_intros]: "steady m (w_connect cfg dev)"
  unfolding w_connect_def by (intro steady_intros) simp_all

lemma steady_put_reply [steady_intros]: "steady m (\<lambda>cb. put_reply reply st)"
  unfolding put_reply_def by (intro steady_intros) simp

lemma steady_do_pin [steady_intros]: "steady m (do_pin cfg pin reply)"
  unfolding do_pin_def by (intro steady_intros) simp_all

lemma steady_handle_job [steady_intros]: "steady m (handle_job cfg j)"
  unfolding handle_job_def by (cases j) (simp_all only: job.case, (intro steady_intros)+)

lemma steady_flush [steady_intros]: "steady m (flush_partials cfg)"
  unfolding flush_partials_def case_prod_beta
  by (intro steady_intros steady_pure) (use raisesD [OF raises_flush] in auto)

lemma steady_jobs [steady_intros]:
  "steady m F \<Longrightarrow> (\<And>x xs. steady m (G x xs)) \<Longrightarrow> steady m (\<lambda>cb. case v of [] \<Rightarrow> F cb | x # xs \<Rightarrow> G x xs cb)"
  by (cases v) simp_all

lemma steady_serve_work [steady_intros]: "steady m (serve_work cfg polls)"
  unfolding serve_work_def case_prod_beta Let_def by (intro steady_intros) simp_all

lemma steady_serve_round [steady_intros]: "steady m (serve_round cfg polls)"
  unfolding serve_round_def by (intro steady_intros)

lemma steady_serve [steady_intros]: "steady m (serve cfg n polls)"
proof (induction n arbitrary: polls)
  case 0
  show ?case by (subst ext [OF serve.simps(1)]) (intro steady_intros)
next
  case (Suc n)
  show ?case by (subst ext [OF serve.simps(2)]) (intro steady_intros Suc)
qed

lemma steady_run_cycle: "steady m (run_cycle cfg dev n)"
  unfolding run_cycle_def by (intro steady_intros)

end
