(* ===== verification/Auth.thy ===== *)
theory Auth
  imports Sms_Roundtrip "HOL-Library.List_Lexorder" "HOL-Library.Product_Lexorder"
begin

text \<open>
  Authentication and throttling, \<open>server/gtg_server/auth.py\<close>: principals and their
  credentials, the Authorization header, the cache of verified passwords, the backoff per
  client address and the sliding-window rate limit.

  SHA-256 and PBKDF2 are parameters: \<open>digest\<close> is \<open>sha256(b).hexdigest()\<close> and \<open>kdf\<close> is
  \<open>pbkdf2_hmac("sha256", password, salt, iterations)\<close>.  Times are integers, in milliseconds;
  the cache is a list without repetitions, used as a set.
\<close>

section \<open>Principals\<close>

datatype scope = SendScope | ReceiveScope | AllScope

definition parse_scope :: "pystr \<Rightarrow> scope option" where
  "parse_scope s =
     (if s = str_of ''send'' then Some SendScope else if s = str_of ''receive'' then Some ReceiveScope
      else if s = str_of ''all'' then Some AllScope else None)"

datatype kind = Pbkdf2 | Sha256 | Plain

record principal =
  p_name :: pystr
  p_scope :: scope
  p_kind :: kind
  p_secret :: pystr

definition lower_hex :: "nat \<Rightarrow> bool" where
  "lower_hex c \<longleftrightarrow> 48 \<le> c \<and> c \<le> 57 \<or> 97 \<le> c \<and> c \<le> 102"

definition parse_user :: "pystr \<times> pystr \<Rightarrow> exn + principal" where
  "parse_user nv =
     (case nv of (name, val) \<Rightarrow>
       (case py_partition 58 (py_strip val) of
          (_, None) \<Rightarrow> Inl ValueError
        | (sc, Some cred) \<Rightarrow>
            (case parse_scope sc of
               None \<Rightarrow> Inl ValueError
             | Some s \<Rightarrow>
                 if cred = [] then Inl ValueError
                 else if py_startswith cred (str_of ''pbkdf2_sha256$'') then
                   Inr \<lparr>p_name = name, p_scope = s, p_kind = Pbkdf2, p_secret = cred\<rparr>
                 else if py_startswith cred (str_of ''sha256:'') then
                   (let h = ascii_lower (drop 7 cred)
                    in if length h \<noteq> 64 \<or> \<not> list_all lower_hex h then Inl ValueError
                       else Inr \<lparr>p_name = name, p_scope = s, p_kind = Sha256, p_secret = h\<rparr>)
                 else Inr \<lparr>p_name = name, p_scope = s, p_kind = Plain, p_secret = cred\<rparr>)))"

definition parse_users :: "(pystr \<times> pystr) list \<Rightarrow> exn + principal list" where
  "parse_users pairs = traverse parse_user (sort pairs)"

section \<open>Hashes\<close>

definition hash_token :: "(pybytes \<Rightarrow> pystr) \<Rightarrow> pystr \<Rightarrow> exn + pystr" where
  "hash_token digest token = bind_exn (utf8_encode token) (\<lambda>b. Inr (digest b))"

type_synonym kdf = "pybytes \<Rightarrow> pybytes \<Rightarrow> int \<Rightarrow> exn + pybytes"

definition hash_password :: "kdf \<Rightarrow> pystr \<Rightarrow> int \<Rightarrow> pybytes \<Rightarrow> exn + pystr" where
  "hash_password kdf pw iterations salt =
     bind_exn (utf8_encode pw) (\<lambda>b. bind_exn (kdf b salt iterations) (\<lambda>dk.
       Inr (str_of ''pbkdf2_sha256$'' @ int_dec iterations @ [36] @ hex_lower salt @ [36] @ hex_lower dk)))"

text \<open>\<open>verify_password\<close>: every \<open>ValueError\<close> is \<open>False\<close>; \<open>compare_digest\<close> raises \<open>TypeError\<close> on
  text that is not ASCII.\<close>

definition verify_password :: "kdf \<Rightarrow> pystr \<Rightarrow> pystr \<Rightarrow> exn + bool" where
  "verify_password kdf pw encoded =
     (case py_split 36 encoded of
        [algo, iters, salt_hex, dk_hex] \<Rightarrow>
          (if algo \<noteq> str_of ''pbkdf2_sha256'' then Inr False
           else (case (utf8_encode pw, fromhex salt_hex, py_int iters) of
               (Inr b, Inr salt, Some n) \<Rightarrow>
                 (case kdf b salt n of
                    Inl ValueError \<Rightarrow> Inr False
                  | Inl e \<Rightarrow> Inl e
                  | Inr dk \<Rightarrow>
                      (if list_all (\<lambda>c. c < 128) dk_hex then Inr (hex_lower dk = dk_hex)
                       else Inl TypeError))
             | _ \<Rightarrow> Inr False))
      | _ \<Rightarrow> Inr False)"

text \<open>\<open>_eq\<close>: both sides are encoded before they are compared.\<close>

definition eq_text :: "pystr \<Rightarrow> pystr \<Rightarrow> exn + bool" where
  "eq_text a b = bind_exn (utf8_encode a) (\<lambda>x. bind_exn (utf8_encode b) (\<lambda>y. Inr (x = y)))"

section \<open>Base64\<close>

definition b64_value :: "nat \<Rightarrow> nat option" where
  "b64_value c =
     (if 65 \<le> c \<and> c \<le> 90 then Some (c - 65) else if 97 \<le> c \<and> c \<le> 122 then Some (c - 71)
      else if 48 \<le> c \<and> c \<le> 57 then Some (c + 4) else if c = 43 then Some 62
      else if c = 47 then Some 63 else None)"

text \<open>\<open>binascii.a2b_base64\<close>, not strict: other characters are skipped; the state is the
  position in the group of four, the bits left over and the padding seen.\<close>

fun b64_loop :: "nat \<Rightarrow> nat \<Rightarrow> nat \<Rightarrow> pystr \<Rightarrow> exn + pybytes" where
  "b64_loop pos left pads [] = (if pos = 0 then Inr [] else Inl ValueError)"
| "b64_loop pos left pads (c # cs) =
     (if c = 61 then
        (if pos \<ge> 2 \<and> pos + (pads + 1) \<ge> 4 then Inr []
         else b64_loop pos left (if pos \<ge> 2 then pads + 1 else pads) cs)
      else (case b64_value c of
          None \<Rightarrow> b64_loop pos left pads cs
        | Some v \<Rightarrow>
            (if pos = 0 then b64_loop 1 v 0 cs
             else if pos = 1 then bind_exn (b64_loop 2 (v mod 16) 0 cs) (\<lambda>r. Inr ((4 * left + v div 16) # r))
             else if pos = 2 then bind_exn (b64_loop 3 (v mod 4) 0 cs) (\<lambda>r. Inr ((16 * left + v div 4) # r))
             else bind_exn (b64_loop 0 0 0 cs) (\<lambda>r. Inr ((64 * left + v) # r)))))"

definition b64decode :: "pystr \<Rightarrow> exn + pybytes" where
  "b64decode s = (if list_all (\<lambda>c. c < 128) s then b64_loop 0 0 0 s else Inl ValueError)"

section \<open>The Authorization header\<close>

type_synonym identity = "pystr \<times> scope"

fun check_token_loop :: "pystr \<Rightarrow> pystr \<Rightarrow> principal list \<Rightarrow> exn + identity option" where
  "check_token_loop token digest [] = Inr None"
| "check_token_loop token digest (p # ps) =
     (let next_user = check_token_loop token digest ps
      in case p_kind p of
           Plain \<Rightarrow> bind_exn (eq_text (p_secret p) token) (\<lambda>e.
             if e then Inr (Some (p_name p, p_scope p)) else next_user)
         | Sha256 \<Rightarrow> bind_exn (eq_text (p_secret p) digest) (\<lambda>e.
             if e then Inr (Some (p_name p, p_scope p)) else next_user)
         | Pbkdf2 \<Rightarrow> next_user)"

definition check_token :: "(pybytes \<Rightarrow> pystr) \<Rightarrow> principal list \<Rightarrow> pystr \<Rightarrow> exn + identity option" where
  "check_token digest users token =
     bind_exn (hash_token digest token) (\<lambda>d. check_token_loop token d users)"

type_synonym cache = "pystr list"

definition kdf_key :: "pystr \<Rightarrow> pystr \<Rightarrow> exn + pybytes" where
  "kdf_key name pw = utf8_encode (name @ [0] @ pw)"

definition kdf_verify ::
  "(pybytes \<Rightarrow> pystr) \<Rightarrow> kdf \<Rightarrow> pystr \<Rightarrow> pystr \<Rightarrow> pystr \<Rightarrow> cache \<Rightarrow> (exn + bool) \<times> cache" where
  "kdf_verify digest kdf name pw encoded cache =
     (case kdf_key name pw of
        Inl e \<Rightarrow> (Inl e, cache)
      | Inr b \<Rightarrow>
          (let key = digest b
           in if key \<in> set cache then (Inr True, cache)
              else (case verify_password kdf pw encoded of
                  Inl e \<Rightarrow> (Inl e, cache)
                | Inr True \<Rightarrow>
                    (let cache' = List.insert key cache
                     in (Inr True, if length cache' > 32 then [] else cache'))
                | Inr False \<Rightarrow> (Inr False, cache))))"

fun check_basic ::
  "(pybytes \<Rightarrow> pystr) \<Rightarrow> kdf \<Rightarrow> pystr \<Rightarrow> pystr \<Rightarrow> principal list \<Rightarrow> cache \<Rightarrow>
     (exn + identity option) \<times> cache" where
  "check_basic digest kdf user pw [] cache = (Inr None, cache)"
| "check_basic digest kdf user pw (p # ps) cache =
     (case eq_text (p_name p) user of
        Inl e \<Rightarrow> (Inl e, cache)
      | Inr False \<Rightarrow> check_basic digest kdf user pw ps cache
      | Inr True \<Rightarrow>
          (let (res, cache') =
             (case p_kind p of
                Pbkdf2 \<Rightarrow> kdf_verify digest kdf (p_name p) pw (p_secret p) cache
              | Sha256 \<Rightarrow> (bind_exn (hash_token digest pw) (\<lambda>d. eq_text (p_secret p) d), cache)
              | Plain \<Rightarrow> (eq_text (p_secret p) pw, cache))
           in case res of
                Inl e \<Rightarrow> (Inl e, cache')
              | Inr True \<Rightarrow> (Inr (Some (p_name p, p_scope p)), cache')
              | Inr False \<Rightarrow> check_basic digest kdf user pw ps cache'))"

text \<open>\<open>check(header)\<close>; whatever decoding the Basic value raises is \<open>None\<close>.\<close>

datatype auth_value = NoAuth | Bearer pystr | Basic pystr pystr

definition parse_auth :: "pystr option \<Rightarrow> auth_value" where
  "parse_auth header =
     (case header of
        None \<Rightarrow> NoAuth
      | Some h \<Rightarrow>
          (if h = [] then NoAuth
           else (let (k, v) = py_partition 32 h;
                     method = ascii_lower (py_strip k);
                     val = py_strip (case v of None \<Rightarrow> [] | Some r \<Rightarrow> r)
                 in if method = str_of ''bearer'' \<and> val \<noteq> [] then Bearer val
                    else if method = str_of ''basic'' \<and> val \<noteq> [] then
                      (case bind_exn (b64decode val) utf8_decode_strict of
                         Inl _ \<Rightarrow> NoAuth
                       | Inr cred \<Rightarrow>
                           (case py_partition 58 cred of (user, pw) \<Rightarrow>
                              Basic user (case pw of None \<Rightarrow> [] | Some q \<Rightarrow> q)))
                    else NoAuth)))"

definition auth_check ::
  "(pybytes \<Rightarrow> pystr) \<Rightarrow> kdf \<Rightarrow> principal list \<Rightarrow> pystr option \<Rightarrow> cache \<Rightarrow> (exn + identity option) \<times> cache" where
  "auth_check digest kdf users header cache =
     (case parse_auth header of
        NoAuth \<Rightarrow> (Inr None, cache)
      | Bearer token \<Rightarrow> (check_token digest users token, cache)
      | Basic user pw \<Rightarrow> check_basic digest kdf user pw users cache)"

definition allows :: "scope \<Rightarrow> scope \<Rightarrow> bool" where
  "allows sc need \<longleftrightarrow> sc = AllScope \<or> sc = need"

section \<open>Backoff\<close>

text \<open>Per client address: failures and the time until which it is blocked.  The delay is
  \<open>min(2.0 ** (count - 2), 300)\<close> seconds from the third failure on; a power above \<open>2 ** 1023\<close>
  raises \<open>OverflowError\<close>.\<close>

type_synonym backoff = "(pystr \<times> nat \<times> int) list"

definition blocked_for :: "backoff \<Rightarrow> pystr \<Rightarrow> int \<Rightarrow> int" where
  "blocked_for st ip now = (case map_of st ip of Some (_, until) \<Rightarrow> max 0 (until - now) | None \<Rightarrow> max 0 (0 - now))"

definition backoff_delay :: "nat \<Rightarrow> exn + int" where
  "backoff_delay count =
     (if count < 3 then Inr 0 else if count - 2 > 1023 then Inl OverflowError
      else Inr (min (1000 * 2 ^ (count - 2)) 300000))"

definition backoff_fail :: "pystr \<Rightarrow> int \<Rightarrow> backoff \<Rightarrow> (exn + unit) \<times> backoff" where
  "backoff_fail ip now st =
     (let count = (case map_of st ip of Some (c, _) \<Rightarrow> c | None \<Rightarrow> 0) + 1
      in case backoff_delay count of
           Inl e \<Rightarrow> (Inl e, st)
         | Inr delay \<Rightarrow>
             (let st' = AList.update ip (count, now + delay) st
              in (Inr (), if length st' > 10000 then [] else st')))"

definition backoff_ok :: "pystr \<Rightarrow> backoff \<Rightarrow> backoff" where
  "backoff_ok ip st = AList.delete ip st"

section \<open>Rate limit\<close>

record rate_limit =
  rl_n :: int
  rl_window :: int
  rl_events :: "int list"

definition rate_period :: "pystr \<Rightarrow> int option" where
  "rate_period s =
     (if s = str_of ''minute'' then Some 60000 else if s = str_of ''hour'' then Some 3600000
      else if s = str_of ''day'' then Some 86400000 else None)"

definition new_rate_limit :: "pystr \<Rightarrow> exn + rate_limit" where
  "new_rate_limit spec =
     (let s = py_strip spec
      in if s \<in> {[], str_of ''0'', str_of ''off''} then Inr \<lparr>rl_n = 0, rl_window = 0, rl_events = []\<rparr>
         else (case py_partition 47 s of (n, p) \<Rightarrow>
             (case rate_period (case p of None \<Rightarrow> [] | Some q \<Rightarrow> q) of
                None \<Rightarrow> Inl ValueError
              | Some w \<Rightarrow>
                  (case py_int n of
                     None \<Rightarrow> Inl ValueError
                   | Some i \<Rightarrow> Inr \<lparr>rl_n = i, rl_window = w, rl_events = []\<rparr>))))"

definition rate_allow :: "nat \<Rightarrow> int \<Rightarrow> rate_limit \<Rightarrow> bool \<times> rate_limit" where
  "rate_allow count now rl =
     (if rl_n rl \<le> 0 then (True, rl)
      else (let ev = filter (\<lambda>t. now - t < rl_window rl) (rl_events rl)
            in if int (length ev + count) > rl_n rl then (False, rl\<lparr>rl_events := ev\<rparr>)
               else (True, rl\<lparr>rl_events := ev @ replicate count now\<rparr>)))"

section \<open>Hexadecimal text\<close>

lemma hex_lower_simps [simp]:
  "hex_lower [] = []"
  "hex_lower (b # bs) = hex_digit (b div 16) # hex_digit (b mod 16) # hex_lower bs"
  by (simp_all add: hex_lower_def)

lemma hex_digit_lower: "n < 16 \<Longrightarrow> lower_hex (hex_digit n)"
  by (simp add: hex_digit_def lower_hex_def)

lemma hex_lower_chars: "\<forall>b \<in> set bs. b < 256 \<Longrightarrow> c \<in> set (hex_lower bs) \<Longrightarrow> lower_hex c"
  by (induction bs) (auto intro: hex_digit_lower)

lemma fromhex_hex_lower: "\<forall>b \<in> set bs. b < 256 \<Longrightarrow> fromhex (hex_lower bs) = Inr bs"
proof (induction bs)
  case Nil
  then show ?case by simp
next
  case (Cons b bs)
  then have b: "b div 16 < 16" "b mod 16 < 16" and r: "fromhex (hex_lower bs) = Inr bs" by auto
  show ?case
    unfolding hex_lower_simps fromhex.simps if_not_P [OF hex_digit_value(3) [OF b(1)]]
    by (simp add: hex_digit_value(1) [OF b(1)] hex_digit_value(1) [OF b(2)] r)
qed

lemma hex_lower_inj:
  "\<forall>b \<in> set bs. b < 256 \<Longrightarrow> \<forall>b \<in> set cs. b < 256 \<Longrightarrow> hex_lower bs = hex_lower cs \<longleftrightarrow> bs = cs"
  using fromhex_hex_lower by (metis sum.inject(2))

lemma hex_lower_plain: "\<forall>b \<in> set bs. b < 256 \<Longrightarrow> 36 \<notin> set (hex_lower bs) \<and> list_all (\<lambda>c. c < 128) (hex_lower bs)"
  using hex_lower_chars [of bs] by (fastforce simp: lower_hex_def list_all_iff)

section \<open>Identities are earned\<close>

lemma eq_text_True: "eq_text a b = Inr True \<Longrightarrow> a = b"
proof -
  assume "eq_text a b = Inr True"
  then obtain x where "utf8_encode a = Inr x" "utf8_encode b = Inr x"
    by (auto simp: eq_text_def bind_exn_eq_Inr)
  then show "a = b" by (rule utf8_encode_inj)
qed

text \<open>The credential of a principal matches: by its own kind, and a password hash never by a
  bearer token.\<close>

definition token_matches :: "(pybytes \<Rightarrow> pystr) \<Rightarrow> principal \<Rightarrow> pystr \<Rightarrow> bool" where
  "token_matches digest p token \<longleftrightarrow>
     p_kind p = Plain \<and> p_secret p = token
     \<or> p_kind p = Sha256 \<and> hash_token digest token = Inr (p_secret p)"

definition password_matches :: "(pybytes \<Rightarrow> pystr) \<Rightarrow> kdf \<Rightarrow> principal \<Rightarrow> pystr \<Rightarrow> bool" where
  "password_matches digest kdf p pw \<longleftrightarrow>
     token_matches digest p pw \<or> p_kind p = Pbkdf2 \<and> verify_password kdf pw (p_secret p) = Inr True"

lemma check_token_sound:
  assumes "check_token digest users token = Inr (Some (n, s))"
  shows "\<exists>p \<in> set users. p_name p = n \<and> p_scope p = s \<and> token_matches digest p token"
proof -
  from assms obtain d where d: "hash_token digest token = Inr d" "check_token_loop token d users = Inr (Some (n, s))"
    by (auto simp: check_token_def bind_exn_eq_Inr)
  from d(2) show ?thesis
  proof (induction users)
    case Nil
    then show ?case by simp
  next
    case (Cons p ps)
    then show ?case
      using d(1) eq_text_True
      by (fastforce simp: token_matches_def Let_def bind_exn_eq_Inr split: kind.splits if_splits)
  qed
qed

section \<open>The password cache is transparent\<close>

text \<open>The check without a cache.\<close>

definition kdf_verify_ref :: "kdf \<Rightarrow> pystr \<Rightarrow> pystr \<Rightarrow> pystr \<Rightarrow> exn + bool" where
  "kdf_verify_ref kdf name pw encoded = bind_exn (kdf_key name pw) (\<lambda>_. verify_password kdf pw encoded)"

fun check_basic_ref :: "(pybytes \<Rightarrow> pystr) \<Rightarrow> kdf \<Rightarrow> pystr \<Rightarrow> pystr \<Rightarrow> principal list \<Rightarrow> exn + identity option" where
  "check_basic_ref digest kdf user pw [] = Inr None"
| "check_basic_ref digest kdf user pw (p # ps) =
     bind_exn (eq_text (p_name p) user) (\<lambda>e.
       if \<not> e then check_basic_ref digest kdf user pw ps
       else bind_exn
         (case p_kind p of
            Pbkdf2 \<Rightarrow> kdf_verify_ref kdf (p_name p) pw (p_secret p)
          | Sha256 \<Rightarrow> bind_exn (hash_token digest pw) (\<lambda>d. eq_text (p_secret p) d)
          | Plain \<Rightarrow> eq_text (p_secret p) pw)
         (\<lambda>ok. if ok then Inr (Some (p_name p, p_scope p)) else check_basic_ref digest kdf user pw ps))"

definition auth_ref :: "(pybytes \<Rightarrow> pystr) \<Rightarrow> kdf \<Rightarrow> principal list \<Rightarrow> pystr option \<Rightarrow> exn + identity option" where
  "auth_ref digest kdf users header =
     (case parse_auth header of
        NoAuth \<Rightarrow> Inr None
      | Bearer token \<Rightarrow> check_token digest users token
      | Basic user pw \<Rightarrow> check_basic_ref digest kdf user pw users)"

text \<open>What a cache entry stands for: a principal's name with a password that was verified.\<close>

definition verified :: "kdf \<Rightarrow> principal list \<Rightarrow> pybytes \<Rightarrow> bool" where
  "verified kdf users b \<longleftrightarrow> (\<exists>p \<in> set users. \<exists>pw. p_kind p = Pbkdf2 \<and> kdf_key (p_name p) pw = Inr b
     \<and> verify_password kdf pw (p_secret p) = Inr True)"

definition users_ok :: "principal list \<Rightarrow> bool" where
  "users_ok users \<longleftrightarrow> distinct (map p_name users) \<and> (\<forall>p \<in> set users. 0 \<notin> set (p_name p))"

definition cache_ok :: "(pybytes \<Rightarrow> pystr) \<Rightarrow> kdf \<Rightarrow> principal list \<Rightarrow> pybytes set \<Rightarrow> cache \<Rightarrow> bool" where
  "cache_ok digest kdf users seen cache \<longleftrightarrow>
     (\<forall>k \<in> set cache. \<exists>b \<in> seen. verified kdf users b \<and> k = digest b) \<and> length cache \<le> 32"

lemma kdf_key_inj:
  assumes "kdf_key n pw = Inr b" "kdf_key m pw' = Inr b" "0 \<notin> set n" "0 \<notin> set m"
  shows "n = m \<and> pw = pw'"
proof -
  have "n @ [0] @ pw = m @ [0] @ pw'"
    using assms(1,2) utf8_encode_inj unfolding kdf_key_def by blast
  then have "py_partition 0 (n @ 0 # pw) = py_partition 0 (m @ 0 # pw')" by simp
  with assms(3,4) show ?thesis by simp
qed

lemma users_unique: "users_ok users \<Longrightarrow> p \<in> set users \<Longrightarrow> q \<in> set users \<Longrightarrow> p_name p = p_name q \<Longrightarrow> p = q"
  unfolding users_ok_def by (meson distinct_map inj_onD)

lemma kdf_verify_transparent:
  assumes "users_ok users" "p \<in> set users" "p_kind p = Pbkdf2"
    and "cache_ok digest kdf users seen cache"
    and inj: "inj_on digest (insert b seen)" and key: "kdf_key (p_name p) pw = Inr b"
  shows "fst (kdf_verify digest kdf (p_name p) pw (p_secret p) cache)
      = kdf_verify_ref kdf (p_name p) pw (p_secret p)"
    "cache_ok digest kdf users (insert b seen) (snd (kdf_verify digest kdf (p_name p) pw (p_secret p) cache))"
proof -
  have old: "cache_ok digest kdf users (insert b seen) cache" using assms(4) by (auto simp: cache_ok_def)
  have hit: "verify_password kdf pw (p_secret p) = Inr True" if "digest b \<in> set cache"
  proof -
    from that assms(4) obtain b' where "b' \<in> seen" "verified kdf users b'" "digest b = digest b'"
      by (auto simp: cache_ok_def)
    with inj have "verified kdf users b" by (auto dest: inj_onD)
    then obtain q pw' where q: "q \<in> set users" "kdf_key (p_name q) pw' = Inr b"
      "verify_password kdf pw' (p_secret q) = Inr True" by (auto simp: verified_def)
    have "p_name q = p_name p \<and> pw' = pw"
      using kdf_key_inj [OF q(2) key] assms(1,2) q(1) by (auto simp: users_ok_def)
    with users_unique [OF assms(1) q(1) assms(2)] q(3) show ?thesis by simp
  qed
  show "fst (kdf_verify digest kdf (p_name p) pw (p_secret p) cache)
      = kdf_verify_ref kdf (p_name p) pw (p_secret p)"
    using hit by (auto simp: kdf_verify_def kdf_verify_ref_def key Let_def split: sum.split bool.split)
  have new: "verified kdf users b" if "verify_password kdf pw (p_secret p) = Inr True"
    using that assms(2,3) key by (auto simp: verified_def)
  show "cache_ok digest kdf users (insert b seen) (snd (kdf_verify digest kdf (p_name p) pw (p_secret p) cache))"
    using old new by (auto simp: kdf_verify_def key Let_def cache_ok_def split: sum.split bool.split)
qed

lemma check_basic_transparent:
  assumes "users_ok users" "set ps \<subseteq> set users" "cache_ok digest kdf users seen cache"
    and "\<And>b. kdf_key user pw = Inr b \<Longrightarrow> inj_on digest (insert b seen) \<and> b \<in> seen"
  shows "fst (check_basic digest kdf user pw ps cache) = check_basic_ref digest kdf user pw ps
    \<and> cache_ok digest kdf users seen (snd (check_basic digest kdf user pw ps cache))"
  using assms(2,3)
proof (induction ps arbitrary: cache)
  case Nil
  then show ?case by simp
next
  case (Cons p ps)
  show ?case
  proof (cases "eq_text (p_name p) user = Inr True \<and> p_kind p = Pbkdf2")
    case True
    then have n: "p_name p = user" by (auto dest: eq_text_True)
    show ?thesis
    proof (cases "kdf_key user pw")
      case (Inl e)
      with True n Cons.prems show ?thesis
        by (simp add: kdf_verify_def kdf_verify_ref_def)
    next
      case (Inr b)
      with assms(4) have b: "inj_on digest (insert b seen)" "insert b seen = seen" by auto
      note t = kdf_verify_transparent [OF assms(1) _ _ Cons.prems(2) b(1), of p pw, unfolded n b(2), OF _ _ Inr]
      obtain r cache' where kv: "kdf_verify digest kdf user pw (p_secret p) cache = (r, cache')" by fastforce
      have "p \<in> set users" using Cons.prems(1) by simp
      with t True n kv have k: "kdf_verify_ref kdf user pw (p_secret p) = r" "cache_ok digest kdf users seen cache'"
        by auto
      with Cons.IH [OF _ k(2)] Cons.prems(1) True n kv show ?thesis
        by (cases r) (simp_all split: bool.split)
    qed
  next
    case False
    with Cons show ?thesis
      by (cases "eq_text (p_name p) user"; cases "p_kind p")
        (auto simp: bind_exn_def split: sum.splits bool.splits)
  qed
qed

section \<open>Runs of checks\<close>

fun auth_run :: "(pybytes \<Rightarrow> pystr) \<Rightarrow> kdf \<Rightarrow> principal list \<Rightarrow> pystr option list \<Rightarrow> cache \<Rightarrow> (exn + identity option) list" where
  "auth_run digest kdf users [] cache = []"
| "auth_run digest kdf users (h # hs) cache =
     (case auth_check digest kdf users h cache of (r, cache') \<Rightarrow> r # auth_run digest kdf users hs cache')"

text \<open>The byte strings whose digests a run uses as cache keys.\<close>

definition attempted :: "pystr option list \<Rightarrow> pybytes set" where
  "attempted hs = {b. \<exists>h \<in> set hs. \<exists>user pw. parse_auth h = Basic user pw \<and> kdf_key user pw = Inr b}"

lemma auth_run_transparent:
  assumes "users_ok users" "inj_on digest seen" "attempted hs \<subseteq> seen" "cache_ok digest kdf users seen cache"
  shows "auth_run digest kdf users hs cache = map (auth_ref digest kdf users) hs"
  using assms(3,4)
proof (induction hs arbitrary: cache)
  case Nil
  then show ?case by simp
next
  case (Cons h hs)
  have sub: "attempted hs \<subseteq> seen" using Cons.prems(1) by (auto simp: attempted_def)
  show ?case
  proof (cases "parse_auth h")
    case (Basic user pw)
    have "inj_on digest (insert b seen) \<and> b \<in> seen" if "kdf_key user pw = Inr b" for b
    proof -
      have "b \<in> seen" using that Basic Cons.prems(1) by (auto simp: attempted_def)
      then show ?thesis using assms(2) by (simp add: insert_absorb)
    qed
    note t = check_basic_transparent [OF assms(1) subset_refl Cons.prems(2), of user pw, OF this]
    obtain r cache' where c: "check_basic digest kdf user pw users cache = (r, cache')" by fastforce
    with t have "r = check_basic_ref digest kdf user pw users" "cache_ok digest kdf users seen cache'" by auto
    with Cons.IH [OF sub] c show ?thesis by (simp add: auth_check_def auth_ref_def Basic)
  qed (use Cons.IH [OF sub Cons.prems(2)] in \<open>simp_all add: auth_check_def auth_ref_def\<close>)
qed

lemma check_basic_sound:
  assumes "check_basic_ref digest kdf user pw users = Inr (Some (n, s))"
  shows "\<exists>p \<in> set users. p_name p = n \<and> p_scope p = s \<and> user = n \<and> password_matches digest kdf p pw"
  using assms
proof (induction users)
  case Nil
  then show ?case by simp
next
  case (Cons p ps)
  from Cons.prems obtain e where e: "eq_text (p_name p) user = Inr e" by (auto simp: bind_exn_eq_Inr)
  show ?case
  proof (cases e)
    case False
    with Cons e show ?thesis by auto
  next
    case True
    with e have n: "p_name p = user" by (auto dest: eq_text_True)
    from Cons.prems e True obtain ok where ok: "(case p_kind p of
            Pbkdf2 \<Rightarrow> kdf_verify_ref kdf (p_name p) pw (p_secret p)
          | Sha256 \<Rightarrow> bind_exn (hash_token digest pw) (\<lambda>d. eq_text (p_secret p) d)
          | Plain \<Rightarrow> eq_text (p_secret p) pw) = Inr ok"
      "(if ok then Inr (Some (p_name p, p_scope p)) else check_basic_ref digest kdf user pw ps) = Inr (Some (n, s))"
      by (auto simp: bind_exn_eq_Inr)
    show ?thesis
    proof (cases ok)
      case False
      with ok(2) Cons.IH show ?thesis by auto
    next
      case True
      with ok(1) have "password_matches digest kdf p pw"
        by (cases "p_kind p")
          (auto simp: password_matches_def token_matches_def kdf_verify_ref_def bind_exn_eq_Inr dest: eq_text_True)
      with True ok(2) n show ?thesis by auto
    qed
  qed
qed

section \<open>Properties\<close>

text \<open>C13. The password cache is invisible: in any sequence of requests from an empty cache the
  answers are those of the check that runs PBKDF2 every time, provided SHA-256 does not
  collide on the name and password pairs that were presented.\<close>

theorem auth_cache_transparent:
  assumes "users_ok users" "inj_on digest (attempted hs)"
  shows "auth_run digest kdf users hs [] = map (auth_ref digest kdf users) hs"
  by (rule auth_run_transparent [OF assms subset_refl]) (simp add: cache_ok_def)

definition example_kdf :: kdf where
  "example_kdf pw salt n = (if n < 1 then Inl ValueError else Inr (salt @ pw))"

definition example_users :: "principal list" where
  "example_users = [\<lparr>p_name = str_of ''ann'', p_scope = AllScope, p_kind = Pbkdf2,
     p_secret = str_of ''pbkdf2_sha256$1$0a$0a6162''\<rparr>]"

definition example_header :: "pystr option" where
  "example_header = Some (str_of ''Basic YW5uOmFi'')"

theorem auth_cache_transparent_witness:
  "auth_run id example_kdf example_users [example_header, example_header] []
    = [Inr (Some (str_of ''ann'', AllScope)), Inr (Some (str_of ''ann'', AllScope))]"
proof -
  have "users_ok example_users" by code_simp
  from auth_cache_transparent [OF this, of id "[example_header, example_header]" example_kdf]
  have "auth_run id example_kdf example_users [example_header, example_header] []
      = [auth_ref id example_kdf example_users example_header, auth_ref id example_kdf example_users example_header]"
    by simp
  moreover have "auth_ref id example_kdf example_users example_header = Inr (Some (str_of ''ann'', AllScope))"
    by code_simp
  ultimately show ?thesis by simp
qed

text \<open>The cache after a sequence of requests.\<close>

definition cache_after :: "(pybytes \<Rightarrow> pystr) \<Rightarrow> kdf \<Rightarrow> principal list \<Rightarrow> pystr option list \<Rightarrow> cache \<Rightarrow> cache" where
  "cache_after digest kdf users hs cache = fold (\<lambda>h c. snd (auth_check digest kdf users h c)) hs cache"

lemma auth_run_snoc:
  "auth_run digest kdf users (hs @ [h]) cache =
     auth_run digest kdf users hs cache @ [fst (auth_check digest kdf users h (cache_after digest kdf users hs cache))]"
  by (induction hs arbitrary: cache) (auto simp: cache_after_def split: prod.split)

lemma auth_check_after:
  assumes "users_ok users" "inj_on digest (attempted (hs @ [h]))"
  shows "fst (auth_check digest kdf users h (cache_after digest kdf users hs [])) = auth_ref digest kdf users h"
proof -
  have "auth_run digest kdf users (hs @ [h]) [] = map (auth_ref digest kdf users) (hs @ [h])"
    by (rule auth_run_transparent [OF assms subset_refl]) (simp add: cache_ok_def)
  then show ?thesis by (simp add: auth_run_snoc)
qed

lemma auth_ref_sound:
  assumes "auth_ref digest kdf users header = Inr (Some (n, s))"
  shows "\<exists>p \<in> set users. p_name p = n \<and> p_scope p = s
    \<and> (\<exists>secret. parse_auth header = Bearer secret \<and> p_kind p \<noteq> Pbkdf2 \<and> token_matches digest p secret
         \<or> parse_auth header = Basic n secret \<and> password_matches digest kdf p secret)"
proof (cases "parse_auth header")
  case NoAuth
  with assms show ?thesis by (simp add: auth_ref_def)
next
  case (Bearer token)
  with assms check_token_sound [of digest users token n s] show ?thesis
    by (auto simp: auth_ref_def token_matches_def)
next
  case (Basic user pw)
  with assms check_basic_sound [of digest kdf user pw users n s] show ?thesis
    by (auto simp: auth_ref_def)
qed

text \<open>C14. Identities are earned: whoever \<open>check\<close> lets in, after any sequence of earlier requests
  and with the cache these have filled, is a configured principal with its scope; by Bearer its
  token (plain or hashed) was presented, never a password hash; by Basic its own name was given
  with its own credential.  Names are distinct and without a NUL, and SHA-256 does not collide on
  the name and password pairs that were presented.\<close>

theorem auth_sound:
  assumes "users_ok users" "inj_on digest (attempted (hs @ [header]))"
    and "fst (auth_check digest kdf users header (cache_after digest kdf users hs [])) = Inr (Some (n, s))"
  shows "\<exists>p \<in> set users. p_name p = n \<and> p_scope p = s
    \<and> (\<exists>secret. parse_auth header = Bearer secret \<and> p_kind p \<noteq> Pbkdf2 \<and> token_matches digest p secret
         \<or> parse_auth header = Basic n secret \<and> password_matches digest kdf p secret)"
  by (rule auth_ref_sound) (use auth_check_after [OF assms(1,2), of kdf] assms(3) in simp)

theorem auth_sound_witness:
  "\<exists>p \<in> set example_users. p_name p = str_of ''ann'' \<and> p_scope p = AllScope"
proof -
  have u: "users_ok example_users" by code_simp
  have "fst (auth_check id example_kdf example_users example_header (cache_after id example_kdf example_users [example_header] []))
      = Inr (Some (str_of ''ann'', AllScope))"
    by code_simp
  from auth_sound [OF u _ this] show ?thesis by (metis inj_on_id)
qed

text \<open>A stored password hash accepts exactly the passwords with its derived key: the
  encoding \<open>hash_password\<close> makes is read back by \<open>verify_password\<close>.\<close>

theorem hash_verify:
  assumes "hash_password kdf pw n salt = Inr encoded" "\<forall>b \<in> set salt. b < 256"
    and "kdf b salt n = Inr dk" "utf8_encode pw = Inr b" "kdf b' salt n = Inr dk'" "utf8_encode pw' = Inr b'"
    and "\<forall>x \<in> set dk. x < 256" "\<forall>x \<in> set dk'. x < 256"
  shows "verify_password kdf pw' encoded = Inr (dk' = dk)"
proof -
  have e: "encoded = str_of ''pbkdf2_sha256'' @ 36 # int_dec n @ 36 # hex_lower salt @ 36 # hex_lower dk"
    using assms(1,3,4) by (auto simp: hash_password_def str_of_def)
  have no: "36 \<notin> set (str_of ''pbkdf2_sha256'')" "36 \<notin> set (int_dec n)" "36 \<notin> set (hex_lower salt)"
    "36 \<notin> set (hex_lower dk)" "list_all (\<lambda>c. c < 128) (hex_lower dk)"
    using int_dec_chars [of 36 n] hex_lower_plain [OF assms(2)] hex_lower_plain [OF assms(7)]
    by (auto simp: ascii_digit_def str_of_def)
  then have "py_split 36 encoded = [str_of ''pbkdf2_sha256'', int_dec n, hex_lower salt, hex_lower dk]"
    unfolding e by (simp add: py_split_append py_split_one)
  then show ?thesis
    using assms(5,6) hex_lower_inj [OF assms(8,7)] no(5)
    by (simp add: verify_password_def fromhex_hex_lower [OF assms(2)])
qed

theorem hash_verify_witness:
  "verify_password example_kdf (str_of ''ab'') (str_of ''pbkdf2_sha256$1$0a$0a6162'') = Inr True"
proof -
  have "hash_password example_kdf (str_of ''ab'') 1 [10] = Inr (str_of ''pbkdf2_sha256$1$0a$0a6162'')"
    "example_kdf [97, 98] [10] 1 = Inr [10, 97, 98]" "utf8_encode (str_of ''ab'') = Inr [97, 98]"
    by code_simp+
  from hash_verify [OF this(1) _ this(2,3) this(2,3)] show ?thesis by simp
qed

section \<open>Throttling\<close>

datatype backoff_op = Failure pystr int | Success pystr

definition backoff_step :: "backoff_op \<Rightarrow> backoff \<Rightarrow> backoff" where
  "backoff_step op st = (case op of Failure ip t \<Rightarrow> snd (backoff_fail ip t st) | Success ip \<Rightarrow> backoff_ok ip st)"

definition backoff_run :: "backoff_op list \<Rightarrow> backoff" where
  "backoff_run ops = fold backoff_step ops []"

text \<open>The times of an address's failures since its last success; the addresses that ever failed.\<close>

definition streak :: "pystr \<Rightarrow> backoff_op list \<Rightarrow> int list" where
  "streak ip ops = fold (\<lambda>op ts. case op of Failure ip' t \<Rightarrow> if ip' = ip then ts @ [t] else ts
     | Success ip' \<Rightarrow> if ip' = ip then [] else ts) ops []"

definition failing :: "backoff_op list \<Rightarrow> pystr set" where
  "failing ops = (\<Union>op \<in> set ops. case op of Failure ip _ \<Rightarrow> {ip} | Success _ \<Rightarrow> {})"

definition wait_after :: "nat \<Rightarrow> int" where
  "wait_after n = (if n < 3 then 0 else min (1000 * 2 ^ (n - 2)) 300000)"

lemma finite_failing [simp]: "finite (failing ops)"
  by (auto simp: failing_def split: backoff_op.split)

lemma streak_snoc [simp]:
  "streak ip [] = []"
  "streak ip (ops @ [Failure ip' t]) = (if ip' = ip then streak ip ops @ [t] else streak ip ops)"
  "streak ip (ops @ [Success ip']) = (if ip' = ip then [] else streak ip ops)"
  by (simp_all add: streak_def)

lemma delete_keys: "fst ` set (AList.delete k xs) \<subseteq> fst ` set xs"
  by (auto simp: AList.delete_eq)

lemma backoff_delay_wait: "n \<le> 1025 \<Longrightarrow> backoff_delay n = Inr (wait_after n)"
  by (auto simp: backoff_delay_def wait_after_def)

lemma backoff_run_state:
  assumes "card (failing ops) \<le> 10000" "\<And>k. length (streak ip (take k ops)) \<le> 1025"
  shows "map_of (backoff_run ops) ip = (if streak ip ops = [] then None
       else Some (length (streak ip ops), last (streak ip ops) + wait_after (length (streak ip ops))))
    \<and> distinct (map fst (backoff_run ops)) \<and> fst ` set (backoff_run ops) \<subseteq> failing ops"
  using assms
proof (induction ops rule: rev_induct)
  case Nil
  show ?case by (simp add: backoff_run_def)
next
  case (snoc op ops)
  let ?st = "backoff_run ops"
  have sub: "failing ops \<subseteq> failing (ops @ [op])" by (auto simp: failing_def)
  then have "card (failing ops) \<le> card (failing (ops @ [op]))" by (intro card_mono) simp_all
  then have c: "card (failing ops) \<le> 10000" using snoc.prems(1) by linarith
  have "length (streak ip (take k ops)) \<le> 1025" for k
    using snoc.prems(2) [of "min k (length ops)"] by (cases "k \<le> length ops") (simp_all add: min_def)
  with snoc.IH c have st: "map_of ?st ip = (if streak ip ops = [] then None
       else Some (length (streak ip ops), last (streak ip ops) + wait_after (length (streak ip ops))))"
    "distinct (map fst ?st)" "fst ` set ?st \<subseteq> failing ops" by blast+
  have run: "backoff_run (ops @ [op]) = backoff_step op ?st" by (simp add: backoff_run_def)
  show ?case
  proof (cases op)
    case (Success ip')
    have "fst ` set (AList.delete ip' ?st) \<subseteq> failing (ops @ [op])"
      using delete_keys st(3) sub by (meson order_trans)
    with Success st(1,2) show ?thesis unfolding run
      by (simp add: backoff_step_def backoff_ok_def map_of_delete AList.distinct_delete)
  next
    case (Failure ip' t)
    let ?n = "(case map_of ?st ip' of Some (c, _) \<Rightarrow> c | None \<Rightarrow> 0) + 1"
    show ?thesis
    proof (cases "backoff_delay ?n")
      case (Inl e)
      have "?n \<noteq> length (streak ip ops) + 1" if "ip' = ip"
        using Inl that snoc.prems(2) [of "length ops + 1"] backoff_delay_wait [of "length (streak ip ops) + 1"]
        by (auto simp: Failure)
      moreover have "?n = length (streak ip ops) + 1" if "ip' = ip" using st(1) that by simp
      ultimately have "ip' \<noteq> ip" by blast
      with Inl Failure st sub show ?thesis unfolding run
        by (simp add: backoff_step_def backoff_fail_def Let_def)
    next
      case (Inr d)
      let ?new = "AList.update ip' (?n, t + d) ?st"
      have keys: "fst ` set ?new \<subseteq> failing (ops @ [op])" "distinct (map fst ?new)"
      proof -
        have "ip' \<in> failing (ops @ [op])" by (simp add: failing_def Failure)
        moreover have "fst ` set ?new = insert ip' (fst ` set ?st)"
          by (simp add: AList.dom_update)
        ultimately show "fst ` set ?new \<subseteq> failing (ops @ [op])" using order_trans [OF st(3) sub] by (simp only: insert_subset)
        show "distinct (map fst ?new)" by (rule AList.distinct_update) (rule st(2))
      qed
      have "length ?new = card (set (map fst ?new))" using distinct_card [OF keys(2)] by simp
      also have "\<dots> \<le> card (failing (ops @ [op]))" by (rule card_mono) (use keys(1) in simp_all)
      finally have "\<not> 10000 < length ?new" using snoc.prems(1) by linarith
      then have new: "backoff_run (ops @ [op]) = ?new" unfolding run
        by (simp only: backoff_step_def backoff_fail_def Let_def Failure backoff_op.case Inr sum.case snd_conv if_False)
      have "ip' = ip \<Longrightarrow> ?n = length (streak ip ops) + 1 \<and> d = wait_after ?n"
        using st(1) Inr snoc.prems(2) [of "length ops + 1"] backoff_delay_wait [of "length (streak ip ops) + 1"]
        by (auto simp: Failure)
      with st(1) keys show ?thesis unfolding new by (auto simp: map_of_update Failure)
    qed
  qed
qed

text \<open>C16. Backoff, over any run of failures and successes of any addresses: an address with no
  failure since its last success is not blocked; the first two failures in a row block nothing;
  from the third on it is blocked after its last failure for two seconds, doubling with every
  further failure up to five minutes, whatever happens to other addresses.  Bounds of the code: at
  most 10000 addresses have failed (the table is emptied beyond), and the streaks of this address
  stay within 1025 failures (the power overflows beyond).\<close>

theorem backoff_blocks:
  assumes "card (failing ops) \<le> 10000" "\<And>k. length (streak ip (take k ops)) \<le> 1025" "0 \<le> now"
  shows "blocked_for (backoff_run ops) ip now =
     (let ts = streak ip ops; n = length ts
      in if n < 3 then (if n = 0 then 0 else max 0 (last ts - now))
         else max 0 (last ts + min (1000 * 2 ^ (n - 2)) 300000 - now))"
proof -
  have "map_of (backoff_run ops) ip = (if streak ip ops = [] then None
       else Some (length (streak ip ops), last (streak ip ops) + wait_after (length (streak ip ops))))"
    using backoff_run_state [OF assms(1,2)] by blast
  with assms(3) show ?thesis by (auto simp: blocked_for_def wait_after_def Let_def)
qed

theorem backoff_blocks_witness:
  "blocked_for (backoff_run [Failure [49] 100, Failure [50] 150, Failure [49] 200, Success [50], Failure [49] 1000]) [49] 1500 = 1500"
proof -
  let ?ops = "[Failure [49] 100, Failure [50] 150, Failure [49] 200, Success [50], Failure [49] 1000]"
  have "failing ?ops = {[49], [50]}" by (auto simp: failing_def)
  moreover have "length (streak [49] (take k ?ops)) \<le> 1025" for k
  proof -
    have "length (streak [49] os) \<le> length os" for os :: "backoff_op list"
    proof (induction os rule: rev_induct)
      case (snoc op os)
      then show ?case by (cases op) auto
    qed simp
    from this [of "take k ?ops"] show ?thesis by simp
  qed
  ultimately show ?thesis
    using backoff_blocks [of ?ops "[49]" 1500] by (simp add: streak_def Let_def)
qed

text \<open>The backoff gives out: the 1026th failure in a row of an address raises
  \<open>OverflowError\<close> instead of blocking it, and leaves it unblocked for every failure to
  come.\<close>

theorem backoff_overflow:
  assumes "map_of st ip = Some (c, u)" "1025 \<le> c" "u \<le> t"
  shows "backoff_fail ip t st = (Inl OverflowError, st) \<and> blocked_for st ip t = 0"
  using assms by (simp add: backoff_fail_def backoff_delay_def blocked_for_def Let_def)

theorem backoff_overflow_witness:
  "fst (backoff_fail [49] 400000 [([49], 1025, 300000)]) = Inl OverflowError"
  using backoff_overflow [of "[([49], 1025, 300000)]" "[49]" 1025 300000 400000] by simp

section \<open>Sliding window\<close>

fun rate_run :: "(int \<times> nat) list \<Rightarrow> rate_limit \<Rightarrow> int list" where
  "rate_run [] rl = []"
| "rate_run ((now, c) # rs) rl =
     (case rate_allow c now rl of (ok, rl') \<Rightarrow> (if ok then replicate c now else []) @ rate_run rs rl')"

definition in_window :: "int \<Rightarrow> int \<Rightarrow> int list \<Rightarrow> nat" where
  "in_window t w xs = length (filter (\<lambda>x. t \<le> x \<and> x < t + w) xs)"

lemma in_window_append [simp]: "in_window t w (xs @ ys) = in_window t w xs + in_window t w ys"
  by (simp add: in_window_def)

text \<open>\<open>L\<close> is what was accepted so far, \<open>last\<close> the time of the latest request.\<close>

lemma rate_run_bound:
  assumes "0 < rl_n rl" "rl_events rl = filter (\<lambda>x. prev - x < rl_window rl) L"
    and "\<forall>x \<in> set L. x \<le> prev" "\<forall>t. int (in_window t (rl_window rl) L) \<le> rl_n rl"
    and "sorted (prev # map fst rs)"
  shows "int (in_window t (rl_window rl) (L @ rate_run rs rl)) \<le> rl_n rl"
  using assms
proof (induction rs arbitrary: rl L prev)
  case Nil
  then show ?case by (simp add: in_window_def)
next
  case (Cons r rs)
  obtain now c where r: "r = (now, c)" by (cases r)
  have "prev \<le> now" using Cons.prems(5) by (simp add: r)
  let ?w = "rl_window rl" and ?ev = "filter (\<lambda>x. now - x < rl_window rl) L"
  have ev: "filter (\<lambda>x. now - x < ?w) (rl_events rl) = ?ev"
    using \<open>prev \<le> now\<close> by (auto simp: Cons.prems(2) intro: filter_cong)
  show ?case
  proof (cases "int (length ?ev + c) > rl_n rl")
    case True
    let ?rl = "rl\<lparr>rl_events := ?ev\<rparr>"
    have "int (in_window t (rl_window ?rl) (L @ rate_run rs ?rl)) \<le> rl_n ?rl"
      using Cons.prems \<open>prev \<le> now\<close> by (intro Cons.IH [where prev = now]) (auto simp: r)
    then show ?thesis using True Cons.prems(1) by (simp add: r rate_allow_def ev)
  next
    case False
    let ?L = "L @ replicate c now" and ?rl = "rl\<lparr>rl_events := ?ev @ replicate c now\<rparr>"
    have bound: "int (in_window s ?w ?L) \<le> rl_n rl" for s
    proof (cases "s \<le> now \<and> now < s + ?w")
      case True
      have "length (filter (\<lambda>x. s \<le> x \<and> x < s + ?w) L) \<le> length ?ev"
        using True by (induction L) auto
      then have "in_window s ?w ?L \<le> length ?ev + c"
        using length_filter_le [of "\<lambda>x. s \<le> x \<and> x < s + ?w" "replicate c now"]
        by (simp add: in_window_def)
      with False show ?thesis by linarith
    next
      case out: False
      then have "in_window s ?w (replicate c now) = 0" by (simp add: in_window_def)
      then show ?thesis using Cons.prems(4) by simp
    qed
    show ?thesis
    proof (cases "0 < ?w")
      case True
      have "int (in_window t (rl_window ?rl) (?L @ rate_run rs ?rl)) \<le> rl_n ?rl"
        using Cons.prems \<open>prev \<le> now\<close> bound True
        by (intro Cons.IH [where prev = now]) (force simp: r)+
      then show ?thesis using False Cons.prems(1) by (simp add: r rate_allow_def ev)
    next
      case False
      then show ?thesis using Cons.prems(1) by (simp add: in_window_def)
    qed
  qed
qed

text \<open>C17. Rate limit: whatever is asked and when, no window of the configured length contains
  more than the configured number of accepted units.\<close>

theorem rate_limit_window:
  assumes "new_rate_limit spec = Inr rl" "0 < rl_n rl" "sorted (map fst rs)"
  shows "int (in_window t (rl_window rl) (rate_run rs rl)) \<le> rl_n rl"
proof -
  have e: "rl_events rl = []" using assms(1) by (auto simp: new_rate_limit_def Let_def split: if_splits prod.splits option.splits)
  show ?thesis
  proof (cases rs)
    case Nil
    then show ?thesis using assms(2) by (simp add: in_window_def)
  next
    case (Cons r rs')
    then have "sorted (fst r # map fst rs)" using assms(3) by simp
    with rate_run_bound [of rl "fst r" "[]" rs t] assms(2) e show ?thesis by (simp add: in_window_def)
  qed
qed

theorem rate_limit_window_witness:
  "int (in_window 0 3600000 (rate_run [(0, 20), (10, 20), (20, 10)]
      \<lparr>rl_n = 30, rl_window = 3600000, rl_events = []\<rparr>)) \<le> 30"
proof -
  have "new_rate_limit (str_of ''30/hour'') = Inr \<lparr>rl_n = 30, rl_window = 3600000, rl_events = []\<rparr>"
    by code_simp
  from rate_limit_window [OF this, of "[(0, 20), (10, 20), (20, 10)]" 0] show ?thesis by simp
qed

end
