(* ===== verification/Api.thy ===== *)
theory Api
  imports Worker Auth
begin

text \<open>
  The HTTP API, \<open>server/gtg_server/api.py\<close>: authorization, routing and the endpoints of
  \<open>Handler\<close>, as actions on the state the handlers share (\<open>ApiState\<close>): the worker with its hub,
  outbox and job queue, the password cache, the backoff and the rate limit.  The body arrives as
  what \<open>json.loads\<close> makes of it, and a reply is its status with the JSON's content; the transport
  (sockets, TLS, header syntax, threads) belongs to the environment.  What follows the opening of
  an event stream is in the theory of the delivery.
\<close>

section \<open>Requests and replies\<close>

text \<open>A JSON value; of a number with a fraction the code only asks whether it is zero.\<close>

datatype json = JNull | JBool bool | JInt int | JFloat bool | JStr pystr | JList "json list" | JObj "(pystr \<times> json) list"

fun json_true :: "json \<Rightarrow> bool" where
  "json_true JNull = False"
| "json_true (JBool b) = b"
| "json_true (JInt i) = (i \<noteq> 0)"
| "json_true (JFloat nonzero) = nonzero"
| "json_true (JStr s) = (s \<noteq> [])"
| "json_true (JList xs) = (xs \<noteq> [])"
| "json_true (JObj kvs) = (kvs \<noteq> [])"

datatype http_method = GET | POST

text \<open>A request; \<open>rq_json\<close> is what \<open>json.loads\<close> returns for the body, \<open>None\<close> when it raises.\<close>

record request =
  rq_ip :: pystr
  rq_path :: pystr
  rq_auth :: "pystr option"
  rq_ctype :: "pystr option"
  rq_length :: "pystr option"
  rq_json :: "json option"
  rq_last_event :: "pystr option"
  rq_stream :: "pystr option"

record public_health =
  ph_state :: conn_state
  ph_sim :: sim_state
  ph_registration :: "pystr option"
  ph_operator :: "pystr option"
  ph_signal :: "signal option"
  ph_strategy :: "strategy option"
  ph_storage :: "(int option \<times> int option) option"
  ph_inbound :: "pystr option"
  ph_outbound :: "pystr option"

text \<open>The keys that only \<open>all\<close> sees: the modem's identity, the port, the last error.\<close>

type_synonym private_health = "(pystr \<times> pystr option) list \<times> pystr option \<times> pystr option"

datatype payload =
    Alive
  | WebUi
  | Health public_health hub_stats bool pystr "private_health option"
  | ModemInfo "(pystr \<times> pystr option) list"
  | Inbox "published list"
  | Outbound "out_record list"
  | Record public_record
  | SimResult sim_state int

text \<open>\<open>Refusal\<close>: \<open>_error\<close> with its code and the extra header, if any; \<open>Opened\<close>: an event stream
  with its subscriber and the greeting.\<close>

datatype http = Reply nat payload | Refusal nat pystr "(pystr \<times> pystr) option" | Opened nat pystr bool

fun refused :: "http \<Rightarrow> bool" where
  "refused (Refusal _ _ _) = True"
| "refused _ = False"

record api_cfg =
  a_worker_cfg :: wcfg
  a_users :: "principal list"
  a_kdf :: kdf
  a_webui :: bool
  a_recipients :: "pystr list"
  a_max_subscribers :: int

record api_state =
  a_worker :: worker
  a_cache :: cache
  a_backoff :: backoff
  a_rate :: rate_limit
  a_subscribers :: int

type_synonym 'r aact = "(api_state, 'r) act"

definition MAX_BODY :: int where "MAX_BODY = 64 * 1024"
definition MAX_TEXT_LEN :: nat where "MAX_TEXT_LEN = 5000"

definition refuse :: "nat \<Rightarrow> string \<Rightarrow> (http + 'a) aact" where
  "refuse code err = ret (Inl (Refusal code (str_of err) None))"

definition refuse_with :: "nat \<Rightarrow> string \<Rightarrow> string \<Rightarrow> pystr \<Rightarrow> (http + 'a) aact" where
  "refuse_with code err header val = ret (Inl (Refusal code (str_of err) (Some (str_of header, val))))"

text \<open>A helper that answers the request itself ends it.\<close>

definition granted :: "(http + 'a) aact \<Rightarrow> ('a \<Rightarrow> http aact) \<Rightarrow> http aact" where
  "granted m f = andThen m (\<lambda>r. case r of Inl resp \<Rightarrow> ret resp | Inr x \<Rightarrow> f x)"

definition a_now :: "api_state \<Rightarrow> int" where
  "a_now s = p_clock (a_worker s)"

section \<open>Authorization\<close>

definition check_header :: "api_cfg \<Rightarrow> request \<Rightarrow> identity option aact" where
  "check_header cfg rq s =
     (case auth_check (digest (a_worker_cfg cfg)) (a_kdf cfg) (a_users cfg) (rq_auth rq) (a_cache s) of
        (r, cache) \<Rightarrow> (r, s\<lparr>a_cache := cache\<rparr>))"

definition count_failure :: "request \<Rightarrow> unit aact" where
  "count_failure rq s = (case backoff_fail (rq_ip rq) (a_now s) (a_backoff s) of (r, b) \<Rightarrow> (r, s\<lparr>a_backoff := b\<rparr>))"

definition authorize :: "api_cfg \<Rightarrow> request \<Rightarrow> scope \<Rightarrow> (http + identity) aact" where
  "authorize cfg rq need = look (\<lambda>s.
     let blocked = blocked_for (a_backoff s) (rq_ip rq) (a_now s)
     in if blocked > 0 then refuse_with 429 ''too_many_attempts'' ''Retry-After'' (int_dec (blocked div 1000 + 1))
        else andThen (check_header cfg rq) (\<lambda>ident.
          case ident of
            None \<Rightarrow> andThen (count_failure rq) (\<lambda>_.
              refuse_with 401 ''unauthorized'' ''WWW-Authenticate''
                (str_of ''Basic realm='' @ [34] @ str_of ''generic-text-gateway'' @ [34]))
          | Some (name, sc) \<Rightarrow>
              andThen (change (\<lambda>s. s\<lparr>a_backoff := backoff_ok (rq_ip rq) (a_backoff s)\<rparr>)) (\<lambda>_.
                if allows sc need then ret (Inr (name, sc)) else refuse 403 ''forbidden'')))"

definition any_scope :: "api_cfg \<Rightarrow> request \<Rightarrow> (http + identity) aact" where
  "any_scope cfg rq = look (\<lambda>s.
     if blocked_for (a_backoff s) (rq_ip rq) (a_now s) > 0 then authorize cfg rq ReceiveScope
     else andThen (check_header cfg rq) (\<lambda>ident.
       case ident of
         None \<Rightarrow> authorize cfg rq ReceiveScope
       | Some who \<Rightarrow> andThen (change (\<lambda>s. s\<lparr>a_backoff := backoff_ok (rq_ip rq) (a_backoff s)\<rparr>)) (\<lambda>_. ret (Inr who))))"

section \<open>Bodies and query strings\<close>

definition read_json :: "request \<Rightarrow> (http + (pystr \<times> json) list) aact" where
  "read_json rq =
     (let ctype = ascii_lower (py_strip (hd (py_split 59 (case rq_ctype rq of None \<Rightarrow> [] | Some c \<Rightarrow> c))));
          body_len = (case rq_length rq of
              None \<Rightarrow> 0 | Some l \<Rightarrow> if l = [] then 0 else (case py_int l of None \<Rightarrow> 0 | Some n \<Rightarrow> n))
      in if ctype \<noteq> str_of ''application/json'' then refuse 415 ''unsupported_media_type''
         else if body_len \<le> 0 \<or> body_len > MAX_BODY then refuse 400 ''bad_request''
         else (case rq_json rq of
             None \<Rightarrow> refuse 400 ''bad_json''
           | Some (JObj kvs) \<Rightarrow> ret (Inr kvs)
           | Some _ \<Rightarrow> refuse 400 ''bad_json''))"

definition query :: "pystr \<Rightarrow> (pystr \<times> pystr) list" where
  "query path =
     (case snd (py_partition 63 path) of
        None \<Rightarrow> []
      | Some q \<Rightarrow> fold (\<lambda>pair params.
            (case py_partition 61 pair of (key, val) \<Rightarrow>
               if key \<noteq> [] then AList.update key (case val of None \<Rightarrow> [] | Some v \<Rightarrow> v) params else params))
          (py_split 38 q) [])"

definition bare_path :: "pystr \<Rightarrow> pystr" where
  "bare_path path = py_rstrip (\<lambda>c. c = 47) (fst (py_partition 63 path))"

section \<open>The endpoints\<close>

definition health_status :: "conn_state \<Rightarrow> pystr" where
  "health_status st =
     (if st = Online then str_of ''ok''
      else if st \<in> {Registering, Starting, PinNeeded} then str_of ''degraded'' else str_of ''down'')"

definition health_endpoint :: "identity \<Rightarrow> http aact" where
  "health_endpoint ident = look (\<lambda>s.
     let h = w_health (a_worker s); hub = w_hub (a_worker s)
     in ret (Reply 200 (Health
          \<lparr>ph_state = hs_state h, ph_sim = hs_sim h, ph_registration = hs_registration h, ph_operator = hs_operator h,
           ph_signal = hs_signal h, ph_strategy = hs_strategy h, ph_storage = hs_storage h,
           ph_inbound = last_inbound h, ph_outbound = last_outbound h\<rparr>
          (stats hub) (hub_store hub \<noteq> None) (health_status (hs_state h))
          (if snd ident \<noteq> AllScope then None else Some (hs_modem h, hs_port h, last_error h)))))"

definition get_message :: "pystr \<Rightarrow> identity \<Rightarrow> http aact" where
  "get_message path ident = look (\<lambda>s.
     case py_int (snd (py_rpartition 47 path)) of
       None \<Rightarrow> ret (Refusal 400 (str_of ''bad_request'') None)
     | Some i \<Rightarrow>
         (case get_record i (w_outbox (a_worker s)) of
            None \<Rightarrow> ret (Refusal 404 (str_of ''not_found'') None)
          | Some r \<Rightarrow>
              if snd ident \<noteq> AllScope \<and> owner r \<noteq> Some (fst ident)
              then ret (Refusal 404 (str_of ''not_found'') None)
              else ret (Reply 200 (Record (public r)))))"

text \<open>The fields of a message to send: the recipients, the text and the key, or the error.\<close>

definition recipients :: "json option \<Rightarrow> pystr list option" where
  "recipients to =
     (let strings = (\<lambda>xs. if xs \<noteq> [] \<and> list_all (\<lambda>x. case x of JStr n \<Rightarrow> py_strip n \<noteq> [] | _ \<Rightarrow> False) xs
          then Some (map (\<lambda>x. case x of JStr n \<Rightarrow> py_strip n | _ \<Rightarrow> []) xs) else None)
      in case to of Some (JStr n) \<Rightarrow> strings [JStr n] | Some (JList xs) \<Rightarrow> strings xs | _ \<Rightarrow> None)"

definition body_text :: "json option \<Rightarrow> pystr option" where
  "body_text t = (case t of Some (JStr s) \<Rightarrow> if py_strip s \<noteq> [] then Some s else None | _ \<Rightarrow> None)"

definition idempotency_key :: "json option \<Rightarrow> pystr option option" where
  "idempotency_key k = (case k of
     None \<Rightarrow> Some None
   | Some v \<Rightarrow> if \<not> json_true v then Some None else (case v of JStr s \<Rightarrow> Some (Some s) | _ \<Rightarrow> None))"

definition recipient_allowed :: "api_cfg \<Rightarrow> pystr \<Rightarrow> bool" where
  "recipient_allowed cfg number \<longleftrightarrow> a_recipients cfg = [] \<or> list_ex (py_startswith number) (a_recipients cfg)"

text \<open>The number of parts does not depend on the random reference.\<close>

definition segments :: "pystr list \<Rightarrow> pystr \<Rightarrow> exn + nat" where
  "segments to body =
     bind_exn (traverse (\<lambda>n. build_submit_pdus 0 n body) to) (\<lambda>pdus. Inr (sum_list (map length pdus)))"

definition valid_message :: "api_cfg \<Rightarrow> (pystr \<times> json) list \<Rightarrow> http + (pystr list \<times> pystr \<times> pystr option)" where
  "valid_message cfg data =
     (let bad = (\<lambda>code err. Inl (Refusal code (str_of err) None))
      in case recipients (map_of data (str_of ''to'')) of
           None \<Rightarrow> bad 400 ''bad_request''
         | Some to \<Rightarrow>
             (case body_text (map_of data (str_of ''text'')) of
                None \<Rightarrow> bad 400 ''bad_request''
              | Some body \<Rightarrow>
                  if length body > MAX_TEXT_LEN then bad 400 ''bad_request''
                  else if \<not> list_all e164 to then bad 400 ''bad_request''
                  else if \<not> list_all (recipient_allowed cfg) to then bad 403 ''recipient_not_allowed''
                  else (case idempotency_key (map_of data (str_of ''idempotency_key'')) of
                      None \<Rightarrow> bad 400 ''bad_request''
                    | Some key \<Rightarrow> Inr (to, body, key))))"

definition charge :: "nat \<Rightarrow> bool aact" where
  "charge n s = (case rate_allow n (a_now s) (a_rate s) of (ok, r) \<Rightarrow> (Inr ok, s\<lparr>a_rate := r\<rparr>))"

definition create_record :: "api_cfg \<Rightarrow> pystr list \<Rightarrow> pystr \<Rightarrow> pystr option \<Rightarrow> pystr \<Rightarrow> (out_record \<times> bool) aact" where
  "create_record cfg to body key name s =
     (case create to body key (Some name) (utc_now (a_worker_cfg cfg) (a_now s)) (w_outbox (a_worker s)) of
        (r, ob) \<Rightarrow> (r, s\<lparr>a_worker := (a_worker s)\<lparr>w_outbox := ob\<rparr>\<rparr>))"

definition send_message :: "api_cfg \<Rightarrow> request \<Rightarrow> identity \<Rightarrow> http aact" where
  "send_message cfg rq ident = granted (read_json rq) (\<lambda>data.
     case valid_message cfg data of
       Inl resp \<Rightarrow> ret resp
     | Inr (to, body, key) \<Rightarrow>
         (case segments to body of
            Inl ValueError \<Rightarrow> ret (Refusal 400 (str_of ''bad_request'') None)
          | Inl e \<Rightarrow> throw e
          | Inr n \<Rightarrow> andThen (charge n) (\<lambda>ok.
              if \<not> ok then ret (Refusal 429 (str_of ''rate_limited'') (Some (str_of ''Retry-After'', str_of ''60'')))
              else look (\<lambda>s.
                if hs_state (w_health (a_worker s)) \<notin> {Online, Registering}
                then ret (Refusal 503 (str_of ''modem_unavailable'') (Some (str_of ''Retry-After'', str_of ''30'')))
                else andThen (create_record cfg to body key (fst ident)) (\<lambda>(r, created).
                  andThen (change (\<lambda>s. if created then s\<lparr>a_worker := submit_send (out_id r) (a_worker s)\<rparr> else s)) (\<lambda>_.
                    ret (Reply (if created then 202 else 200) (Record (public r)))))))))"

text \<open>\<open>waiting\<close>: what the worker puts on the reply queue within 25 seconds, and its state then.\<close>

definition valid_pin :: "json option \<Rightarrow> pystr option" where
  "valid_pin p = (case p of Some (JStr s) \<Rightarrow> if py_isdigit s \<and> 4 \<le> length s \<and> length s \<le> 8 then Some s else None | _ \<Rightarrow> None)"

definition sim_pin_endpoint :: "api_cfg \<Rightarrow> (worker \<Rightarrow> sim_state option \<times> worker) \<Rightarrow> nat \<Rightarrow> request \<Rightarrow> http aact" where
  "sim_pin_endpoint cfg waiting reply rq = look (\<lambda>s.
     let cap = sim_pin_max_tries (a_worker_cfg cfg) + 2
     in if sim_pin (a_worker_cfg cfg) \<noteq> [] then ret (Refusal 409 (str_of ''pin_configured'') None)
        else if int (pin_submissions (a_worker s)) \<ge> cap then ret (Refusal 423 (str_of ''pin_locked'') None)
        else if hs_sim (w_health (a_worker s)) \<noteq> SimPinRequired then ret (Refusal 409 (str_of ''pin_not_required'') None)
        else granted (read_json rq) (\<lambda>data.
          case valid_pin (map_of data (str_of ''pin'')) of
            None \<Rightarrow> ret (Refusal 400 (str_of ''bad_pin'') None)
          | Some pin \<Rightarrow> look (\<lambda>s.
              case waiting (submit_pin pin reply (a_worker s)) of (answer, w) \<Rightarrow>
                andThen (change (\<lambda>s. s\<lparr>a_worker := w\<rparr>)) (\<lambda>_.
                case answer of
                  None \<Rightarrow> ret (Refusal 504 (str_of ''pin_timeout'') None)
                | Some st \<Rightarrow> ret (Reply (if st = SimReady then 200 else 422)
                    (SimResult st (max 0 (cap - int (pin_submissions w)))))))))"

definition history_endpoint :: "request \<Rightarrow> http aact" where
  "history_endpoint rq = look (\<lambda>s.
     case hub_store (w_hub (a_worker s)) of
       None \<Rightarrow> ret (Refusal 404 (str_of ''no_store'') None)
     | Some st \<Rightarrow>
         (let params = query (rq_path rq);
              box = (case map_of params (str_of ''box'') of None \<Rightarrow> str_of ''inbox'' | Some b \<Rightarrow> b)
          in if box \<notin> {str_of ''inbox'', str_of ''outbox''} then ret (Refusal 400 (str_of ''bad_request'') None)
             else (case (case map_of params (str_of ''before'') of None \<Rightarrow> Some None | Some b \<Rightarrow> map_option Some (py_int b),
                         case map_of params (str_of ''limit'') of None \<Rightarrow> Some 50 | Some l \<Rightarrow> py_int l) of
                 (Some before, Some limit) \<Rightarrow>
                   ret (Reply 200 (if box = str_of ''inbox'' then Inbox (history_inbox st before limit)
                     else Outbound (history_outbox st before limit)))
               | _ \<Rightarrow> ret (Refusal 400 (str_of ''bad_request'') None))))"

text \<open>\<open>_subscribe\<close> up to the greeting, and its \<open>finally\<close>.\<close>

definition non_empty :: "pystr option \<Rightarrow> pystr option" where
  "non_empty v = (if v = Some [] then None else v)"

definition or_else :: "'a option \<Rightarrow> 'a option \<Rightarrow> 'a option" where
  "or_else a b = (case a of None \<Rightarrow> b | Some x \<Rightarrow> Some x)"

definition subscribe_endpoint :: "api_cfg \<Rightarrow> request \<Rightarrow> http aact" where
  "subscribe_endpoint cfg rq = look (\<lambda>s.
     if a_subscribers s \<ge> a_max_subscribers cfg
     then ret (Refusal 503 (str_of ''too_many_subscribers'') (Some (str_of ''Retry-After'', str_of ''30'')))
     else
       (let params = query (rq_path rq);
            raw = or_else (non_empty (rq_last_event rq)) (map_of params (str_of ''after''));
            after = (case raw of None \<Rightarrow> None | Some r \<Rightarrow> py_int r);
            stream = or_else (non_empty (rq_stream rq)) (non_empty (map_of params (str_of ''stream'')));
            (sub, hub) = subscribe after stream (w_hub (a_worker s))
        in andThen (change (\<lambda>s. s\<lparr>a_subscribers := a_subscribers s + 1, a_worker := (a_worker s)\<lparr>w_hub := hub\<rparr>\<rparr>)) (\<lambda>_.
             ret (Opened sub (stream_id hub) (hub_store hub \<noteq> None)))))"

definition subscription_end :: "nat \<Rightarrow> api_state \<Rightarrow> api_state" where
  "subscription_end sub s =
     s\<lparr>a_subscribers := a_subscribers s - 1, a_worker := (a_worker s)\<lparr>w_hub := unsubscribe sub (w_hub (a_worker s))\<rparr>\<rparr>"

section \<open>Routing\<close>

definition do_GET :: "api_cfg \<Rightarrow> request \<Rightarrow> http aact" where
  "do_GET cfg rq =
     (let bare = bare_path (rq_path rq); path = (if bare = [] then [47] else bare)
      in if path = str_of ''/healthz'' then ret (Reply 200 Alive)
         else if path \<in> {[47], str_of ''/ui''} \<and> a_webui cfg then granted (any_scope cfg rq) (\<lambda>_. ret (Reply 200 WebUi))
         else if path = str_of ''/v1/health'' then granted (any_scope cfg rq) health_endpoint
         else if path = str_of ''/v1/modem'' then
           granted (authorize cfg rq AllScope) (\<lambda>_. look (\<lambda>s. ret (Reply 200 (ModemInfo (modem_info (a_worker s))))))
         else if path = str_of ''/v1/subscribe'' then granted (authorize cfg rq ReceiveScope) (\<lambda>_. subscribe_endpoint cfg rq)
         else if path = str_of ''/v1/history'' then granted (authorize cfg rq ReceiveScope) (\<lambda>_. history_endpoint rq)
         else if py_startswith path (str_of ''/v1/messages/'') then granted (authorize cfg rq SendScope) (get_message path)
         else ret (Refusal 404 (str_of ''not_found'') None))"

definition do_POST :: "api_cfg \<Rightarrow> (worker \<Rightarrow> sim_state option \<times> worker) \<Rightarrow> nat \<Rightarrow> request \<Rightarrow> http aact" where
  "do_POST cfg waiting reply rq =
     (let path = bare_path (rq_path rq)
      in if path = str_of ''/v1/messages'' then granted (authorize cfg rq SendScope) (send_message cfg rq)
         else if path = str_of ''/v1/sim/pin'' then granted (authorize cfg rq AllScope) (\<lambda>_. sim_pin_endpoint cfg waiting reply rq)
         else ret (Refusal 404 (str_of ''not_found'') None))"

end
