(* ===== verification/Api_Props.thy ===== *)
theory Api_Props
  imports Api
begin

text \<open>
  What the API guarantees: nothing but the liveness probe is answered, and nothing is changed,
  without a credential whose scope the route asks for; and the jobs it hands to the worker are
  exactly the validated messages and PINs.
\<close>

section \<open>Entitlement\<close>

definition handle :: "api_cfg \<Rightarrow> (worker \<Rightarrow> sim_state option \<times> worker) \<Rightarrow> nat \<Rightarrow> http_method \<Rightarrow> request \<Rightarrow> http aact" where
  "handle cfg waiting reply m rq = (case m of GET \<Rightarrow> do_GET cfg rq | POST \<Rightarrow> do_POST cfg waiting reply rq)"

text \<open>The identity of a request's credential, for an address that is not blocked.\<close>

definition identity_of :: "api_cfg \<Rightarrow> request \<Rightarrow> api_state \<Rightarrow> identity option" where
  "identity_of cfg rq s =
     (if blocked_for (a_backoff s) (rq_ip rq) (a_now s) > 0 then None
      else (case fst (auth_check (digest (a_worker_cfg cfg)) (a_kdf cfg) (a_users cfg) (rq_auth rq) (a_cache s)) of
          Inr ident \<Rightarrow> ident | Inl _ \<Rightarrow> None))"

text \<open>The scope a route asks for: \<open>None\<close>, any.\<close>

definition route_scope :: "http_method \<Rightarrow> pystr \<Rightarrow> scope option" where
  "route_scope m path =
     (if m = POST then (if path = str_of ''/v1/sim/pin'' then Some AllScope else Some SendScope)
      else if path \<in> {[], str_of ''/ui'', str_of ''/v1/health''} then None
      else if path = str_of ''/v1/modem'' then Some AllScope
      else if path \<in> {str_of ''/v1/subscribe'', str_of ''/v1/history''} then Some ReceiveScope else Some SendScope)"

definition entitled :: "api_cfg \<Rightarrow> http_method \<Rightarrow> request \<Rightarrow> api_state \<Rightarrow> bool" where
  "entitled cfg m rq s \<longleftrightarrow>
     (case identity_of cfg rq s of
        None \<Rightarrow> False
      | Some (_, sc) \<Rightarrow> (case route_scope m (bare_path (rq_path rq)) of None \<Rightarrow> True | Some need \<Rightarrow> allows sc need))"

text \<open>The state the endpoints work on, without the bookkeeping of authentication.\<close>

definition same_data :: "api_state \<Rightarrow> api_state \<Rightarrow> bool" where
  "same_data s s' \<longleftrightarrow> a_worker s' = a_worker s \<and> a_rate s' = a_rate s \<and> a_subscribers s' = a_subscribers s"

lemma check_basic_None:
  "check_basic dg kdf user pw users cache = (Inr None, cache') \<Longrightarrow> cache' = cache"
proof (induction users arbitrary: cache)
  case Nil
  then show ?case by simp
next
  case (Cons p ps)
  have kdf: "cache'' = cache" if "kdf_verify dg kdf n pw e cache = (Inr False, cache'')" for n e cache''
    using that by (auto simp: kdf_verify_def Let_def split: sum.splits bool.splits if_splits)
  show ?case
    using Cons by (auto simp: Let_def split: sum.splits bool.splits kind.splits prod.splits dest: kdf)
qed

lemma auth_check_None:
  "auth_check dg kdf users header cache = (Inr None, cache') \<Longrightarrow> cache' = cache"
  using check_basic_None by (auto simp: auth_check_def split: auth_value.splits)

lemma authorize_result:
  assumes "authorize cfg rq need s = (r, s')"
  shows "same_data s s'"
    "case r of Inl e \<Rightarrow> True | Inr (Inl resp) \<Rightarrow> refused resp
       | Inr (Inr (name, sc)) \<Rightarrow> identity_of cfg rq s = Some (name, sc) \<and> allows sc need"
  using assms
  by (auto simp: authorize_def check_header_def count_failure_def identity_of_def same_data_def andThen_def Let_def
      refuse_def refuse_with_def case_prod_beta
      split: if_splits sum.splits option.splits prod.splits)

lemma any_scope_result:
  assumes "any_scope cfg rq s = (r, s')"
  shows "same_data s s'"
    "case r of Inl e \<Rightarrow> True | Inr (Inl resp) \<Rightarrow> refused resp | Inr (Inr who) \<Rightarrow> identity_of cfg rq s = Some who"
proof -
  have "same_data s s' \<and> (case r of Inl e \<Rightarrow> True | Inr (Inl resp) \<Rightarrow> refused resp | Inr (Inr who) \<Rightarrow> identity_of cfg rq s = Some who)"
  proof (cases "blocked_for (a_backoff s) (rq_ip rq) (a_now s) > 0")
    case True
    with assms have "authorize cfg rq ReceiveScope s = (r, s')" by (simp add: any_scope_def)
    from authorize_result [OF this] show ?thesis by (auto split: sum.splits prod.splits)
  next
    case False
    obtain c cache where c: "auth_check (digest (a_worker_cfg cfg)) (a_kdf cfg) (a_users cfg) (rq_auth rq) (a_cache s) = (c, cache)"
      by fastforce
    consider (err) e where "c = Inl e" | (none) "c = Inr None" | (some) who where "c = Inr (Some who)"
      by (metis not_None_eq sum.exhaust)
    then show ?thesis
    proof cases
      case none
      with auth_check_None c have "s\<lparr>a_cache := cache\<rparr> = s" by simp
      with assms False c none have "authorize cfg rq ReceiveScope s = (r, s')"
        by (simp add: any_scope_def check_header_def andThen_def)
      from authorize_result [OF this] show ?thesis by (auto split: sum.splits prod.splits)
    qed (use assms False c in \<open>auto simp: any_scope_def check_header_def andThen_def same_data_def identity_of_def\<close>)
  qed
  then show "same_data s s'"
    "case r of Inl e \<Rightarrow> True | Inr (Inl resp) \<Rightarrow> refused resp | Inr (Inr who) \<Rightarrow> identity_of cfg rq s = Some who" by blast+
qed

text \<open>A guarded endpoint: entitled, or refused without effect.\<close>

definition shut :: "http aact \<Rightarrow> api_state \<Rightarrow> bool" where
  "shut m s \<longleftrightarrow> (case fst (m s) of Inl e \<Rightarrow> True | Inr resp \<Rightarrow> refused resp) \<and> same_data s (snd (m s))"

lemma shut_ret [simp]: "shut (ret (Refusal a b c)) s"
  by (simp add: shut_def same_data_def)

lemma granted_shut:
  assumes "g s = (r, s')" "same_data s s'"
    and "case r of Inl e \<Rightarrow> True | Inr (Inl resp) \<Rightarrow> refused resp | Inr (Inr x) \<Rightarrow> E"
  shows "E \<or> shut (granted g f) s"
  using assms by (auto simp: shut_def granted_def andThen_def split: sum.splits)

lemma authorize_shut:
  "(\<exists>name sc. identity_of cfg rq s = Some (name, sc) \<and> allows sc need) \<or> shut (granted (authorize cfg rq need) f) s"
proof -
  obtain r s' where r: "authorize cfg rq need s = (r, s')" by fastforce
  note a = authorize_result [OF r]
  show ?thesis by (rule granted_shut [where g = "authorize cfg rq need", OF r a(1)]) (use a(2) in \<open>auto split: sum.splits prod.splits\<close>)
qed

lemma any_scope_shut: "identity_of cfg rq s \<noteq> None \<or> shut (granted (any_scope cfg rq) f) s"
proof -
  obtain r s' where r: "any_scope cfg rq s = (r, s')" by fastforce
  note a = any_scope_result [OF r]
  show ?thesis by (rule granted_shut [where g = "any_scope cfg rq", OF r a(1)]) (use a(2) in \<open>auto split: sum.splits\<close>)
qed

lemma route_scopes:
  "route_scope POST (str_of ''/v1/messages'') = Some SendScope" "route_scope POST (str_of ''/v1/sim/pin'') = Some AllScope"
  "route_scope GET [] = None" "route_scope GET (str_of ''/ui'') = None" "route_scope GET (str_of ''/v1/health'') = None"
  "route_scope GET (str_of ''/v1/modem'') = Some AllScope"
  "route_scope GET (str_of ''/v1/subscribe'') = Some ReceiveScope" "route_scope GET (str_of ''/v1/history'') = Some ReceiveScope"
  by code_simp+

lemma route_messages: "py_startswith path (str_of ''/v1/messages/'') \<Longrightarrow> route_scope GET path = Some SendScope"
proof -
  assume p: "py_startswith path (str_of ''/v1/messages/'')"
  have "\<not> py_startswith x (str_of ''/v1/messages/'')"
    if "x \<in> {[], str_of ''/ui'', str_of ''/v1/health'', str_of ''/v1/modem'', str_of ''/v1/subscribe'', str_of ''/v1/history''}" for x
  proof -
    have "list_all (\<lambda>x. \<not> py_startswith x (str_of ''/v1/messages/''))
      [[], str_of ''/ui'', str_of ''/v1/health'', str_of ''/v1/modem'', str_of ''/v1/subscribe'', str_of ''/v1/history'']"
      by code_simp
    with that show ?thesis by (auto simp: list_all_iff)
  qed
  with p show ?thesis by (auto simp: route_scope_def)
qed

lemma authorize_entitled:
  assumes "route_scope m (bare_path (rq_path rq)) = Some need"
  shows "entitled cfg m rq s \<or> shut (granted (authorize cfg rq need) f) s"
  using authorize_shut [of cfg rq s need f] assms by (auto simp: entitled_def)

lemma any_scope_entitled:
  assumes "route_scope m (bare_path (rq_path rq)) = None"
  shows "entitled cfg m rq s \<or> shut (granted (any_scope cfg rq) f) s"
  using any_scope_shut [of cfg rq s f] assms by (auto simp: entitled_def)

lemma post_entitled: "entitled cfg POST rq s \<or> shut (do_POST cfg waiting reply rq) s"
  using authorize_entitled [of POST rq _ cfg s]
  by (simp add: do_POST_def Let_def route_scopes)

lemma get_entitled:
  "entitled cfg GET rq s \<or> shut (do_GET cfg rq) s \<or> do_GET cfg rq = ret (Reply 200 Alive)"
proof -
  define bare where "bare = bare_path (rq_path rq)"
  define path where "path = (if bare = [] then [47] else bare)"
  have one: "str_of ''/ui'' \<noteq> []" "str_of ''/v1/health'' \<noteq> []" "str_of ''/v1/modem'' \<noteq> []" "str_of ''/v1/subscribe'' \<noteq> []"
    "str_of ''/v1/history'' \<noteq> []" "\<not> py_startswith [47] (str_of ''/v1/messages/'')" "str_of ''/v1/health'' \<noteq> [47]"
    "str_of ''/v1/modem'' \<noteq> [47]" "str_of ''/v1/subscribe'' \<noteq> [47]" "str_of ''/v1/history'' \<noteq> [47]"
    by code_simp+
  have root: "bare \<noteq> [47]"
  proof -
    have "py_rstrip (\<lambda>c. c = 47) x \<noteq> [47]" for x
      by (metis (mono_tags, lifting) dropWhile_eq_Cons_conv py_rstrip_def rev.simps rev_is_Nil_conv rev_rev_ident append_Nil)
    then show ?thesis by (simp add: bare_def bare_path_def)
  qed
  have scope: "route_scope GET bare = route_scope GET path" if "path \<noteq> [47]"
    using that by (simp add: path_def split: if_splits)
  have top: "route_scope GET bare = None" if "path = [47]"
    using that root by (simp add: path_def route_scopes split: if_splits)
  note auth = authorize_entitled [of GET rq _ cfg s, folded bare_def] and any = any_scope_entitled [of GET rq cfg s, folded bare_def]
  have pick: "E \<or> shut (if b then x else y) s \<or> (if b then x else y) = z"
    if "b \<Longrightarrow> E \<or> shut x s \<or> x = z" "\<not> b \<Longrightarrow> E \<or> shut y s \<or> y = z" for E b x y z
    using that by simp
  show ?thesis
    unfolding do_GET_def Let_def bare_def [symmetric] path_def [symmetric]
  proof (intro pick)
    assume "path \<in> {[47], str_of ''/ui''} \<and> a_webui cfg"
    with scope top have "route_scope GET bare = None" by (cases "path = [47]") (auto simp: route_scopes)
    with any show "entitled cfg GET rq s \<or> shut (granted (any_scope cfg rq) (\<lambda>_. ret (Reply 200 WebUi))) s
      \<or> granted (any_scope cfg rq) (\<lambda>_. ret (Reply 200 WebUi)) = ret (Reply 200 Alive)" by blast
  qed (use auth any scope one route_messages in \<open>auto simp: route_scopes\<close>)
qed

text \<open>C33. Nothing without a credential: for any request on any route, either the request carries a
  credential that is valid for an address that is not blocked, with a scope the route accepts;
  or it is refused (or dies of an exception) and leaves the worker, its queue, its outbox and its
  hub, the rate limit and the number of subscribers as they were; the liveness probe, which
  changes nothing either, is the only exception.\<close>

theorem api_authorized:
  "entitled cfg m rq s
   \<or> (case fst (handle cfg waiting reply m rq s) of Inl e \<Rightarrow> True | Inr resp \<Rightarrow> refused resp \<or> resp = Reply 200 Alive)
     \<and> same_data s (snd (handle cfg waiting reply m rq s))"
proof -
  have alive: "(case fst (ret (Reply 200 Alive) s) of Inl e \<Rightarrow> True | Inr resp \<Rightarrow> refused resp \<or> resp = Reply 200 Alive)
     \<and> same_data s (snd (ret (Reply 200 Alive) s))" by (simp add: same_data_def)
  have shut: "(case fst (a s) of Inl e \<Rightarrow> True | Inr resp \<Rightarrow> refused resp \<or> resp = Reply 200 Alive) \<and> same_data s (snd (a s))"
    if "shut a s" for a using that by (auto simp: shut_def split: sum.splits)
  have "entitled cfg m rq s \<or> shut (handle cfg waiting reply m rq) s \<or> handle cfg waiting reply m rq = ret (Reply 200 Alive)"
    using post_entitled [of cfg rq s waiting reply] get_entitled [of cfg rq s] by (cases m) (auto simp: handle_def)
  then show ?thesis using shut alive by metis
qed


section \<open>What reaches the worker\<close>

text \<open>A request to send as the API accepts it: who asks, and the checked fields.\<close>

definition accepted_send :: "api_cfg \<Rightarrow> request \<Rightarrow> api_state \<Rightarrow> identity \<Rightarrow> pystr list \<Rightarrow> pystr \<Rightarrow> pystr option \<Rightarrow> bool" where
  "accepted_send cfg rq s ident to body key \<longleftrightarrow> identity_of cfg rq s = Some ident \<and> allows (snd ident) SendScope
     \<and> to \<noteq> [] \<and> list_all e164 to \<and> list_all (recipient_allowed cfg) to \<and> py_strip body \<noteq> [] \<and> length body \<le> MAX_TEXT_LEN
     \<and> (case segments to body of Inr n \<Rightarrow> fst (rate_allow n (a_now s) (a_rate s)) | Inl _ \<Rightarrow> False)
     \<and> hs_state (w_health (a_worker s)) \<in> {Online, Registering}"

definition accepted_pin :: "api_cfg \<Rightarrow> request \<Rightarrow> api_state \<Rightarrow> pystr \<Rightarrow> bool" where
  "accepted_pin cfg rq s pin \<longleftrightarrow>
     (case identity_of cfg rq s of None \<Rightarrow> False | Some (_, sc) \<Rightarrow> sc = AllScope)
     \<and> py_isdigit pin \<and> 4 \<le> length pin \<and> length pin \<le> 8 \<and> sim_pin (a_worker_cfg cfg) = []
     \<and> int (pin_submissions (a_worker s)) < sim_pin_max_tries (a_worker_cfg cfg) + 2
     \<and> hs_sim (w_health (a_worker s)) = SimPinRequired"

lemma valid_message_checked:
  assumes "valid_message cfg data = Inr (to, body, key)"
  shows "to \<noteq> []" "list_all e164 to" "list_all (recipient_allowed cfg) to" "py_strip body \<noteq> []" "length body \<le> MAX_TEXT_LEN"
proof -
  have "to \<noteq> []" if "recipients j = Some to" for j
    using that by (auto simp: recipients_def Let_def split: option.splits json.splits if_splits)
  moreover have "py_strip body \<noteq> []" if "body_text j = Some body" for j
    using that by (auto simp: body_text_def split: option.splits json.splits if_splits)
  ultimately show "to \<noteq> []" "list_all e164 to" "list_all (recipient_allowed cfg) to" "py_strip body \<noteq> []" "length body \<le> MAX_TEXT_LEN"
    using assms by (auto simp: valid_message_def Let_def split: option.splits if_splits)
qed

lemma read_json_state: "snd (read_json rq s) = s"
  by (simp add: read_json_def refuse_def Let_def split: option.split json.split)

lemma read_json_refused: "fst (read_json rq s) = Inr (Inl resp) \<Longrightarrow> refused resp"
  by (auto simp: read_json_def refuse_def Let_def split: if_splits option.splits json.splits)

lemma valid_message_refused: "valid_message cfg data = Inl resp \<Longrightarrow> refused resp"
  by (auto simp: valid_message_def Let_def split: option.splits if_splits)

lemma create_cases:
  assumes "create to body key own now ob = (r, ob')"
  obtains e where "r = Inl e" "ob' = ob" | rec where "r = Inr (rec, False)" "ob' = ob" | rec where "r = Inr (rec, True)"
  using assms by (auto simp: create_def Let_def split: if_splits option.splits prod.splits)

text \<open>The endpoint for messages, on the data the authorization let through.\<close>

lemma send_message_effect:
  assumes "send_message cfg rq ident s = (r, s')"
  shows "a_worker s' = a_worker s \<and> (\<forall>p. r \<noteq> Inr (Reply 202 p))
   \<or> (\<exists>to body key rec ob n. to \<noteq> [] \<and> list_all e164 to \<and> list_all (recipient_allowed cfg) to \<and> py_strip body \<noteq> []
       \<and> length body \<le> MAX_TEXT_LEN \<and> segments to body = Inr n \<and> fst (rate_allow n (a_now s) (a_rate s))
       \<and> hs_state (w_health (a_worker s)) \<in> {Online, Registering}
       \<and> create to body key (Some (fst ident)) (utc_now (a_worker_cfg cfg) (a_now s)) (w_outbox (a_worker s)) = (Inr (rec, True), ob)
       \<and> a_worker s' = submit_send (out_id rec) ((a_worker s)\<lparr>w_outbox := ob\<rparr>) \<and> r = Inr (Reply 202 (Record (public rec))))"
proof -
  obtain rj where rj: "read_json rq s = (rj, s)" using read_json_state by (metis prod.collapse)
  show ?thesis
  proof (cases "\<exists>data. rj = Inr (Inr data)")
    case False
    then consider e where "rj = Inl e" | resp where "rj = Inr (Inl resp)" by (metis sum.exhaust)
    then show ?thesis
      using rj assms read_json_refused [of rq s] by cases (auto simp: send_message_def granted_def andThen_def)
  next
    case True
    then obtain data where data: "rj = Inr (Inr data)" by blast
    show ?thesis
    proof (cases "valid_message cfg data")
      case (Inl resp)
      with rj data assms valid_message_refused [OF Inl] show ?thesis
        by (auto simp: send_message_def granted_def andThen_def)
    next
      case (Inr v)
      obtain to body key where v: "v = (to, body, key)" by (cases v)
      note checked = valid_message_checked [OF Inr [unfolded v]]
      show ?thesis
      proof (cases "segments to body")
        case (Inl e)
        with rj data assms Inr v show ?thesis
          by (cases e) (auto simp: send_message_def granted_def andThen_def)
      next
        case (Inr n)
        obtain ok rate where ra: "rate_allow n (a_now s) (a_rate s) = (ok, rate)" by fastforce
        let ?s1 = "s\<lparr>a_rate := rate\<rparr>"
        have w1: "a_worker ?s1 = a_worker s" "a_now ?s1 = a_now s" by (simp_all add: a_now_def)
        let ?create = "create to body key (Some (fst ident)) (utc_now (a_worker_cfg cfg) (a_now s)) (w_outbox (a_worker s))"
        obtain c ob where c: "?create = (c, ob)" by fastforce
        note run = assms rj data \<open>valid_message cfg data = Inr v\<close> v Inr ra c
        show ?thesis
        proof (cases "ok \<and> hs_state (w_health (a_worker s)) \<in> {Online, Registering}")
          case False
          with run show ?thesis
            by (auto simp: send_message_def granted_def andThen_def charge_def split: if_splits)
        next
          case True
          have same: "a_worker (s\<lparr>a_rate := rate, a_worker := (a_worker s)\<lparr>w_outbox := w_outbox (a_worker s)\<rparr>\<rparr>) = a_worker s"
            by simp
          from c show ?thesis
          proof (cases rule: create_cases)
            case (3 x)
            with True run checked w1 have "a_worker s' = submit_send (out_id x) ((a_worker s)\<lparr>w_outbox := ob\<rparr>)
                \<and> r = Inr (Reply 202 (Record (public x)))"
              by (auto simp: send_message_def granted_def andThen_def charge_def create_record_def)
            with 3 True c ra Inr checked have "to \<noteq> [] \<and> list_all e164 to \<and> list_all (recipient_allowed cfg) to \<and> py_strip body \<noteq> []
                \<and> length body \<le> MAX_TEXT_LEN \<and> segments to body = Inr n \<and> fst (rate_allow n (a_now s) (a_rate s))
                \<and> hs_state (w_health (a_worker s)) \<in> {Online, Registering} \<and> ?create = (Inr (x, True), ob)
                \<and> a_worker s' = submit_send (out_id x) ((a_worker s)\<lparr>w_outbox := ob\<rparr>) \<and> r = Inr (Reply 202 (Record (public x)))"
              by simp
            then show ?thesis by blast
          qed (use True run w1 in \<open>auto simp: send_message_def granted_def andThen_def charge_def create_record_def\<close>)
        qed
      qed
    qed
  qed
qed

text \<open>The endpoint for PINs.\<close>

lemma sim_pin_effect:
  assumes "sim_pin_endpoint cfg waiting reply rq s = (r, s')"
  shows "a_worker s' = a_worker s \<and> (\<forall>p. r \<noteq> Inr (Reply 202 p))
    \<or> (\<exists>pin. py_isdigit pin \<and> 4 \<le> length pin \<and> length pin \<le> 8 \<and> sim_pin (a_worker_cfg cfg) = []
        \<and> int (pin_submissions (a_worker s)) < sim_pin_max_tries (a_worker_cfg cfg) + 2
        \<and> hs_sim (w_health (a_worker s)) = SimPinRequired
        \<and> a_worker s' = snd (waiting (submit_pin pin reply (a_worker s))))"
proof -
  obtain rj where rj: "read_json rq s = (rj, s)" using read_json_state by (metis prod.collapse)
  have pin: "py_isdigit x \<and> 4 \<le> length x \<and> length x \<le> 8" if "valid_pin j = Some x" for j x
    using that by (auto simp: valid_pin_def split: option.splits json.splits if_splits)
  show ?thesis
  proof (cases "sim_pin (a_worker_cfg cfg) = [] \<and> int (pin_submissions (a_worker s)) < sim_pin_max_tries (a_worker_cfg cfg) + 2
      \<and> hs_sim (w_health (a_worker s)) = SimPinRequired")
    case False
    with assms show ?thesis by (auto simp: sim_pin_endpoint_def Let_def split: if_splits)
  next
    case True
    then have run: "granted (read_json rq) (\<lambda>data.
          case valid_pin (map_of data (str_of ''pin'')) of
            None \<Rightarrow> ret (Refusal 400 (str_of ''bad_pin'') None)
          | Some pin \<Rightarrow> look (\<lambda>s.
              case waiting (submit_pin pin reply (a_worker s)) of (answer, w) \<Rightarrow>
                andThen (change (\<lambda>s. s\<lparr>a_worker := w\<rparr>)) (\<lambda>_.
                case answer of
                  None \<Rightarrow> ret (Refusal 504 (str_of ''pin_timeout'') None)
                | Some st \<Rightarrow> ret (Reply (if st = SimReady then 200 else 422)
                    (SimResult st (max 0 (sim_pin_max_tries (a_worker_cfg cfg) + 2 - int (pin_submissions w)))))))) s = (r, s')"
      using assms by (simp add: sim_pin_endpoint_def Let_def not_le [symmetric])
    consider e where "rj = Inl e" | resp where "rj = Inr (Inl resp)" | data where "rj = Inr (Inr data)" by (metis sum.exhaust)
    then show ?thesis
    proof cases
      case 3
      show ?thesis
      proof (cases "valid_pin (map_of data (str_of ''pin''))")
        case None
        with 3 run rj show ?thesis by (auto simp: granted_def andThen_def)
      next
        case (Some x)
        with 3 run rj have "a_worker s' = snd (waiting (submit_pin x reply (a_worker s)))"
          by (auto simp: granted_def andThen_def split: prod.splits option.splits)
        with pin [OF Some] True show ?thesis by blast
      qed
    qed (use run rj read_json_refused [of rq s] in \<open>auto simp: granted_def andThen_def\<close>)
  qed
qed

text \<open>What the authorization decided carries over to the state the endpoint sees.\<close>

lemma granted_effect:
  assumes "granted (authorize cfg rq need) f s = (r, s')"
  shows "(a_worker s' = a_worker s \<and> (\<forall>p. r \<noteq> Inr (Reply 202 p))) \<or> (\<exists>ident s1. identity_of cfg rq s = Some ident
     \<and> allows (snd ident) need \<and> same_data s s1 \<and> f ident s1 = (r, s'))"
proof -
  obtain a s1 where a: "authorize cfg rq need s = (a, s1)" by fastforce
  note res = authorize_result [OF a]
  consider e where "a = Inl e" | resp where "a = Inr (Inl resp)" | ident where "a = Inr (Inr ident)" by (metis sum.exhaust)
  then show ?thesis
    using assms a res by cases (auto simp: granted_def andThen_def same_data_def split: prod.splits)
qed

text \<open>C34. The worker gets exactly what was checked: a POST, whatever it contains, leaves the worker
  alone; or it adds one record and one job for it, for a caller with the scope to send, one or
  more recipients that are all numbers and all allowed, a text that is not blank and not too
  long, within the rate limit in segments, while the modem is up, and is answered with 202 (and
  only then); or it hands over one PIN of four to eight digits, for an \<open>all\<close> caller, when none is
  configured, the cap is not reached and the SIM asks for one.\<close>

theorem post_jobs:
  "(a_worker (snd (do_POST cfg waiting reply rq s)) = a_worker s \<and> (\<forall>p. fst (do_POST cfg waiting reply rq s) \<noteq> Inr (Reply 202 p)))
   \<or> (\<exists>ident to body key rec ob. accepted_send cfg rq s ident to body key
       \<and> create to body key (Some (fst ident)) (utc_now (a_worker_cfg cfg) (a_now s)) (w_outbox (a_worker s)) = (Inr (rec, True), ob)
       \<and> a_worker (snd (do_POST cfg waiting reply rq s)) = submit_send (out_id rec) ((a_worker s)\<lparr>w_outbox := ob\<rparr>)
       \<and> fst (do_POST cfg waiting reply rq s) = Inr (Reply 202 (Record (public rec))))
   \<or> (\<exists>pin. accepted_pin cfg rq s pin
       \<and> a_worker (snd (do_POST cfg waiting reply rq s)) = snd (waiting (submit_pin pin reply (a_worker s))))"
proof -
  define path where "path = bare_path (rq_path rq)"
  obtain r s' where run: "do_POST cfg waiting reply rq s = (r, s')" by fastforce
  consider (send) "path = str_of ''/v1/messages''" | (pin) "path = str_of ''/v1/sim/pin''" "path \<noteq> str_of ''/v1/messages''"
    | (no) "path \<noteq> str_of ''/v1/messages''" "path \<noteq> str_of ''/v1/sim/pin''" by blast
  then show ?thesis
  proof cases
    case send
    with run have "granted (authorize cfg rq SendScope) (send_message cfg rq) s = (r, s')"
      by (simp add: do_POST_def Let_def path_def)
    from granted_effect [OF this] show ?thesis
    proof (elim disjE exE conjE)
      fix ident s1
      assume id: "identity_of cfg rq s = Some ident" "allows (snd ident) SendScope" "same_data s s1"
        and go: "send_message cfg rq ident s1 = (r, s')"
      have s1: "a_worker s1 = a_worker s" "a_rate s1 = a_rate s" "a_now s1 = a_now s"
        using id(3) by (simp_all add: same_data_def a_now_def)
      from send_message_effect [OF go] show ?thesis
      proof (elim disjE exE conjE)
        fix to body key x ob n
        assume e: "to \<noteq> []" "list_all e164 to" "list_all (recipient_allowed cfg) to" "py_strip body \<noteq> []" "length body \<le> MAX_TEXT_LEN"
          "segments to body = Inr n" "fst (rate_allow n (a_now s1) (a_rate s1))" "hs_state (w_health (a_worker s1)) \<in> {Online, Registering}"
          "create to body key (Some (fst ident)) (utc_now (a_worker_cfg cfg) (a_now s1)) (w_outbox (a_worker s1)) = (Inr (x, True), ob)"
          "a_worker s' = submit_send (out_id x) ((a_worker s1)\<lparr>w_outbox := ob\<rparr>)" "r = Inr (Reply 202 (Record (public x)))"
        then have "accepted_send cfg rq s ident to body key" using id s1 by (simp add: accepted_send_def)
        with e(9-11) s1 run have "accepted_send cfg rq s ident to body key
            \<and> create to body key (Some (fst ident)) (utc_now (a_worker_cfg cfg) (a_now s)) (w_outbox (a_worker s)) = (Inr (x, True), ob)
            \<and> a_worker (snd (do_POST cfg waiting reply rq s)) = submit_send (out_id x) ((a_worker s)\<lparr>w_outbox := ob\<rparr>)
            \<and> fst (do_POST cfg waiting reply rq s) = Inr (Reply 202 (Record (public x)))" by simp
        then show ?thesis by blast
      qed (use s1 run in auto)
    qed (use run in auto)
  next
    case pin
    with run have "granted (authorize cfg rq AllScope) (\<lambda>_. sim_pin_endpoint cfg waiting reply rq) s = (r, s')"
      by (simp add: do_POST_def Let_def path_def)
    from granted_effect [OF this] show ?thesis
    proof (elim disjE exE conjE)
      fix ident s1
      assume id: "identity_of cfg rq s = Some ident" "allows (snd ident) AllScope" "same_data s s1"
        and go: "sim_pin_endpoint cfg waiting reply rq s1 = (r, s')"
      from id(2) have all: "snd ident = AllScope" by (auto simp: allows_def)
      from sim_pin_effect [OF go] id all run show ?thesis
        by (auto simp: accepted_pin_def same_data_def split: option.split prod.split)
    qed (use run in auto)
  next
    case no
    with run show ?thesis by (auto simp: do_POST_def Let_def path_def)
  qed
qed

end
