(* ===== verification/Worker_Frames.thy ===== *)
theory Worker_Frames
  imports Worker
begin

text \<open>
  What the worker's operations leave alone.  \<open>worker_frame\<close> asks of a relation between worker
  states what the receiving side needs: the modem commands that read and delete messages, and
  the updates made while a message is taken in.  Its lemmas carry the relation through
  \<open>on_urc\<close>, however deep unsolicited lines nest.  \<open>control_frame\<close> adds the commands and updates
  of the set-up.  The interpretations say which commands are ever written, that the clock does
  not go back, and which fields the receiving side does not touch.
\<close>

section \<open>The commands\<close>

definition arg_char :: "nat \<Rightarrow> bool" where
  "arg_char c \<longleftrightarrow> c \<in> {34, 44, 45} \<or> ascii_digit c \<or> 65 \<le> c \<and> c \<le> 90"

definition reading_cmd :: "pystr \<Rightarrow> bool" where
  "reading_cmd c \<longleftrightarrow> c = str_of ''AT+CPMS?'' \<or> list_ex (\<lambda>p. py_startswith c p \<and> list_all arg_char (drop (length p) c))
     [str_of ''AT+CMGD='', str_of ''AT+CMGR='', str_of ''AT+CMGL='', str_of ''AT+CPMS='']"

definition control_cmd :: "pystr \<Rightarrow> bool" where
  "control_cmd c \<longleftrightarrow> reading_cmd c \<or>
     c \<in> set [str_of ''AT+CREG?'', str_of ''AT+CEREG?'', str_of ''AT+CGREG?'', str_of ''AT+CSQ'',
       str_of ''AT+COPS?'', str_of ''AT+CMGF=0'', str_of ''AT+CMGF=1'', str_of ''AT+CPIN?'', str_of ''ATE0'',
       str_of ''AT+CMEE=1'', str_of ''ATI'', str_of ''AT+CGMI'', str_of ''AT+CGMM'', str_of ''AT+CGMR'', str_of ''AT+CGSN'',
       str_of ''AT+CNMI=2,1,0,0,0'', str_of ''AT+CNMI=1,1,0,0,0'', str_of ''AT+CNMI=2,2,0,0,0'', str_of ''AT+CNMI=1,2,0,0,0'']"

lemma arg_int [simp]: "list_all arg_char (int_dec i)"
  using int_dec_chars [of _ i] by (auto simp: list_all_iff arg_char_def)

lemma reading_cmds [simp]: "reading_cmd (cmgd_command i)" "reading_cmd (cmgr_command i)"
  by (simp_all add: reading_cmd_def cmgd_command_def cmgr_command_def)

lemma reading_cpms [simp]: "reading_cmd (cpms_command (str_of ''SM''))"
  "reading_cmd (cpms_command (str_of ''ME''))" "reading_cmd (cpms_command (str_of ''MT''))"
  by code_simp+

lemma reading_literals [simp]:
  "reading_cmd (str_of ''AT+CMGL=4'')" "reading_cmd (str_of ''AT+CMGL='' @ 34 # str_of ''ALL'' @ [34])"
  "reading_cmd (str_of ''AT+CPMS?'')"
  by code_simp+

section \<open>The receiving side\<close>

text \<open>A message whose texts the writers of the event stream and of the store can encode: the
  worker publishes no other, since it computes the hash of the message first.\<close>

definition sendable :: "'a inbound_scheme \<Rightarrow> bool" where
  "sendable m \<longleftrightarrow> \<not> isl (utf8_encode (in_sender m)) \<and> \<not> isl (utf8_encode (in_scts m)) \<and> \<not> isl (utf8_encode (in_text m))"

lemma hash_sendable:
  "message_hash dg (in_sender m) (in_scts m) (in_text m) = Inr h \<Longrightarrow> sendable (stamp cfg now h m)"
  by (cases m) (auto simp: message_hash_def sendable_def stamp_def inbound.defs stamped.defs bind_exn_eq_Inr)

lemma keeps_lift_then:
  "preorder R \<Longrightarrow> (\<And>x. r = Inr x \<Longrightarrow> keeps R (f x)) \<Longrightarrow> keeps R (andThen (lift r) f)"
  by (cases r) (simp_all add: keeps_def andThen_def preorderD)

locale worker_frame = port_frame R sends
  for R :: "worker \<Rightarrow> worker \<Rightarrow> bool" and sends :: "pybytes \<Rightarrow> bool" +
  assumes reading: "reading_cmd c \<Longrightarrow> sends (c @ [13])"
    and published: "sendable msg \<Longrightarrow> keeps R (hub_publish msg idx)"
    and assembled: "R w (w\<lparr>w_asm := asm\<rparr>)"
    and seen: "R w (w\<lparr>seen_hashes := hs\<rparr>)"
    and noted: "keeps R (set_health False (\<lambda>hs. hs\<lparr>last_inbound := t\<rparr>))"
    and pending: "R w (w\<lparr>cmt_pending := b\<rparr>)"
    and broken: "R w (w\<lparr>cmgl_broken := b\<rparr>)"
begin

lemma keeps_read:
  "(\<And>line. keeps R (cb line)) \<Longrightarrow> reading_cmd cmd \<Longrightarrow> keeps R (execute cb cmd timeout None extra)"
  by (rule execute_kept) (auto intro: reading)

lemma keeps_delete: "(\<And>line. keeps R (cb line)) \<Longrightarrow> keeps R (delete_indices idx cb)"
  unfolding delete_indices_def by (intro keeps_intros order keeps_read) simp_all

lemma keeps_publish: "(\<And>line. keeps R (cb line)) \<Longrightarrow> keeps R (publish_message cfg msg idx cb)"
  unfolding publish_message_def
  by (rule keeps_lift_then [OF order])
    (intro keeps_intros order keeps_change seen published noted keeps_delete; (assumption | erule hash_sendable))

lemma keeps_assemble: "keeps R (assemble d idx)"
  by (simp add: keeps_def assemble_def case_prod_beta assembled)

lemma keeps_option: "keeps R m \<Longrightarrow> (\<And>x. keeps R (f x)) \<Longrightarrow> keeps R (case v of None \<Rightarrow> m | Some x \<Rightarrow> f x)"
  by (cases v) simp_all

lemma keeps_process_pdu: "(\<And>line. keeps R (cb line)) \<Longrightarrow> keeps R (process_pdu cfg pdu idx cb)"
proof (cases "decode_deliver pdu")
  case (Inl e)
  then show ?thesis unfolding process_pdu_def Inl sum.case by (intro keeps_intros order)
next
  case (Inr r)
  assume "\<And>line. keeps R (cb line)"
  then show ?thesis unfolding process_pdu_def Inr sum.case case_prod_beta
    by (cases r) (simp_all only: decoded.case,
      (intro keeps_intros order keeps_delete keeps_assemble keeps_option keeps_publish; assumption)+)
qed

lemma keeps_process_text: "(\<And>line. keeps R (cb line)) \<Longrightarrow> keeps R (process_text_cmgl cfg header lines cb)"
proof (induction lines arbitrary: header)
  case Nil
  show ?case unfolding process_text_cmgl.simps by (intro keeps_intros order)
next
  case (Cons line lines)
  show ?case unfolding process_text_cmgl.simps case_prod_beta
    by (intro keeps_intros order keeps_option keeps_publish Cons)
qed

lemma keeps_list_text: "(\<And>line. keeps R (cb line)) \<Longrightarrow> keeps R (list_text_cmgl cfg cb)"
  unfolding list_text_cmgl_def
  by (intro keeps_intros order keeps_read keeps_process_text) (assumption | simp)+

lemma keeps_tolerant:
  "(\<And>line. keeps R (cb line)) \<Longrightarrow> sends (cmd @ [13]) \<Longrightarrow> keeps R (tolerant cb cmd timeout)"
  unfolding tolerant_def by (intro keeps_intros order execute_kept) simp_all

lemma keeps_storage_usage: "(\<And>line. keeps R (cb line)) \<Longrightarrow> keeps R (storage_usage cb)"
  unfolding storage_usage_def by (intro keeps_intros order keeps_tolerant reading) simp_all

lemma keeps_sweep: "(\<And>line. keeps R (cb line)) \<Longrightarrow> keeps R (sweep cfg used slots found cb)"
proof (induction slots arbitrary: found)
  case Nil
  show ?case unfolding sweep.simps by (intro keeps_intros order)
next
  case (Cons i slots)
  show ?case unfolding sweep.simps
    by (intro keeps_intros order keeps_option keeps_read keeps_process_pdu Cons) simp
qed

lemma keeps_list_stored: "(\<And>line. keeps R (cb line)) \<Longrightarrow> keeps R (list_stored cfg cb)"
  unfolding list_stored_def case_prod_beta
  by (intro keeps_intros order keeps_read keeps_process_pdu keeps_change broken) (assumption | simp)+

lemma keeps_scan: "(\<And>line. keeps R (cb line)) \<Longrightarrow> keeps R (scan_stored cfg cb)"
  unfolding scan_stored_def case_prod_beta
  by (intro keeps_intros order keeps_option keeps_list_text keeps_list_stored keeps_storage_usage keeps_sweep) assumption+

lemma keeps_read_index: "(\<And>line. keeps R (cb line)) \<Longrightarrow> keeps R (read_index cfg i cb)"
  unfolding read_index_def
  by (intro keeps_intros order keeps_option keeps_read keeps_process_pdu keeps_scan) (assumption | simp)+

lemma keeps_urc_body: "(\<And>line. keeps R (cb line)) \<Longrightarrow> keeps R (urc_body cfg line cb)"
  unfolding urc_body_def case_prod_beta
  by (intro keeps_intros order keeps_option keeps_read_index keeps_process_pdu keeps_change)
    (auto simp: pending R_refl)

lemma keeps_on_urc: "keeps R (on_urc cfg n line)"
proof (induction n arbitrary: line)
  case 0
  show ?case unfolding on_urc.simps by (intro keeps_intros order)
next
  case (Suc n)
  show ?case unfolding on_urc.simps by (intro keeps_urc_body Suc)
qed

lemma keeps_flush: "keeps R (flush_partials cfg (on_urc cfg n))"
  unfolding flush_partials_def case_prod_beta
  by (intro keeps_intros order keeps_publish keeps_on_urc) (simp add: keeps_def assembled)

lemma keeps_drain: "keeps R (drain_urcs (on_urc cfg n) duration)"
  by (rule drain_kept) (rule keeps_on_urc)

lemma receiving:
  "keeps R (delete_indices idx (on_urc cfg n))" "keeps R (publish_message cfg msg idx (on_urc cfg n))"
  "keeps R (process_pdu cfg pdu i (on_urc cfg n))" "keeps R (scan_stored cfg (on_urc cfg n))"
  by (rule keeps_delete keeps_publish keeps_process_pdu keeps_scan; rule keeps_on_urc)+

end

section \<open>The set-up\<close>

lemma control_literals [simp]:
  "control_cmd (str_of ''AT+CREG?'')" "control_cmd (str_of ''AT+CEREG?'')" "control_cmd (str_of ''AT+CGREG?'')"
  "control_cmd (str_of ''AT+CSQ'')" "control_cmd (str_of ''AT+COPS?'')" "control_cmd (str_of ''AT+CMGF=0'')"
  "control_cmd (str_of ''AT+CMGF=1'')" "control_cmd (str_of ''AT+CPIN?'')" "control_cmd (str_of ''ATE0'')"
  "control_cmd (str_of ''AT+CMEE=1'')" "control_cmd (str_of ''AT+CNMI=2,1,0,0,0'')" "control_cmd (str_of ''AT+CNMI=1,1,0,0,0'')"
  "control_cmd (str_of ''AT+CNMI=2,2,0,0,0'')" "control_cmd (str_of ''AT+CNMI=1,2,0,0,0'')"
  "control_cmd (str_of ''ATI'')" "control_cmd (str_of ''AT+CGMI'')" "control_cmd (str_of ''AT+CGMM'')"
  "control_cmd (str_of ''AT+CGMR'')" "control_cmd (str_of ''AT+CGSN'')"
  by code_simp+

lemma control_reading [simp]: "reading_cmd c \<Longrightarrow> control_cmd c"
  by (simp add: control_cmd_def)

lemma keeps_gather_on:
  assumes "preorder R"
  shows "(\<And>x. x \<in> set xs \<Longrightarrow> keeps R (f x)) \<Longrightarrow> keeps R (gather f xs)"
proof (induction xs)
  case Nil
  show ?case unfolding gather.simps by (rule keeps_ret [OF assms])
next
  case (Cons x xs)
  have "keeps R (f x)" "keeps R (gather f xs)" using Cons by simp_all
  then show ?case unfolding gather.simps
    by (rule keeps_andThen [OF assms _ keeps_andThen [OF assms _ keeps_ret [OF assms]]])
qed

locale control_frame = worker_frame R sends
  for R :: "worker \<Rightarrow> worker \<Rightarrow> bool" and sends :: "pybytes \<Rightarrow> bool" +
  assumes control: "control_cmd c \<Longrightarrow> sends (c @ [13])"
    and healthy: "(\<And>hs. hs_sim (f hs) \<in> {hs_sim hs, SimReady}) \<Longrightarrow> keeps R (set_health loud f)"
    and clock: "0 \<le> ms \<Longrightarrow> R w (w\<lparr>p_clock := p_clock w + ms\<rparr>)"
    and mode: "R w (w\<lparr>pdu_mode := b\<rparr>)"
    and strat: "R w (w\<lparr>w_strategy := st\<rparr>)"
    and info: "R w (w\<lparr>modem_info := mi\<rparr>)"
    and replied: "R w (w\<lparr>replies := rs\<rparr>)"
begin

lemma keeps_control:
  "(\<And>line. keeps R (cb line)) \<Longrightarrow> control_cmd cmd \<Longrightarrow> keeps R (execute cb cmd timeout None extra)"
  by (rule execute_kept) (auto intro: control)

lemma keeps_query: "(\<And>line. keeps R (cb line)) \<Longrightarrow> control_cmd cmd \<Longrightarrow> keeps R (tolerant cb cmd timeout)"
  by (rule keeps_tolerant) (auto intro: control)

lemma keeps_cpin_state: "(\<And>line. keeps R (cb line)) \<Longrightarrow> keeps R (cpin_state cb)"
  unfolding cpin_state_def by (intro keeps_intros order keeps_control) simp_all

lemma keeps_registration_cmds:
  "(\<And>line. keeps R (cb line)) \<Longrightarrow> list_all control_cmd cmds \<Longrightarrow> keeps R (registration_cmds cb cmds)"
proof (induction cmds)
  case Nil
  show ?case unfolding registration_cmds.simps by (intro keeps_intros order)
next
  case (Cons cmd cmds)
  then have "control_cmd cmd" "keeps R (registration_cmds cb cmds)" by simp_all
  then show ?case unfolding registration_cmds.simps
    by (intro keeps_intros order keeps_query keeps_option Cons(2))
qed

lemma keeps_registration: "(\<And>line. keeps R (cb line)) \<Longrightarrow> keeps R (registration cb)"
  unfolding registration_def by (rule keeps_registration_cmds) simp_all

lemma keeps_registered: "(\<And>line. keeps R (cb line)) \<Longrightarrow> keeps R (registered cb)"
  unfolding registered_def case_prod_beta by (intro keeps_intros order keeps_registration)

lemma keeps_try_commands:
  "(\<And>line. keeps R (cb line)) \<Longrightarrow> list_all (\<lambda>(c, v). control_cmd c) cs \<Longrightarrow> keeps R (try_commands cb cs none)"
proof (induction cs)
  case Nil
  show ?case unfolding try_commands.simps by (intro keeps_intros order)
next
  case (Cons c cs)
  then have "control_cmd (fst c)" "keeps R (try_commands cb cs none)" by auto
  then have "keeps R (try_commands cb ((fst c, snd c) # cs) none)" unfolding try_commands.simps
    by (intro keeps_intros order keeps_query keeps_option Cons(2))
  then show ?case by simp
qed

lemma keeps_selects:
  "(\<And>line. keeps R (cb line)) \<Longrightarrow> keeps R (select_cnmi cb)"
  "(\<And>line. keeps R (cb line)) \<Longrightarrow> keeps R (select_storage cb)"
  unfolding select_cnmi_def select_storage_def by (rule keeps_try_commands; simp)+

lemma keeps_refresh: "(\<And>line. keeps R (cb line)) \<Longrightarrow> keeps R (refresh_network_health cb)"
  unfolding refresh_network_health_def signal_def operator_def case_prod_beta
  by (intro keeps_intros order keeps_query keeps_registration keeps_storage_usage healthy) simp_all

lemma keeps_pause: "0 \<le> ms \<Longrightarrow> keeps R (pause ms)"
  unfolding pause_def by (rule keeps_change) (rule clock)

lemma keeps_wait_registered: "(\<And>line. keeps R (cb line)) \<Longrightarrow> keeps R (wait_registered n deadline cb)"
proof (induction n)
  case 0
  show ?case unfolding wait_registered.simps by (intro keeps_intros order)
next
  case (Suc n)
  show ?case unfolding wait_registered.simps
    by (intro keeps_intros order keeps_registered keeps_pause Suc) simp
qed

lemma keeps_choose_mode: "(\<And>line. keeps R (cb line)) \<Longrightarrow> keeps R (choose_mode cb)"
  unfolding choose_mode_def by (intro keeps_intros order keeps_control keeps_change mode) simp_all

lemma keeps_after_sim_ready: "(\<And>line. keeps R (cb line)) \<Longrightarrow> keeps R (after_sim_ready cfg cb)"
  unfolding after_sim_ready_def
  by (intro keeps_intros order healthy keeps_wait_registered keeps_refresh keeps_choose_mode keeps_selects
      keeps_change strat keeps_scan) (assumption | simp)+

lemma keeps_put_reply: "keeps R (put_reply reply st)"
  unfolding put_reply_def by (rule keeps_change) (simp add: replied R_refl)

lemma keeps_identify: "(\<And>line. keeps R (cb line)) \<Longrightarrow> keeps R (identify cb)"
  unfolding identify_def case_prod_beta
  by (rule keeps_gather_on [OF order], rule keeps_andThen [OF order keeps_query])
    (auto simp: identity_queries_def intro: keeps_intros order)

end

section \<open>The relations\<close>

definition same_outbound :: "worker \<Rightarrow> worker \<Rightarrow> bool" where
  "same_outbound w w' \<longleftrightarrow> w_outbox w' = w_outbox w \<and> jobs w' = jobs w \<and> pin_submissions w' = pin_submissions w
     \<and> env_pin_tries w' = env_pin_tries w \<and> runtime_pin w' = runtime_pin w \<and> stopping w' = stopping w
     \<and> random_bytes w' = random_bytes w"

definition same_reading :: "worker \<Rightarrow> worker \<Rightarrow> bool" where
  "same_reading w w' \<longleftrightarrow> same_outbound w w' \<and> pdu_mode w' = pdu_mode w
     \<and> (w_health w')\<lparr>last_inbound := None\<rparr> = (w_health w)\<lparr>last_inbound := None\<rparr>"

definition later :: "worker \<Rightarrow> worker \<Rightarrow> bool" where
  "later w w' \<longleftrightarrow> p_clock w \<le> p_clock w'"

lemma read_chunk_more [simp]: "port.more (snd (read_chunk p)) = port.more p"
  by (simp add: read_chunk_def Let_def split: list.split option.split prod.split)

lemma worker_eqI:
  "port.more w = port.more w' \<Longrightarrow> w_outbox w = w_outbox w' \<and> jobs w = jobs w' \<and> pin_submissions w = pin_submissions w'
    \<and> env_pin_tries w = env_pin_tries w' \<and> runtime_pin w = runtime_pin w' \<and> stopping w = stopping w'
    \<and> random_bytes w = random_bytes w' \<and> pdu_mode w = pdu_mode w' \<and> w_health w = w_health w'
    \<and> w_hub w = w_hub w' \<and> disk_budget w = disk_budget w' \<and> seen_hashes w = seen_hashes w'"
  by (cases w; cases w') simp

lemma same_outbound_order: "preorder same_outbound" and same_reading_order: "preorder same_reading"
  and later_order: "preorder later"
  by (auto simp: preorder_def same_outbound_def same_reading_def later_def)

text \<open>The receiving side only reads and deletes messages at the modem.\<close>

definition reading_write :: "pybytes \<Rightarrow> bool" where
  "reading_write bs \<longleftrightarrow> bs \<noteq> [] \<and> last bs = 13 \<and> reading_cmd (butlast bs)"

lemma written_more: "p_written w' = p_written w \<Longrightarrow> written_grows S w w'"
  by (simp add: written_grows_def)

interpretation reads: worker_frame "written_grows reading_write" reading_write
  by unfold_locales
    (auto simp: reading_write_def written_more keeps_def hub_publish_def set_health_def Let_def split: prod.split)

interpretation outbound: control_frame same_outbound "\<lambda>_. True"
proof unfold_locales
  show "same_outbound p (snd (read_chunk p))" for p
    using worker_eqI [OF read_chunk_more [of p]] by (simp add: same_outbound_def)
qed (auto simp: same_outbound_order, auto simp: same_outbound_def keeps_def hub_publish_def set_health_def port_write_def Let_def split: prod.split)

interpretation receives: worker_frame same_reading "\<lambda>_. True"
proof unfold_locales
  show "same_reading p (snd (read_chunk p))" for p
    using worker_eqI [OF read_chunk_more [of p]] by (simp add: same_reading_def same_outbound_def)
qed (auto simp: same_reading_order, auto simp: same_reading_def same_outbound_def keeps_def hub_publish_def set_health_def
  port_write_def Let_def split: prod.split)

interpretation time: control_frame later "\<lambda>_. True"
proof unfold_locales
  show "later p (snd (read_chunk p))" for p
    by (auto simp: later_def read_chunk_def Let_def split: list.split option.split prod.split)
qed (auto simp: later_order, auto simp: later_def keeps_def hub_publish_def set_health_def port_write_def Let_def split: prod.split)

lemma time_wait: "keeps later (wait_registered n deadline (on_urc cfg k))"
  by (intro time.keeps_wait_registered time.keeps_on_urc)

text \<open>The rounds given to \<open>wait_registered\<close> are enough: each sleeps two seconds, so a further
  round would meet the deadline.\<close>

lemma wait_registered_enough:
  "deadline \<le> p_clock w + 2000 * int n \<Longrightarrow>
   wait_registered (n + k) deadline (on_urc cfg d) w = wait_registered n deadline (on_urc cfg d) w"
proof (induction n arbitrary: w)
  case 0
  then show ?case by (cases k) simp_all
next
  case (Suc n)
  obtain r q where q: "registered (on_urc cfg d) w = (r, q)" by fastforce
  have "keeps later (registered (on_urc cfg d))" by (rule time.keeps_registered) (rule time.keeps_on_urc)
  from keepsD [OF this q] have "later w q" .
  then have "deadline \<le> p_clock (q\<lparr>p_clock := p_clock q + 2000\<rparr>) + 2000 * int n"
    using Suc.prems by (simp add: later_def)
  from Suc.IH [OF this] q show ?case
    by (cases r) (simp_all add: andThen_def pause_def)
qed

text \<open>What is written is one line, ended by a carriage return or by Ctrl-Z: no control character
  inside that would end a command or a message early.\<close>

definition clean_write :: "pybytes \<Rightarrow> bool" where
  "clean_write bs \<longleftrightarrow> bs \<noteq> [] \<and> last bs \<in> {13, 26} \<and> list_all (\<lambda>c. c \<notin> {10, 13, 26, 27}) (butlast bs)"

lemma clean_line: "list_all (\<lambda>c. c \<notin> {10, 13, 26, 27}) bs \<Longrightarrow> e \<in> {13, 26} \<Longrightarrow> clean_write (bs @ [e])"
  by (simp add: clean_write_def)

lemma clean_prefix: "py_startswith c p \<Longrightarrow> list_all Q p \<Longrightarrow> list_all Q (drop (length p) c) \<Longrightarrow> list_all Q c"
  by (metis append_take_drop_id list_all_append py_startswith_def)

lemma arg_clean: "list_all arg_char xs \<Longrightarrow> list_all (\<lambda>c. c \<notin> {10, 13, 26, 27}) xs"
  by (auto simp: list_all_iff arg_char_def ascii_digit_def)

lemma reading_clean:
  assumes "reading_cmd c"
  shows "clean_write (c @ [13])"
proof (rule clean_line)
  have lit: "list_all (\<lambda>c. c \<notin> {10, 13, 26, 27}) (str_of ''AT+CPMS?'')"
    "list_all (list_all (\<lambda>c. c \<notin> {10, 13, 26, 27}))
       [str_of ''AT+CMGD='', str_of ''AT+CMGR='', str_of ''AT+CMGL='', str_of ''AT+CPMS='']"
    by code_simp+
  from assms consider "c = str_of ''AT+CPMS?''"
    | p where "p \<in> set [str_of ''AT+CMGD='', str_of ''AT+CMGR='', str_of ''AT+CMGL='', str_of ''AT+CPMS='']"
        "py_startswith c p" "list_all arg_char (drop (length p) c)"
    unfolding reading_cmd_def list_ex_iff by blast
  then show "list_all (\<lambda>c. c \<notin> {10, 13, 26, 27}) c"
  proof cases
    case 1
    with lit(1) show ?thesis by simp
  next
    case (2 p)
    from lit(2) 2(1) have "list_all (\<lambda>c. c \<notin> {10, 13, 26, 27}) p" by (auto simp: list_all_iff [of "list_all _"])
    with clean_prefix [OF 2(2)] arg_clean [OF 2(3)] show ?thesis by blast
  qed
qed simp

lemma control_clean: "control_cmd c \<Longrightarrow> clean_write (c @ [13])"
proof -
  assume "control_cmd c"
  moreover have "list_all (\<lambda>c. clean_write (c @ [13]))
     [str_of ''AT+CREG?'', str_of ''AT+CEREG?'', str_of ''AT+CGREG?'', str_of ''AT+CSQ'',
       str_of ''AT+COPS?'', str_of ''AT+CMGF=0'', str_of ''AT+CMGF=1'', str_of ''AT+CPIN?'', str_of ''ATE0'',
       str_of ''AT+CMEE=1'', str_of ''ATI'', str_of ''AT+CGMI'', str_of ''AT+CGMM'', str_of ''AT+CGMR'', str_of ''AT+CGSN'',
       str_of ''AT+CNMI=2,1,0,0,0'', str_of ''AT+CNMI=1,1,0,0,0'', str_of ''AT+CNMI=2,2,0,0,0'', str_of ''AT+CNMI=1,2,0,0,0'']"
    by code_simp
  ultimately show ?thesis unfolding control_cmd_def list_all_iff using reading_clean by blast
qed

interpretation cleans: control_frame "written_grows clean_write" clean_write
  by unfold_locales
    (auto simp: written_more reading_clean control_clean keeps_def hub_publish_def set_health_def Let_def split: prod.split)

text \<open>Every command is of one of the two kinds, or submits a PIN.\<close>

definition is_cpin :: "pybytes \<Rightarrow> bool" where
  "is_cpin bs \<longleftrightarrow> bs \<noteq> [] \<and> last bs = 13 \<and> py_startswith bs (str_of ''AT+CPIN='')"

definition cpin_writes :: "worker \<Rightarrow> nat" where
  "cpin_writes w = length (filter is_cpin (p_written w))"

definition same_pin :: "worker \<Rightarrow> worker \<Rightarrow> bool" where
  "same_pin w w' \<longleftrightarrow> pin_submissions w' = pin_submissions w \<and> cpin_writes w' = cpin_writes w
     \<and> env_pin_tries w' = env_pin_tries w"

lemma py_startswith_unique:
  assumes "py_startswith c p" "py_startswith (c @ x) p'" "length p = length p'"
  shows "p = p'"
proof -
  have "length (take (length p) c) = length p" using assms(1) by (simp add: py_startswith_def)
  then have "length p \<le> length c" by simp
  with assms show ?thesis by (simp add: py_startswith_def)
qed

lemma control_no_pin: "control_cmd c \<Longrightarrow> \<not> is_cpin (c @ [13])"
proof -
  assume "control_cmd c"
  moreover have "list_all (\<lambda>c. \<not> is_cpin (c @ [13]))
     [str_of ''AT+CPMS?'', str_of ''AT+CREG?'', str_of ''AT+CEREG?'', str_of ''AT+CGREG?'', str_of ''AT+CSQ'',
       str_of ''AT+COPS?'', str_of ''AT+CMGF=0'', str_of ''AT+CMGF=1'', str_of ''AT+CPIN?'', str_of ''ATE0'',
       str_of ''AT+CMEE=1'', str_of ''ATI'', str_of ''AT+CGMI'', str_of ''AT+CGMM'', str_of ''AT+CGMR'', str_of ''AT+CGSN'',
       str_of ''AT+CNMI=2,1,0,0,0'', str_of ''AT+CNMI=1,1,0,0,0'', str_of ''AT+CNMI=2,2,0,0,0'', str_of ''AT+CNMI=1,2,0,0,0'']"
    by code_simp
  moreover have "\<not> is_cpin (c @ [13])" if "p \<in> set [str_of ''AT+CMGD='', str_of ''AT+CMGR='', str_of ''AT+CMGL='', str_of ''AT+CPMS='']"
    "py_startswith c p" for p
  proof
    assume "is_cpin (c @ [13])"
    then have "py_startswith (c @ [13]) (str_of ''AT+CPIN='')" by (simp add: is_cpin_def)
    from py_startswith_unique [OF that(2) this] that(1) show False by (auto simp: str_of_def)
  qed
  ultimately show ?thesis unfolding control_cmd_def reading_cmd_def list_all_iff list_ex_iff by auto
qed

interpretation pins: control_frame same_pin "\<lambda>bs. \<not> is_cpin bs"
proof unfold_locales
  show "same_pin p (snd (read_chunk p))" for p
    using worker_eqI [OF read_chunk_more [of p]] by (simp add: same_pin_def cpin_writes_def)
qed (auto simp: preorder_def control_no_pin, auto simp: same_pin_def cpin_writes_def control_no_pin keeps_def
  hub_publish_def set_health_def port_write_def Let_def split: prod.split)

text \<open>Outside of \<open>unlock_sim\<close> a SIM once reported as ready stays so.\<close>

definition stays_ready :: "worker \<Rightarrow> worker \<Rightarrow> bool" where
  "stays_ready w w' \<longleftrightarrow> (hs_sim (w_health w) = SimReady \<longrightarrow> hs_sim (w_health w') = SimReady)"

lemma stays_ready_order: "preorder stays_ready"
  by (auto simp: preorder_def stays_ready_def)

lemma ready_health: "(\<And>hs. hs_sim (f hs) \<in> {hs_sim hs, SimReady}) \<Longrightarrow> keeps stays_ready (set_health loud f)"
  by (simp add: keeps_def set_health_def stays_ready_def Let_def) metis

interpretation ready: control_frame stays_ready "\<lambda>_. True"
proof unfold_locales
  show "stays_ready p (snd (read_chunk p))" for p
    using worker_eqI [OF read_chunk_more [of p]] by (simp add: stays_ready_def)
  show "keeps stays_ready (set_health loud f)" if "\<And>hs. hs_sim (f hs) \<in> {hs_sim hs, SimReady}" for loud f
    using that by (rule ready_health)
qed (auto simp: stays_ready_order ready_health, auto simp: stays_ready_def keeps_def hub_publish_def port_write_def Let_def
  split: prod.split)

end
