(* ===== verification/Worker_Props.thy ===== *)
theory Worker_Props
  imports Worker_Frames
begin

text \<open>
  Properties of the modem worker: it always returns, what it may write to the modem, what the
  handling of an unsolicited line leaves alone, and, over whole runs, how often a PIN is submitted.
  The locales carry a relation through serving (\<open>serve_frame\<close>) and a whole cycle (\<open>cycle_frame\<close>).
\<close>

section \<open>Composition under a condition\<close>

lemma keeps_cond: "(b \<Longrightarrow> keeps R m) \<Longrightarrow> (\<not> b \<Longrightarrow> keeps R n) \<Longrightarrow> keeps R (if b then m else n)"
  by simp

lemma keeps_change_then:
  "preorder R \<Longrightarrow> (\<And>s. R s (g s)) \<Longrightarrow> keeps R (f ()) \<Longrightarrow> keeps R (andThen (change g) f)"
  by (rule keeps_andThen) (auto intro: keeps_change)

lemma keeps_then_ret: "preorder R \<Longrightarrow> keeps R m \<Longrightarrow> keeps R (andThen m (\<lambda>x. ret (f x)))"
  by (rule keeps_andThen) (auto intro: keeps_ret)

section \<open>Serving\<close>

locale serve_frame = control_frame R sends
  for R :: "worker \<Rightarrow> worker \<Rightarrow> bool" and sends :: "pybytes \<Rightarrow> bool" +
  fixes cfg :: wcfg
  assumes pin_job: "keeps R (do_pin cfg pin reply (on_urc cfg n))"
    and sent: "keeps R (send_one cfg number body (on_urc cfg n))"
    and recorded: "keeps R (ob_update cfg rec_id chg)"
    and taken: "R w (w\<lparr>jobs := js\<rparr>)"
begin

lemma keeps_mark_outbound: "keeps R (mark_outbound cfg)"
  unfolding mark_outbound_def by (intro keeps_intros healthy) simp

lemma keeps_send_failed: "keeps R (send_failed cfg rec_id number refs e)"
  unfolding send_failed_def by (intro keeps_intros order recorded keeps_mark_outbound)

lemma keeps_send_loop: "keeps R (send_loop cfg rec_id body numbers refs done (on_urc cfg n))"
proof (induction numbers arbitrary: refs "done")
  case Nil
  show ?case unfolding send_loop.simps by (intro keeps_intros order recorded keeps_mark_outbound)
next
  case (Cons number numbers)
  show ?case unfolding send_loop.simps by (intro keeps_intros order sent keeps_send_failed Cons)
qed

lemma keeps_do_send: "keeps R (do_send cfg rec_id (on_urc cfg n))"
  unfolding do_send_def by (intro keeps_intros order keeps_option recorded keeps_send_loop)

lemma keeps_job: "keeps R (handle_job cfg j (on_urc cfg n))"
  unfolding handle_job_def
  by (cases j) (simp_all only: job.case, (intro keeps_intros order keeps_do_send pin_job receiving)+)

lemma keeps_serve_work: "keeps R (serve_work cfg polls (on_urc cfg n))"
proof -
  have jobs: "keeps R (case js of [] \<Rightarrow> m | x # xs \<Rightarrow> f x xs)" if "keeps R m" "\<And>x xs. keeps R (f x xs)"
    for js :: "job list" and m :: "unit wact" and f
    using that by (cases js) simp_all
  show ?thesis unfolding serve_work_def case_prod_beta Let_def
    by (intro keeps_intros order jobs keeps_pause keeps_drain keeps_change taken keeps_job receiving
        keeps_refresh keeps_on_urc keeps_flush) simp
qed

lemma keeps_serve_round: "keeps R (serve_round cfg polls (on_urc cfg n))"
  unfolding serve_round_def by (intro keeps_intros order keeps_serve_work healthy) simp

lemma keeps_serve: "keeps R (serve cfg k polls (on_urc cfg n))"
proof (induction k arbitrary: polls)
  case 0
  show ?case unfolding serve.simps by (intro keeps_intros order)
next
  case (Suc k)
  show ?case unfolding serve.simps by (intro keeps_intros order keeps_serve_round keeps_option Suc)
qed

end

locale cycle_frame = serve_frame R sends cfg
  for R :: "worker \<Rightarrow> worker \<Rightarrow> bool" and sends :: "pybytes \<Rightarrow> bool" and cfg :: wcfg +
  assumes unlocked: "keeps R (unlock_sim cfg (on_urc cfg n))"
begin

lemma keeps_connect: "keeps R (w_connect cfg dev (on_urc cfg n))"
proof -
  have opened: "keeps R (change (\<lambda>w. w\<lparr>p_buf := []\<rparr>))"
  proof (rule keeps_change)
    fix w :: worker
    show "R w (w\<lparr>p_buf := []\<rparr>)" using eats [of w "length (p_buf w)"] by simp
  qed
  show ?thesis unfolding w_connect_def
    by (intro keeps_intros order healthy keeps_option opened keeps_control keeps_on_urc keeps_identify
        keeps_change info unlocked keeps_after_sim_ready) simp_all
qed

lemma keeps_cycle: "keeps R (run_cycle cfg dev k (on_urc cfg n))"
  unfolding run_cycle_def by (intro keeps_intros order keeps_connect keeps_serve healthy) simp

end

text \<open>A relation of the hubs alone: what does not touch the hub keeps it, so that the commands
  that are written, the PIN and the sending of messages need not be looked at.\<close>

locale hub_frame =
  fixes R :: "worker \<Rightarrow> worker \<Rightarrow> bool"
  assumes hub_order: "preorder R"
    and elsewhere: "w_hub w' = w_hub w \<Longrightarrow> R w w'"
    and hub_published: "sendable msg \<Longrightarrow> keeps R (hub_publish msg idx)"
    and hub_health: "keeps R (set_health loud f)"
    and hub_recorded: "keeps R (ob_update cfg rec_id chg)"

sublocale hub_frame \<subseteq> control_frame R "\<lambda>_. True"
proof unfold_locales
  show "R p (snd (read_chunk p))" for p
    using worker_eqI [OF read_chunk_more [of p]] by (simp add: elsewhere)
qed (auto simp: hub_order hub_published hub_health port_write_def intro: elsewhere)

context hub_frame
begin

lemma keeps_try_pin: "keeps R (try_pin pin (on_urc cfg n))"
  unfolding try_pin_def enter_pin_def
  by (intro keeps_intros hub_order execute_kept keeps_on_urc keeps_pause keeps_cpin_state) simp_all

lemma keeps_report_sim: "keeps R (report_sim st name)"
  unfolding report_sim_def
  by (cases st) (simp_all only: sim_state.case, (intro keeps_intros hub_order hub_health keeps_change elsewhere; simp)+)

lemma keeps_do_pin: "keeps R (do_pin cfg pin reply (on_urc cfg n))"
  unfolding do_pin_def
  by (intro keeps_intros hub_order keeps_put_reply keeps_try_pin hub_health keeps_after_sim_ready keeps_on_urc
      keeps_change elsewhere) simp_all

lemma keeps_send_one: "keeps R (send_one cfg number body (on_urc cfg n))"
  unfolding send_one_def case_prod_beta
  by (intro keeps_intros hub_order execute_kept keeps_on_urc keeps_change elsewhere) simp_all

lemma keeps_unlock: "keeps R (unlock_sim cfg (on_urc cfg n))"
  unfolding unlock_sim_def
  by (intro keeps_intros hub_order keeps_cpin_state keeps_on_urc keeps_try_pin keeps_report_sim keeps_change elsewhere) simp_all

end

sublocale hub_frame \<subseteq> cycles: cycle_frame R "\<lambda>_. True" cfg for cfg
  by unfold_locales (auto simp: keeps_do_pin keeps_send_one keeps_unlock hub_recorded intro: elsewhere)

section \<open>What is written\<close>

lemma enter_pin_clean: "keeps (written_grows clean_write) (enter_pin (on_urc cfg n) pin)"
proof -
  let ?cb = "on_urc cfg n"
  note cb = cleans.keeps_on_urc [of cfg n]
  have refl: "written_grows clean_write p p" for p :: worker by (simp add: written_grows_def)
  show ?thesis
  proof (cases "py_isdigit pin \<and> list_all (\<lambda>c. c < 128) pin")
    case True
    have "ascii_digit c" if "is_digit c" "c < 128" for c
    proof -
      have "list_all (\<lambda>c. is_digit c \<longrightarrow> ascii_digit c) [0..<128]" by code_simp
      with that show ?thesis by (simp add: list_all_iff)
    qed
    with True have "list_all ascii_digit pin" by (auto simp: py_isdigit_def list_all_iff)
    then have "list_all arg_char ([34] @ pin @ [34])" by (auto simp: arg_char_def list_all_iff)
    moreover have "list_all (\<lambda>c. c \<notin> {10, 13, 26, 27}) (str_of ''AT+CPIN='')" by code_simp
    ultimately have "clean_write (pin_command pin @ [13])"
      using arg_clean by (intro clean_line) (simp_all add: pin_command_def)
    then show ?thesis unfolding enter_pin_def
      by (intro keeps_intros written_grows_order writes.execute_kept cb) simp_all
  next
    case False
    have "snd (enter_pin ?cb pin w) = w" for w
    proof (cases "py_isdigit pin")
      case True
      with False have "\<not> list_all (\<lambda>c. c < 128) (pin_command pin)" by (simp add: pin_command_def)
      then have "execute ?cb (pin_command pin) 20000 None False w = (Inl ValueError, w)" by (simp add: execute_def)
      then show ?thesis by (simp add: enter_pin_def andThen_def)
    qed (simp add: enter_pin_def)
    then show ?thesis by (simp add: keeps_def refl)
  qed
qed

lemma hex_text_clean: "list_all (\<lambda>c. c \<notin> {10, 13, 26, 27}) (ascii_upper (hex_lower bs))"
  by (induction bs) (auto simp: hex_lower_def ascii_upper_def hex_digit_def)

lemma pdus_clean:
  assumes "build_submit_pdus rnd number s = Inr pdus" "(pdu, n) \<in> set pdus"
  shows "clean_write (pdu @ [26])" "clean_write (cmgs_pdu_command n @ [13])"
proof -
  have step: "\<exists>tpdu. y = (str_of ''00'' @ ascii_upper (hex_lower tpdu), length tpdu)"
    if "traverse (\<lambda>(seq, part). bind_exn (f seq part) (\<lambda>tpdu. Inr (str_of ''00'' @ ascii_upper (hex_lower tpdu), length tpdu))) xs = Inr ys"
      "y \<in> set ys" for f :: "nat \<Rightarrow> pystr \<Rightarrow> exn + pybytes" and xs :: "(nat \<times> pystr) list" and ys y
    using that by (induction xs arbitrary: ys) (auto simp: bind_exn_eq_Inr)
  from assms(1) obtain parts where
    "traverse (\<lambda>(seq, part). bind_exn (submit_tpdu number (is_gsm7 s) (1 < length parts)
        (if 1 < length parts then rnd else 0) (length parts) seq part)
        (\<lambda>tpdu. Inr (str_of ''00'' @ ascii_upper (hex_lower tpdu), length tpdu)))
      (zip [1..<Suc (length parts)] parts) = Inr pdus"
    unfolding build_submit_pdus_def bind_exn_eq_Inr Let_def by blast
  from step [OF this assms(2)] obtain tpdu where pdu: "pdu = str_of ''00'' @ ascii_upper (hex_lower tpdu)" by auto
  have lit: "list_all (\<lambda>c. c \<notin> {10, 13, 26, 27}) (str_of ''00'')"
    "list_all (\<lambda>c. c \<notin> {10, 13, 26, 27}) (str_of ''AT+CMGS='')" by code_simp+
  show "clean_write (pdu @ [26])" using hex_text_clean [of tpdu] lit(1) pdu by (intro clean_line) simp_all
  have "list_all (\<lambda>c. c \<notin> {10, 13, 26, 27}) (nat_dec n)"
    using nat_dec_digits [of n] by (auto simp: list_all_iff ascii_digit_def)
  with lit(2) show "clean_write (cmgs_pdu_command n @ [13])"
    unfolding cmgs_pdu_command_def by (intro clean_line) simp_all
qed

lemma text_body_clean: "is_gsm7 s \<Longrightarrow> clean_write (text_body s @ [26])"
proof -
  assume g: "is_gsm7 s"
  have "\<not> gsm7_char 26" "\<not> gsm7_char 27" by code_simp+
  with g have "c \<notin> {26, 27}" if "c \<in> set s" for c using that by (auto simp: is_gsm7_def list_all_iff)
  then have "list_all (\<lambda>c. c \<notin> {10, 13, 26, 27}) (text_body s)"
    by (auto simp: text_body_def list_all_iff)
  then show ?thesis by (intro clean_line) simp_all
qed

lemma number_clean: "e164 number \<Longrightarrow> clean_write (cmgs_text_command number @ [13])"
proof -
  assume "e164 number"
  then have "list_all (\<lambda>c. c = 43 \<or> ascii_digit c) number"
    by (cases number) (auto simp: e164_def Let_def list_all_iff split: if_splits)
  then have "list_all (\<lambda>c. c \<notin> {10, 13, 26, 27}) number" by (auto simp: list_all_iff ascii_digit_def)
  moreover have "list_all (\<lambda>c. c \<notin> {10, 13, 26, 27}) (str_of ''AT+CMGS='')" by code_simp
  ultimately show ?thesis unfolding cmgs_text_command_def by (intro clean_line) simp_all
qed

lemma send_one_clean: "keeps (written_grows clean_write) (send_one cfg number body (on_urc cfg n))"
proof -
  have "keeps (written_grows clean_write) (gather (\<lambda>(pdu, n'). andThen
      (execute (on_urc cfg n) (cmgs_pdu_command n') 10000 (Some pdu) False) (\<lambda>lines. ret [cmgs_ref lines])) pdus)"
    if "build_submit_pdus rnd number body = Inr pdus" for rnd pdus
    by (rule keeps_gather_on [OF written_grows_order])
      (use pdus_clean [OF that] in \<open>auto intro!: keeps_intros written_grows_order writes.execute_kept cleans.keeps_on_urc\<close>)
  moreover have "keeps (written_grows clean_write)
      (execute (on_urc cfg n) (cmgs_text_command number) 10000 (Some (text_body body)) False)"
    if "is_gsm7 body" "e164 number"
    using that by (intro writes.execute_kept cleans.keeps_on_urc) (auto simp: number_clean text_body_clean)
  ultimately show ?thesis unfolding send_one_def
    by (intro keeps_look keeps_cond keeps_throw written_grows_order keeps_change written_more
        keeps_change_then keeps_lift_then keeps_then_ret) simp_all
qed

lemma try_pin_clean: "keeps (written_grows clean_write) (try_pin pin (on_urc cfg n))"
  unfolding try_pin_def
  by (intro keeps_intros written_grows_order enter_pin_clean cleans.keeps_pause cleans.keeps_cpin_state cleans.keeps_on_urc) simp

lemma health_clean: "keeps (written_grows clean_write) (set_health loud f)"
  by (simp add: keeps_def set_health_def written_more Let_def)

lemma report_sim_clean: "keeps (written_grows clean_write) (report_sim st name)"
  unfolding report_sim_def
  by (cases st) (simp_all only: sim_state.case,
    (intro keeps_intros written_grows_order health_clean keeps_change written_more; simp)+)

lemma do_pin_clean: "keeps (written_grows clean_write) (do_pin cfg pin reply (on_urc cfg n))"
  unfolding do_pin_def
  by (intro keeps_intros written_grows_order cleans.keeps_put_reply try_pin_clean health_clean
      cleans.keeps_after_sim_ready cleans.keeps_on_urc keeps_change written_more) simp_all

lemma unlock_clean: "keeps (written_grows clean_write) (unlock_sim cfg (on_urc cfg n))"
  unfolding unlock_sim_def
  by (intro keeps_intros written_grows_order cleans.keeps_cpin_state cleans.keeps_on_urc try_pin_clean
      report_sim_clean keeps_change written_more) simp_all

interpretation clean_cycle: cycle_frame "written_grows clean_write" clean_write cfg for cfg
proof unfold_locales
  show "keeps (written_grows clean_write) (ob_update cfg rec_id chg)" for rec_id chg
    by (simp add: ob_update_def keeps_def written_more case_prod_beta)
qed (auto simp: written_more do_pin_clean send_one_clean unlock_clean)

text \<open>C21. The worker always comes back: a cycle of the worker (connect, then any number of
  rounds of serving) returns, whatever the modem sends and whenever, although a command may
  meet an unsolicited line, whose handling runs commands that may meet the next one: the fuel
  given to this nesting is never used up, more fuel changes nothing, and what can still be
  read only gets less.\<close>

theorem worker_returns:
  "fst (on_worker cfg (run_cycle cfg dev n) w) \<noteq> Inl OutOfFuel
   \<and> run_cycle cfg dev n (on_urc cfg (avail w + k)) w = on_worker cfg (run_cycle cfg dev n) w
   \<and> avail (snd (on_worker cfg (run_cycle cfg dev n) w)) \<le> avail w"
  using steady_on_urc [OF steady_run_cycle [where cfg = cfg and dev = dev and n = n], where n = "avail w + k" and cfg = cfg]
  by simp

text \<open>C22. Nothing can be injected into the command stream: whatever numbers and texts the
  records hold, whatever PIN is configured or submitted and whatever the modem answers, every
  byte string a cycle of the worker writes is one line that ends with its only carriage return
  or Ctrl-Z, with no line feed, carriage return, Ctrl-Z or escape before it; and what was
  written before stays.\<close>

theorem writes_are_clean:
  "\<exists>ws. p_written (snd (on_worker cfg (run_cycle cfg dev n) w)) = p_written w @ ws \<and> list_all clean_write ws"
  using clean_cycle.keeps_cycle [where cfg = cfg and dev = dev and k = n and n = "avail w"]
  by (simp add: keeps_def on_worker_def written_grows_def)

text \<open>C23. Handling an unsolicited line only reads and deletes messages at the modem: at any
  depth of nesting it writes no command that sends a message or submits a PIN, and it leaves
  the outbox, the job queue, the PIN counters, the runtime PIN and the mode alone, and the health
  state but for the time of the last message.\<close>

theorem urc_only_reads:
  "(\<exists>ws. p_written (snd (on_urc cfg n line w)) = p_written w @ ws \<and> list_all reading_write ws)
   \<and> same_reading w (snd (on_urc cfg n line w))"
  using reads.keeps_on_urc [of cfg n line] receives.keeps_on_urc [of cfg n line]
  by (simp add: keeps_def written_grows_def)

section \<open>PIN submissions\<close>

text \<open>At most one submission, and only by \<open>enter_pin\<close>.\<close>

definition pin_budget :: "wcfg \<Rightarrow> worker \<Rightarrow> worker \<Rightarrow> bool" where
  "pin_budget cfg w w' \<longleftrightarrow> pin_submissions w \<le> pin_submissions w'
     \<and> cpin_writes w' + pin_submissions w \<le> cpin_writes w + pin_submissions w'
     \<and> int (pin_submissions w') \<le> max (int (pin_submissions w)) (pin_cap cfg) \<and> env_pin_tries w' = env_pin_tries w"

lemma pin_budget_order: "preorder (pin_budget cfg)"
  by (auto simp: preorder_def pin_budget_def)

lemma health_pins: "keeps same_pin (set_health loud f)"
  by (simp add: keeps_def set_health_def same_pin_def cpin_writes_def Let_def)

lemma same_pin_budget: "same_pin w w' \<Longrightarrow> pin_budget cfg w w'"
  by (simp add: same_pin_def pin_budget_def)

lemma same_pin_order: "preorder same_pin"
  by (auto simp: preorder_def same_pin_def)

lemma keeps_pin_budget: "keeps same_pin m \<Longrightarrow> keeps (pin_budget cfg) m"
  by (simp add: keeps_def same_pin_budget)

lemma enter_pin_once:
  assumes "enter_pin (on_urc cfg n) pin w = (r, q)"
  shows "pin_submissions q = pin_submissions w \<and> cpin_writes q \<le> cpin_writes w + 1 \<and> env_pin_tries q = env_pin_tries w"
proof (cases "\<not> py_isdigit pin \<or> \<not> (4 \<le> length pin \<and> length pin \<le> 8)")
  case True
  with assms show ?thesis by (auto simp: enter_pin_def)
next
  case False
  with assms obtain r' where "execute (on_urc cfg n) (pin_command pin) 20000 None False w = (r', q)"
    by (auto simp: enter_pin_def andThen_def split: prod.splits sum.splits)
  from pins.execute_after_write [OF pins.keeps_on_urc this]
  show ?thesis by (auto simp: same_pin_def cpin_writes_def port_write_def)
qed

lemma try_pin_once:
  assumes "try_pin pin (on_urc cfg n) w = (r, q)"
  shows "pin_submissions q = pin_submissions w \<and> cpin_writes q \<le> cpin_writes w + 1 \<and> env_pin_tries q = env_pin_tries w"
proof -
  obtain r1 q1 where e: "enter_pin (on_urc cfg n) pin w = (r1, q1)" by fastforce
  obtain r2 where x: "except (enter_pin (on_urc cfg n) pin) error_or_value (\<lambda>_. ret ()) w = (r2, q1)"
    using e by (cases r1; cases "error_or_value (projl r1) \<and> projl r1 \<noteq> OutOfFuel") (auto simp: except_def)
  have rest: "keeps same_pin (andThen (pause 3000) (\<lambda>_. cpin_state (on_urc cfg n)))"
    by (intro keeps_intros same_pin_order pins.keeps_pause pins.keeps_cpin_state pins.keeps_on_urc) simp
  have "same_pin q1 q"
  proof (cases r2)
    case (Inl e)
    with assms x same_pin_order show ?thesis by (simp add: try_pin_def andThen_def preorderD)
  next
    case (Inr u)
    with assms x have "andThen (pause 3000) (\<lambda>_. cpin_state (on_urc cfg n)) q1 = (r, q)"
      unfolding try_pin_def by (simp add: andThen_def [of "except _ _ _"])
    with keepsD [OF rest] show ?thesis by blast
  qed
  with enter_pin_once [OF e] show ?thesis by (simp add: same_pin_def)
qed

lemma cmgs_no_pin: "\<not> is_cpin (cmgs_pdu_command n @ [13])" "\<not> is_cpin (cmgs_text_command number @ [13])"
  by (simp_all add: is_cpin_def cmgs_pdu_command_def cmgs_text_command_def py_startswith_def str_of_def)

lemma payload_no_pin: "\<not> is_cpin (d @ [26])"
  by (simp add: is_cpin_def)

lemma send_one_no_pin: "keeps same_pin (send_one cfg number body (on_urc cfg n))"
proof -
  have ex: "keeps same_pin (execute (on_urc cfg n) cmd 10000 (Some d) False)" if "\<not> is_cpin (cmd @ [13])" for cmd d
    by (rule pins.execute_kept) (use that in \<open>auto simp: pins.keeps_on_urc payload_no_pin\<close>)
  show ?thesis unfolding send_one_def case_prod_beta
    by (intro keeps_intros same_pin_order ex cmgs_no_pin keeps_change) (simp add: same_pin_def cpin_writes_def)
qed

lemma do_pin_budget: "keeps (pin_budget cfg) (do_pin cfg pin reply (on_urc cfg n))"
proof (rule keepsI)
  fix w r q
  assume run: "do_pin cfg pin reply (on_urc cfg n) w = (r, q)"
  show "pin_budget cfg w q"
  proof (cases "int (pin_submissions w) \<ge> pin_cap cfg \<or> hs_sim (w_health w) \<noteq> SimPinRequired")
    case True
    with run have "put_reply reply (hs_sim (w_health w)) w = (r, q)" by (simp add: do_pin_def)
    with keepsD [OF pins.keeps_put_reply] same_pin_budget show ?thesis by blast
  next
    case False
    let ?w1 = "w\<lparr>pin_submissions := pin_submissions w + 1, runtime_pin := Some pin\<rparr>"
    obtain r2 w2 where t: "try_pin pin (on_urc cfg n) ?w1 = (r2, w2)" by fastforce
    let ?w3 = "w2\<lparr>runtime_pin := None\<rparr>"
    define rest where "rest = (\<lambda>st. andThen (set_health True (\<lambda>hs. hs\<lparr>hs_sim := st\<rparr>)) (\<lambda>_.
       andThen (if st = SimReady then after_sim_ready cfg (on_urc cfg n)
          else if st = SimPukRequired then set_health True (\<lambda>hs. hs\<lparr>hs_state := PukLocked\<rparr>)
          else ret ()) (\<lambda>_. put_reply reply st)))"
    have "keeps same_pin (rest st)" for st unfolding rest_def
      by (intro keeps_intros same_pin_order health_pins pins.keeps_after_sim_ready pins.keeps_on_urc pins.keeps_put_reply)
    moreover have "andThen (ensure (try_pin pin (on_urc cfg n)) (\<lambda>w. w\<lparr>runtime_pin := None\<rparr>)) rest ?w1 = (r, q)"
      using run False by (simp add: do_pin_def rest_def)
    then have "q = ?w3 \<or> (\<exists>st. rest st ?w3 = (r, q))"
      using t by (cases r2) (auto simp: andThen_def ensure_def)
    ultimately have "same_pin ?w3 q"
      using keepsD same_pin_order preorderD(1) by metis
    then have "pin_submissions q = pin_submissions w2" "cpin_writes q = cpin_writes w2" "env_pin_tries q = env_pin_tries w2"
      by (simp_all add: same_pin_def cpin_writes_def)
    with try_pin_once [OF t] False show ?thesis by (simp add: pin_budget_def cpin_writes_def)
  qed
qed

interpretation pin_serve: serve_frame "pin_budget cfg" "\<lambda>bs. \<not> is_cpin bs" cfg for cfg
proof unfold_locales
  show "pin_budget cfg p (snd (read_chunk p))" "pin_budget cfg p (p\<lparr>p_buf := drop k (p_buf p)\<rparr>)" for p k
    using pins.chunk pins.eats same_pin_budget by blast+
  show "pin_budget cfg p (port_write bs p)" if "\<not> is_cpin bs" for p bs
    using pins.writes [OF that] same_pin_budget by blast
  show "keeps (pin_budget cfg) (hub_publish msg idx)" if "sendable msg" for msg idx
    by (rule keeps_pin_budget [OF pins.published [OF that]])
  show "keeps (pin_budget cfg) (set_health loud f)" "keeps (pin_budget cfg) (set_health False (\<lambda>hs. hs\<lparr>last_inbound := t\<rparr>))"
    for loud f t by (rule keeps_pin_budget [OF health_pins])+
  show "keeps (pin_budget cfg) (send_one cfg number body (on_urc cfg n))" for number body n
    by (rule keeps_pin_budget [OF send_one_no_pin])
  show "keeps (pin_budget cfg) (ob_update cfg rec_id chg)" for rec_id chg
    by (simp add: ob_update_def keeps_def pin_budget_def cpin_writes_def case_prod_beta)
qed (auto simp: pin_budget_order control_no_pin do_pin_budget pin_budget_def cpin_writes_def)

text \<open>While serving, a SIM that is ready stays so: \<open>do_pin\<close> submits only while a PIN is asked for.\<close>

lemma ready_try_pin: "keeps stays_ready (try_pin pin (on_urc cfg n))"
  unfolding try_pin_def enter_pin_def
  by (intro keeps_intros stays_ready_order ready.execute_kept ready.keeps_pause ready.keeps_cpin_state ready.keeps_on_urc) simp_all

lemma ready_send_one: "keeps stays_ready (send_one cfg number body (on_urc cfg n))"
  unfolding send_one_def case_prod_beta
  by (intro keeps_intros stays_ready_order ready.execute_kept ready.keeps_on_urc keeps_change) (simp_all add: stays_ready_def)

lemma ready_do_pin: "keeps stays_ready (do_pin cfg pin reply (on_urc cfg n))"
proof (rule keepsI)
  fix w r q
  assume run: "do_pin cfg pin reply (on_urc cfg n) w = (r, q)"
  show "stays_ready w q"
  proof (cases "hs_sim (w_health w) = SimReady")
    case True
    with run have "put_reply reply SimReady w = (r, q)" by (simp add: do_pin_def)
    with keepsD [OF ready.keeps_put_reply] show ?thesis by blast
  qed (simp add: stays_ready_def)
qed

interpretation ready_serve: serve_frame stays_ready "\<lambda>_. True" cfg for cfg
  by unfold_locales
    (auto simp: ready_do_pin ready_send_one ob_update_def keeps_def [of _ "change _"] stays_ready_def case_prod_beta)

section \<open>The configured PIN\<close>

lemma set_health_fields [simp]:
  "fst (set_health loud f w) = Inr ()" "env_pin_tries (snd (set_health loud f w)) = env_pin_tries w"
  "p_written (snd (set_health loud f w)) = p_written w" "runtime_pin (snd (set_health loud f w)) = runtime_pin w"
  "pin_submissions (snd (set_health loud f w)) = pin_submissions w" "w_health (snd (set_health loud f w)) = f (w_health w)"
  by (simp_all add: set_health_def Let_def)

lemma andThen_set_health: "andThen (set_health loud f) g w = g () (snd (set_health loud f w))"
  by (simp add: set_health_def)

lemma report_sim_result:
  "fst (report_sim st name w) = Inr (st = SimReady)"
  "cpin_writes (snd (report_sim st name w)) = cpin_writes w"
  "pin_submissions (snd (report_sim st name w)) = pin_submissions w"
  "env_pin_tries (snd (report_sim st name w)) = (if st = SimReady then 0 else env_pin_tries w)"
  "st = SimReady \<Longrightarrow> hs_sim (w_health (snd (report_sim st name w))) = SimReady"
  by (cases st; simp add: report_sim_def andThen_set_health cpin_writes_def)+

text \<open>What a cycle does to the counters: it submits the configured PIN at most once, and counts it, unless
  the SIM is ready at the end.\<close>

definition may_try :: "wcfg \<Rightarrow> worker \<Rightarrow> nat" where
  "may_try cfg w = (if sim_pin cfg \<noteq> [] \<and> int (env_pin_tries w) < sim_pin_max_tries cfg then 1 else 0)"

definition cycle_pins :: "wcfg \<Rightarrow> worker \<Rightarrow> worker \<Rightarrow> bool" where
  "cycle_pins cfg w w' \<longleftrightarrow> pin_submissions w \<le> pin_submissions w'
     \<and> int (pin_submissions w') \<le> max (int (pin_submissions w)) (pin_cap cfg)
     \<and> (env_pin_tries w \<le> env_pin_tries w' \<and> env_pin_tries w' \<le> env_pin_tries w + may_try cfg w
          \<and> cpin_writes w' + pin_submissions w + env_pin_tries w \<le> cpin_writes w + pin_submissions w' + env_pin_tries w'
        \<or> hs_sim (w_health w') = SimReady \<and> env_pin_tries w' = 0
          \<and> cpin_writes w' + pin_submissions w \<le> cpin_writes w + pin_submissions w' + may_try cfg w)"

definition rest_pins :: "wcfg \<Rightarrow> worker \<Rightarrow> worker \<Rightarrow> bool" where
  "rest_pins cfg w w' \<longleftrightarrow> pin_budget cfg w w' \<and> stays_ready w w'"

lemma cycle_pins_after:
  "same_pin w u \<Longrightarrow> cycle_pins cfg u w' \<Longrightarrow> cycle_pins cfg w w'"
  "cycle_pins cfg w u \<Longrightarrow> rest_pins cfg u w' \<Longrightarrow> cycle_pins cfg w w'"
  "same_pin w w' \<Longrightarrow> cycle_pins cfg w w'"
  by (auto simp: cycle_pins_def same_pin_def rest_pins_def pin_budget_def stays_ready_def may_try_def)

lemma keeps_rest_pins: "keeps (pin_budget cfg) m \<Longrightarrow> keeps stays_ready m \<Longrightarrow> keeps (rest_pins cfg) m"
  by (simp add: keeps_def rest_pins_def)

lemma rest_pins_order: "preorder (rest_pins cfg)"
  using pin_budget_order [of cfg] stays_ready_order unfolding preorder_def rest_pins_def by blast

lemma keeps_prefix:
  assumes "keeps same_pin m" "\<And>x. keeps (cycle_pins cfg) (f x)"
  shows "keeps (cycle_pins cfg) (andThen m f)"
proof (rule keepsI)
  fix w r w'
  assume run: "andThen m f w = (r, w')"
  obtain x u where m: "m w = (x, u)" by fastforce
  with keepsD [OF assms(1)] have pre: "same_pin w u" by blast
  show "cycle_pins cfg w w'"
  proof (cases x)
    case (Inl e)
    with run m pre cycle_pins_after(3) show ?thesis by (simp add: andThen_def)
  next
    case (Inr y)
    with run m have "f y u = (r, w')" by (simp add: andThen_def)
    with keepsD [OF assms(2)] pre cycle_pins_after(1) show ?thesis by blast
  qed
qed

lemma keeps_suffix:
  assumes "keeps (cycle_pins cfg) m" "\<And>x. keeps (rest_pins cfg) (f x)"
  shows "keeps (cycle_pins cfg) (andThen m f)"
proof (rule keepsI)
  fix w r w'
  assume run: "andThen m f w = (r, w')"
  obtain x u where m: "m w = (x, u)" by fastforce
  with keepsD [OF assms(1)] have pre: "cycle_pins cfg w u" by blast
  show "cycle_pins cfg w w'"
  proof (cases x)
    case (Inr y)
    with run m have "f y u = (r, w')" by (simp add: andThen_def)
    with keepsD [OF assms(2)] pre cycle_pins_after(2) show ?thesis by blast
  qed (use run m pre in \<open>simp add: andThen_def\<close>)
qed

lemma keeps_caught:
  assumes "keeps (cycle_pins cfg) m" "\<And>e. keeps (rest_pins cfg) (h e)"
  shows "keeps (cycle_pins cfg) (except m P h)"
proof (rule keepsI)
  fix w r w'
  assume run: "except m P h w = (r, w')"
  obtain x u where m: "m w = (x, u)" by fastforce
  with keepsD [OF assms(1)] have pre: "cycle_pins cfg w u" by blast
  have "w' = u \<or> (\<exists>e. h e u = (r, w'))"
    using run m by (auto simp: except_def split: sum.splits if_splits)
  with keepsD [OF assms(2)] pre cycle_pins_after(2) show "cycle_pins cfg w w'" by blast
qed

lemma unlock_pins: "keeps (cycle_pins cfg) (unlock_sim cfg (on_urc cfg n))"
proof -
  have reported: "cycle_pins cfg w (snd (report_sim st name u))"
    if "env_pin_tries w \<le> env_pin_tries u" "env_pin_tries u \<le> env_pin_tries w + may_try cfg w"
      "pin_submissions u = pin_submissions w" "cpin_writes u + env_pin_tries w \<le> cpin_writes w + env_pin_tries u" for w u st name
    using that by (cases "st = SimReady") (auto simp: cycle_pins_def report_sim_result)
  show ?thesis unfolding unlock_sim_def
  proof (rule keeps_prefix [OF pins.keeps_cpin_state [OF pins.keeps_on_urc]], rule keepsI)
    fix st w r w'
    let ?rep = "\<lambda>st'. report_sim st' (sim_name st')"
    assume run: "andThen (look (\<lambda>w.
         if st = SimPinRequired \<and> sim_pin cfg \<noteq> [] \<and> int (env_pin_tries w) < sim_pin_max_tries cfg then
           andThen (change (\<lambda>w. w\<lparr>env_pin_tries := env_pin_tries w + 1\<rparr>)) (\<lambda>_. try_pin (sim_pin cfg) (on_urc cfg n))
         else ret st)) ?rep w = (r, w')"
    show "cycle_pins cfg w w'"
    proof (cases "st = SimPinRequired \<and> sim_pin cfg \<noteq> [] \<and> int (env_pin_tries w) < sim_pin_max_tries cfg")
      case False
      with run have "w' = snd (?rep st w)" by (auto simp: andThen_def)
      with reported [of w w] show ?thesis by simp
    next
      case True
      let ?w1 = "w\<lparr>env_pin_tries := env_pin_tries w + 1\<rparr>"
      obtain x u where t: "try_pin (sim_pin cfg) (on_urc cfg n) ?w1 = (x, u)" by fastforce
      have u: "pin_submissions u = pin_submissions w" "cpin_writes u \<le> cpin_writes w + 1" "env_pin_tries u = env_pin_tries w + 1"
        using try_pin_once [OF t] by (simp_all add: cpin_writes_def)
      have one: "may_try cfg w = 1" using True by (simp add: may_try_def)
      from run True t have "w' = u \<or> (\<exists>st'. w' = snd (?rep st' u))"
        by (cases x) (auto simp: andThen_def, metis snd_conv)
      then show ?thesis
      proof
        assume "w' = u"
        with u one show ?thesis by (simp add: cycle_pins_def)
      qed (use u one reported [of w u] in auto)
    qed
  qed
qed

lemma connect_pins: "keeps (cycle_pins cfg) (w_connect cfg dev (on_urc cfg n))"
proof -
  have quiet: "keeps (cycle_pins cfg) m" if "keeps same_pin m" for m :: "'a wact"
    using that cycle_pins_after(3) by (simp add: keeps_def)
  have opened: "keeps same_pin (change (\<lambda>w. w\<lparr>p_buf := []\<rparr>))"
    by (rule keeps_change) (simp add: same_pin_def cpin_writes_def)
  have last: "keeps (cycle_pins cfg) (andThen (unlock_sim cfg (on_urc cfg n)) (\<lambda>ok.
      if \<not> ok then ret True else andThen (after_sim_ready cfg (on_urc cfg n)) (\<lambda>_. ret True)))"
    by (rule keeps_suffix [OF unlock_pins], rule keeps_rest_pins)
      (intro keeps_intros pin_budget_order stays_ready_order keeps_pin_budget pins.keeps_after_sim_ready pins.keeps_on_urc
        ready.keeps_after_sim_ready ready.keeps_on_urc)+
  show ?thesis
  proof (cases dev)
    case None
    show ?thesis unfolding w_connect_def None option.case
      by (intro quiet keeps_intros same_pin_order health_pins)
  next
    case (Some d)
    have cme: "keeps same_pin (attempt (execute (on_urc cfg n) (str_of ''AT+CMEE=1'') 5000 None False) at_failure
        (\<lambda>_. ret ()) (\<lambda>_. ret ()))"
      by (intro keeps_intros same_pin_order pins.keeps_control pins.keeps_on_urc) simp
    show ?thesis unfolding w_connect_def Some option.case
      by (intro keeps_prefix health_pins opened cme pins.keeps_control pins.keeps_identify pins.keeps_on_urc last
          keeps_change) (simp_all add: same_pin_def cpin_writes_def)
  qed
qed

lemma one_cycle_pins: "keeps (cycle_pins cfg) (one_cycle cfg c (on_urc cfg n))"
proof (cases "cy_port c")
  case (Inl e)
  have "keeps same_pin (one_cycle cfg c (on_urc cfg n))" unfolding one_cycle_def Inl sum.case
    by (intro keeps_intros same_pin_order health_pins)
  then show ?thesis using cycle_pins_after(3) by (simp add: keeps_def)
next
  case (Inr dev)
  show ?thesis unfolding one_cycle_def run_cycle_def Inr sum.case
    by (intro keeps_caught keeps_suffix connect_pins; rule keeps_rest_pins)
      (intro keeps_intros pin_budget_order stays_ready_order pin_serve.keeps_serve ready_serve.keeps_serve
        keeps_pin_budget health_pins ready_health; simp)+
qed

lemma cycle_pins_end: "cycle_pins cfg w (snd (on_worker cfg (one_cycle cfg c) w))"
  using one_cycle_pins [of cfg c "avail w"] by (simp add: keeps_def on_worker_def)

lemma meanwhile_pins [simp]:
  "pin_submissions (meanwhile c wait w) = pin_submissions w" "env_pin_tries (meanwhile c wait w) = env_pin_tries w"
  "cpin_writes (meanwhile c wait w) = cpin_writes w" "w_health (meanwhile c wait w) = w_health w"
  by (simp_all add: meanwhile_def cpin_writes_def)

text \<open>Whatever each cycle adds to a count and waiting leaves alone, adds up over the run.\<close>

lemma run_adds_up:
  assumes cycle: "\<And>c w. P w \<Longrightarrow> P (snd (on_worker cfg (one_cycle cfg c) w)) \<and>
      tally (snd (on_worker cfg (one_cycle cfg c) w)) \<le> tally w + (cost (snd (on_worker cfg (one_cycle cfg c) w)) :: int)"
    and wait: "\<And>c t w. P w \<Longrightarrow> P (meanwhile c t w)" "\<And>c t w. tally (meanwhile c t w) = tally w"
    and "P w"
  shows "tally (last (w # worker_run cfg cs backoff w)) \<le> tally w + sum_list (map cost (worker_run cfg cs backoff w))
    \<and> P (last (w # worker_run cfg cs backoff w))"
  using \<open>P w\<close>
proof (induction cs arbitrary: w backoff)
  case (Cons c cs)
  show ?case
  proof (cases "stopping w")
    case False
    let ?wait = "if connected cfg c w then 2000 else backoff" and ?w1 = "snd (on_worker cfg (one_cycle cfg c) w)"
    let ?rest = "worker_run cfg cs (min (2 * ?wait) 60000) (meanwhile c ?wait ?w1)"
    note c = cycle [OF Cons.prems, of c]
    show ?thesis
    proof (cases "stopping ?w1 \<or> ?rest = []")
      case True
      with False have "worker_run cfg (c # cs) backoff w = [?w1]" by (auto simp: Let_def)
      with c show ?thesis by simp
    next
      case more: False
      with False have run: "worker_run cfg (c # cs) backoff w = ?w1 # ?rest" by (simp add: Let_def)
      from Cons.IH [OF wait(1)] c have "tally (last (meanwhile c ?wait ?w1 # ?rest)) \<le> tally (meanwhile c ?wait ?w1) + sum_list (map cost ?rest)
          \<and> P (last (meanwhile c ?wait ?w1 # ?rest))" by blast
      with more c show ?thesis unfolding run wait(2) by simp
    qed
  qed (use Cons.prems in simp)
qed simp

text \<open>C24. The SIM cannot be locked through the API: in any run of the worker, over any number of
  connections, with any PIN jobs queued at any time and whatever the modem answers, the commands that
  submit a PIN are at most as many as the counted submissions, and one for each connection when a PIN is
  configured; and the counter, which nothing resets, does not pass \<open>SIM_PIN_MAX_TRIES + 2\<close>.\<close>

theorem runtime_pin_capped:
  "let cycles = worker_run cfg cs backoff w; w' = last (w # cycles) in
     pin_submissions w \<le> pin_submissions w'
     \<and> cpin_writes w' + pin_submissions w
         \<le> cpin_writes w + pin_submissions w' + (if sim_pin cfg = [] then 0 else length cycles)
     \<and> int (pin_submissions w') \<le> max (int (pin_submissions w)) (sim_pin_max_tries cfg + 2)"
proof -
  let ?k = "if sim_pin cfg = [] then 0 else 1 :: int" and ?cycles = "worker_run cfg cs backoff w"
  define m where "m = max (int (pin_submissions w)) (pin_cap cfg)"
  let ?P = "\<lambda>v :: worker. pin_submissions w \<le> pin_submissions v \<and> int (pin_submissions v) \<le> m"
  have "int (cpin_writes (last (w # ?cycles))) - int (pin_submissions (last (w # ?cycles)))
        \<le> int (cpin_writes w) - int (pin_submissions w) + sum_list (map (\<lambda>_. ?k) ?cycles)
      \<and> ?P (last (w # ?cycles))"
  proof (rule run_adds_up [where P = ?P and tally = "\<lambda>v :: worker. int (cpin_writes v) - int (pin_submissions v)" and cost = "\<lambda>_. ?k"])
    fix c and v :: worker
    assume "?P v"
    moreover have "int (may_try cfg v) \<le> ?k" by (simp add: may_try_def)
    ultimately show "?P (snd (on_worker cfg (one_cycle cfg c) v))
      \<and> int (cpin_writes (snd (on_worker cfg (one_cycle cfg c) v))) - int (pin_submissions (snd (on_worker cfg (one_cycle cfg c) v)))
          \<le> int (cpin_writes v) - int (pin_submissions v) + ?k"
      using cycle_pins_end [of cfg v c] unfolding cycle_pins_def m_def by linarith
  qed (simp_all add: m_def)
  moreover have "sum_list (map (\<lambda>_. ?k) vs) = int (if sim_pin cfg = [] then 0 else length vs)" for vs :: "worker list"
    by (induction vs) auto
  from this [of ?cycles] calculation show ?thesis unfolding Let_def m_def pin_cap_def by linarith
qed

text \<open>C25. A wrong configured PIN is not tried again and again, however often the modem is connected:
  over any run of the worker the commands that submit a PIN, less the submissions counted for the API,
  are at most \<open>SIM_PIN_MAX_TRIES\<close> (or the count the run began with), and as many again for each cycle that
  ended with the SIM ready; the counter of the configured PIN never passes that bound.  In a run in which
  no cycle ends so, they are at most as many as that counter has grown.\<close>

theorem env_pin_capped:
  "let cycles = worker_run cfg cs backoff w; w' = last (w # cycles);
       bound = max (int (env_pin_tries w)) (sim_pin_max_tries cfg);
       ready = length (filter (\<lambda>v. hs_sim (w_health v) = SimReady) cycles) in
     int (env_pin_tries w') \<le> bound
     \<and> int (cpin_writes w' + pin_submissions w) + int (env_pin_tries w)
         \<le> int (cpin_writes w + pin_submissions w') + int (env_pin_tries w') + int ready * bound"
proof -
  define m where "m = max (int (env_pin_tries w)) (sim_pin_max_tries cfg)"
  let ?P = "\<lambda>v :: worker. int (env_pin_tries v) \<le> m" and ?cycles = "worker_run cfg cs backoff w"
  let ?count = "\<lambda>v :: worker. int (cpin_writes v) - int (pin_submissions v) - int (env_pin_tries v)"
  let ?cost = "\<lambda>v. if hs_sim (w_health v) = SimReady then m else 0"
  have m: "0 \<le> m" "sim_pin_max_tries cfg \<le> m" by (auto simp: m_def)
  have sum: "?count (last (w # ?cycles)) \<le> ?count w + sum_list (map ?cost ?cycles) \<and> ?P (last (w # ?cycles))"
  proof (rule run_adds_up [where P = ?P and tally = ?count and cost = ?cost])
    fix c and v :: worker
    assume "?P v"
    moreover from this m have "int (env_pin_tries v) + int (may_try cfg v) \<le> m" by (auto simp: may_try_def)
    ultimately show "?P (snd (on_worker cfg (one_cycle cfg c) v))
      \<and> ?count (snd (on_worker cfg (one_cycle cfg c) v)) \<le> ?count v + ?cost (snd (on_worker cfg (one_cycle cfg c) v))"
      using cycle_pins_end [of cfg v c] m by (auto simp: cycle_pins_def)
  qed (simp_all add: m_def)
  have total: "sum_list (map ?cost vs) = int (length (filter (\<lambda>v. hs_sim (w_health v) = SimReady) vs)) * m"
    for vs :: "worker list" by (induction vs) (simp_all add: algebra_simps)
  from sum total [of ?cycles] show ?thesis unfolding Let_def m_def [symmetric] by simp
qed

end
