(* ===== verification/Worker_Send.thy ===== *)
theory Worker_Send
  imports Worker_Props
begin

text \<open>
  Sending: what a send job does to its record and what it writes to the modem.  The outcome is
  stated against \<open>send_all\<close>, which sends to one number after the other and stops at the first
  failure; the bytes are stated against \<open>planned\<close>, the commands and payloads the record asks
  for, in order.
\<close>

section \<open>The record\<close>

lemma ob_update_record:
  "get_record j (w_outbox (snd (ob_update cfg i chg w))) =
     (if j = i then map_option (\<lambda>r. (chg r)\<lparr>updated_at := Some (utc_now cfg (p_clock w))\<rparr>) (get_record i (w_outbox w))
      else get_record j (w_outbox w))"
  by (auto simp: ob_update_def update_def get_record_def map_of_update case_prod_beta Let_def split: option.split)

lemma ob_update_fields [simp]:
  "fst (ob_update cfg i chg w) = Inr ()" "p_written (snd (ob_update cfg i chg w)) = p_written w"
  "pdu_mode (snd (ob_update cfg i chg w)) = pdu_mode w" "random_bytes (snd (ob_update cfg i chg w)) = random_bytes w"
  "w_health (snd (ob_update cfg i chg w)) = w_health w" "p_clock (snd (ob_update cfg i chg w)) = p_clock w"
  "runtime_pin (snd (ob_update cfg i chg w)) = runtime_pin w"
  by (simp_all add: ob_update_def case_prod_beta)

lemma mark_outbound_fields [simp]:
  "fst (mark_outbound cfg w) = Inr ()" "p_written (snd (mark_outbound cfg w)) = p_written w"
  "w_outbox (snd (mark_outbound cfg w)) = w_outbox w" "pdu_mode (snd (mark_outbound cfg w)) = pdu_mode w"
  by (simp_all add: mark_outbound_def set_health_def Let_def)

lemma andThen_ob_update: "andThen (ob_update cfg i chg) f w = f () (snd (ob_update cfg i chg w))"
  by (cases "ob_update cfg i chg w") (use ob_update_fields(1) [of cfg i chg w] in \<open>simp add: andThen_def\<close>)

definition same_box :: "worker \<Rightarrow> worker \<Rightarrow> bool" where
  "same_box w w' \<longleftrightarrow> w_outbox w' = w_outbox w \<and> pdu_mode w' = pdu_mode w"

lemma same_box_order: "preorder same_box"
  by (auto simp: preorder_def same_box_def)

interpretation box: worker_frame same_box "\<lambda>_. True"
proof unfold_locales
  show "same_box p (snd (read_chunk p))" for p
    using worker_eqI [OF read_chunk_more [of p]] by (simp add: same_box_def)
qed (auto simp: same_box_order, auto simp: same_box_def keeps_def hub_publish_def set_health_def port_write_def Let_def split: prod.split)

lemma send_one_box: "keeps same_box (send_one cfg number body (on_urc cfg n))"
  unfolding send_one_def case_prod_beta
  by (intro keeps_intros same_box_order box.execute_kept box.keeps_on_urc keeps_change) (simp_all add: same_box_def)

section \<open>The outcome\<close>

text \<open>Sending to the numbers in order, up to the first failure.\<close>

fun send_all :: "wcfg \<Rightarrow> pystr \<Rightarrow> pystr list \<Rightarrow> int option list \<Rightarrow> wcb \<Rightarrow> worker \<Rightarrow>
    int option list \<times> (pystr \<times> exn) option \<times> worker" where
  "send_all cfg body [] refs cb w = (refs, None, w)"
| "send_all cfg body (number # rest) refs cb w =
     (case send_one cfg number body cb w of
        (Inl e, w') \<Rightarrow> (refs, Some (number, e), w')
      | (Inr new, w') \<Rightarrow> send_all cfg body rest (refs @ new) cb w')"

text \<open>The state and error a record ends with.\<close>

definition send_verdict :: "wcfg \<Rightarrow> bool \<Rightarrow> (pystr \<times> exn) option \<Rightarrow> worker \<Rightarrow> (out_state \<times> pystr option) option" where
  "send_verdict cfg sent err w =
     (case err of
        None \<Rightarrow> Some (if sent then Submitted else Failed, None)
      | Some (number, e) \<Rightarrow>
          if is_at_timeout e then Some (SubmissionUnknown, Some (str_of ''timeout while sending to '' @ number))
          else if error_or_value e then Some (Failed, Some (number @ str_of '': '' @ redact cfg e w))
          else None)"

lemma error_not_timeout: "error_or_value e \<Longrightarrow> \<not> is_at_timeout e" "is_at_timeout e \<Longrightarrow> e \<noteq> OutOfFuel"
  "error_or_value e \<Longrightarrow> e \<noteq> OutOfFuel"
  by (cases e; simp add: error_or_value_def)+

lemma attempt_caught: "m s = (Inl e, s') \<Longrightarrow> P e \<Longrightarrow> e \<noteq> OutOfFuel \<Longrightarrow> attempt m P h f s = h e s'"
  by (simp add: attempt_def)

lemma send_loop_outcome:
  assumes "get_record i (w_outbox w) = Some r" "send_all cfg body numbers refs (on_urc cfg n) w = (refs', err, w2)"
  shows "case send_verdict cfg (sent \<or> numbers \<noteq> []) err w2 of
      Some (st, msg) \<Rightarrow> (\<exists>w'. send_loop cfg i body numbers refs sent (on_urc cfg n) w = (Inr (), w')
        \<and> p_written w' = p_written w2
        \<and> get_record i (w_outbox w') = Some (r\<lparr>out_state := st, out_refs := refs',
             out_error := (if msg = None then out_error r else msg), updated_at := Some (utc_now cfg (p_clock w2))\<rparr>))
    | None \<Rightarrow> (\<exists>number e. err = Some (number, e) \<and> send_loop cfg i body numbers refs sent (on_urc cfg n) w = (Inl e, w2))
        \<and> w_outbox w2 = w_outbox w"
  using assms
proof (induction numbers arbitrary: w refs sent)
  case Nil
  let ?w1 = "snd (ob_update cfg i (\<lambda>r. r\<lparr>out_state := if sent then Submitted else Failed, out_refs := refs\<rparr>) w)"
  have "send_loop cfg i body [] refs sent (on_urc cfg n) w = (Inr (), snd (mark_outbound cfg ?w1))"
    using mark_outbound_fields(1) [of cfg ?w1] by (simp add: andThen_ob_update prod_eq_iff)
  with Nil show ?case by (auto simp: send_verdict_def ob_update_record)
next
  case (Cons number rest)
  obtain r1 w1 where s: "send_one cfg number body (on_urc cfg n) w = (r1, w1)" by fastforce
  have box: "w_outbox w1 = w_outbox w" using keepsD [OF send_one_box s] by (simp add: same_box_def)
  show ?case
  proof (cases r1)
    case (Inr new)
    have eq: "send_loop cfg i body (number # rest) refs sent (on_urc cfg n) w
        = send_loop cfg i body rest (refs @ new) True (on_urc cfg n) w1"
      using s Inr by (simp add: attempt_def)
    moreover have "send_all cfg body rest (refs @ new) (on_urc cfg n) w1 = (refs', err, w2)"
      using Cons.prems(2) s Inr by simp
    moreover have "get_record i (w_outbox w1) = Some r" using Cons.prems(1) box by simp
    moreover have t: "(sent \<or> number # rest \<noteq> []) = True" "(True \<or> rest \<noteq> []) = True" by simp_all
    ultimately show ?thesis using Cons.IH [of w1 "refs @ new" True] unfolding eq t box by blast
  next
    case (Inl e)
    then have all: "refs' = refs" "err = Some (number, e)" "w2 = w1" using Cons.prems(2) s by simp_all
    consider (tmo) "is_at_timeout e" | (err) "error_or_value e" "\<not> is_at_timeout e"
      | (other) "\<not> is_at_timeout e" "\<not> error_or_value e" by blast
    then show ?thesis
    proof cases
      case tmo
      let ?u = "snd (ob_update cfg i (\<lambda>r. r\<lparr>out_state := SubmissionUnknown, out_refs := refs,
            out_error := Some (str_of ''timeout while sending to '' @ number)\<rparr>) w1)"
      have "send_loop cfg i body (number # rest) refs sent (on_urc cfg n) w = (Inr (), snd (mark_outbound cfg ?u))"
        using tmo error_not_timeout(2) [OF tmo] mark_outbound_fields(1) [of cfg ?u]
        by (simp add: attempt_caught [where m = "send_one cfg number body (on_urc cfg n)", OF s [unfolded Inl]] send_failed_def andThen_ob_update)
          (simp add: prod_eq_iff)
      with all tmo box Cons.prems(1) show ?thesis by (simp add: send_verdict_def ob_update_record)
    next
      case err
      let ?chg = "\<lambda>r. r\<lparr>out_state := Failed, out_refs := refs, out_error := Some (number @ str_of '': '' @ redact cfg e w1)\<rparr>"
      have "send_loop cfg i body (number # rest) refs sent (on_urc cfg n) w = (Inr (), snd (ob_update cfg i ?chg w1))"
        using err error_not_timeout(3) [OF err(1)]
        by (simp add: attempt_caught [where m = "send_one cfg number body (on_urc cfg n)", OF s [unfolded Inl]] send_failed_def) (simp add: prod_eq_iff)
      with all err box Cons.prems(1) show ?thesis by (simp add: send_verdict_def ob_update_record)
    next
      case other
      with s Inl have "send_loop cfg i body (number # rest) refs sent (on_urc cfg n) w = (Inl e, w1)"
        by (simp add: attempt_def)
      with all other box show ?thesis by (simp add: send_verdict_def)
    qed
  qed
qed

lemma do_send_idle:
  "get_record i (w_outbox w) = None \<Longrightarrow> do_send cfg i cb w = (Inr (), w)"
  "get_record i (w_outbox w) = Some r \<Longrightarrow> out_state r \<noteq> Queued \<Longrightarrow> do_send cfg i cb w = (Inr (), w)"
  by (simp_all add: do_send_def)

definition sending :: "wcfg \<Rightarrow> int \<Rightarrow> worker \<Rightarrow> worker" where
  "sending cfg i w = snd (ob_update cfg i (\<lambda>r. r\<lparr>out_state := Sending\<rparr>) w)"

lemma do_send_start:
  assumes "get_record i (w_outbox w) = Some r" "out_state r = Queued" "hs_sim (w_health w) = SimReady"
  shows "do_send cfg i cb w = send_loop cfg i (out_text r) (out_to r) [] False cb (sending cfg i w)"
  using assms by (simp add: do_send_def sending_def andThen_ob_update)

text \<open>C26. What a send job does to a queued record when the SIM is ready: it sends to the
  recipients in order up to the first failure; the record ends as submitted when all were sent
  to, as of unknown submission after a timeout, as failed after an error of the modem or a bad
  number or text, each time with the references so far; and only a broken serial line leaves it
  as being sent, with the exception passed on.\<close>

theorem send_outcome:
  assumes "get_record i (w_outbox w) = Some r" "out_state r = Queued" "hs_sim (w_health w) = SimReady"
    and "send_all cfg (out_text r) (out_to r) [] (on_urc cfg n) (sending cfg i w) = (refs, err, w2)"
  shows "case send_verdict cfg (out_to r \<noteq> []) err w2 of
      Some (st, msg) \<Rightarrow> (\<exists>w'. do_send cfg i (on_urc cfg n) w = (Inr (), w') \<and> p_written w' = p_written w2
        \<and> terminal st
        \<and> get_record i (w_outbox w') = Some (r\<lparr>out_state := st, out_refs := refs,
             out_error := (if msg = None then out_error r else msg), updated_at := Some (utc_now cfg (p_clock w2))\<rparr>))
    | None \<Rightarrow> (\<exists>number e w'. err = Some (number, e) \<and> do_send cfg i (on_urc cfg n) w = (Inl e, w')
        \<and> get_record i (w_outbox w') = Some (r\<lparr>out_state := Sending, updated_at := Some (utc_now cfg (p_clock w))\<rparr>))"
proof -
  let ?r = "r\<lparr>out_state := Sending, updated_at := Some (utc_now cfg (p_clock w))\<rparr>"
  have r: "get_record i (w_outbox (sending cfg i w)) = Some ?r"
    using assms(1) by (simp add: sending_def ob_update_record)
  have t: "terminal st" if "send_verdict cfg (out_to r \<noteq> []) err w2 = Some (st, msg)" for st msg
    using that by (auto simp: send_verdict_def terminal_def split: option.splits if_splits prod.splits)
  from send_loop_outcome [OF r assms(4), of False] do_send_start [OF assms(1-3), of cfg "on_urc cfg n"] t r
  show ?thesis
    by (cases "send_verdict cfg (out_to r \<noteq> []) err w2") auto
qed

text \<open>A record is attempted at most once: after a send job, however it ended, a further
  send job for the same record does nothing at all.\<close>

theorem sent_at_most_once:
  "do_send cfg i cb (snd (do_send cfg i (on_urc cfg n) w)) = (Inr (), snd (do_send cfg i (on_urc cfg n) w))"
proof (cases "get_record i (w_outbox w)")
  case None
  then show ?thesis by (simp add: do_send_idle)
next
  case (Some r)
  consider "out_state r \<noteq> Queued" | "out_state r = Queued" "hs_sim (w_health w) \<noteq> SimReady"
    | (ready) "out_state r = Queued" "hs_sim (w_health w) = SimReady" by blast
  then show ?thesis
  proof cases
    case 1
    with Some show ?thesis by (simp add: do_send_idle)
  next
    case 2
    let ?chg = "\<lambda>r. r\<lparr>out_state := Failed, out_error := Some (str_of ''modem not ready'')\<rparr>"
    have "do_send cfg i (on_urc cfg n) w = ob_update cfg i ?chg w" using Some 2 by (simp add: do_send_def)
    moreover have "get_record i (w_outbox (snd (ob_update cfg i ?chg w)))
        = Some ((?chg r)\<lparr>updated_at := Some (utc_now cfg (p_clock w))\<rparr>)"
      using Some by (simp add: ob_update_record)
    ultimately show ?thesis by (simp add: do_send_idle(2))
  next
    case ready
    obtain refs err w2 where all: "send_all cfg (out_text r) (out_to r) [] (on_urc cfg n) (sending cfg i w) = (refs, err, w2)"
      using prod_cases3 by blast
    let ?r = "r\<lparr>out_state := Sending, updated_at := Some (utc_now cfg (p_clock w))\<rparr>"
    have r: "get_record i (w_outbox (sending cfg i w)) = Some ?r"
      using Some by (simp add: sending_def ob_update_record)
    note out = send_loop_outcome [OF r all, of False] do_send_start [OF Some ready, of cfg "on_urc cfg n"]
    have t: "st \<noteq> Queued" if "send_verdict cfg s err w2 = Some (st, msg)" for st msg s
      using that by (auto simp: send_verdict_def split: option.splits if_splits prod.splits)
    show ?thesis
    proof (cases "send_verdict cfg (False \<or> out_to r \<noteq> []) err w2")
      case None
      with out r show ?thesis by (auto simp: do_send_idle(2))
    next
      case (Some v)
      with out t show ?thesis by (cases v) (auto simp: do_send_idle(2))
    qed
  qed
qed

section \<open>What is written\<close>

context port_frame
begin

text \<open>A command with a payload: the command is written, and the payload after the prompt; around
  these the relation is kept.\<close>

lemma execute_payload:
  assumes cb: "\<And>line. keeps R (cb line)"
    and run: "execute cb cmd timeout (Some data) extra p = (r, q)"
  shows "(\<exists>e. r = Inl e) \<and> (q = p \<or> R (port_write (cmd @ [13]) p) q)
    \<or> (\<exists>p2. R (port_write (cmd @ [13]) p) p2 \<and> R (port_write (data @ [26]) p2) q)"
proof (cases "list_all (\<lambda>c. c < 128) cmd \<and> \<not> write_fails p")
  case False
  with run R_refl show ?thesis by (auto simp: execute_def Let_def split: if_splits)
next
  case True
  let ?p1 = "port_write (cmd @ [13]) p" and ?d = "p_clock (port_write (cmd @ [13]) p) + int timeout"
  obtain w p2 where w: "wait_prompt cmd ?d ?p1 = (w, p2)" by fastforce
  with wait_prompt_kept [of ?p1 cmd ?d] have p2: "R ?p1 p2" by simp
  show ?thesis
  proof (cases w)
    case (Inl e)
    with run True w p2 show ?thesis by (auto simp: execute_def Let_def simp del: response.simps)
  next
    case (Inr u)
    obtain k where k: "(case snd (py_partition 62 (p_buf p2)) of Some r \<Rightarrow> r | None \<Rightarrow> []) = drop k (p_buf p2)"
      using partition_drop by blast
    let ?p3 = "p2\<lparr>p_buf := drop k (p_buf p2)\<rparr>"
    have p3: "R ?p1 ?p3" using R_trans [OF p2 eats] .
    have "q = port_write (data @ [26]) ?p3 \<or> (\<exists>n d. response cb n cmd d extra [] (port_write (data @ [26]) ?p3) = (r, q))"
      using run True w Inr k by (auto simp: execute_def Let_def simp del: response.simps split: if_splits)
    moreover have "R q0 (snd (response cb n cmd d extra [] q0))" for n d q0
      by (rule response_kept [OF cb])
    ultimately have "R (port_write (data @ [26]) ?p3) q" by (metis snd_conv R_refl)
    with p3 show ?thesis by blast
  qed
qed

end

definition is_submission :: "pybytes \<Rightarrow> bool" where
  "is_submission bs \<longleftrightarrow> bs \<noteq> [] \<and> (last bs = 26 \<or> py_startswith bs (str_of ''AT+CMGS=''))"

definition submissions :: "worker \<Rightarrow> pybytes list" where
  "submissions w = filter is_submission (p_written w)"

definition same_subs :: "worker \<Rightarrow> worker \<Rightarrow> bool" where
  "same_subs w w' \<longleftrightarrow> submissions w' = submissions w \<and> pdu_mode w' = pdu_mode w \<and> random_bytes w' = random_bytes w"

lemma same_subs_order: "preorder same_subs"
  by (auto simp: preorder_def same_subs_def)

lemma reading_no_submission: "reading_cmd c \<Longrightarrow> \<not> is_submission (c @ [13])"
proof -
  assume "reading_cmd c"
  moreover have "\<not> is_submission (str_of ''AT+CPMS?'' @ [13])" by code_simp
  moreover have "\<not> is_submission (c @ [13])" if "p \<in> set [str_of ''AT+CMGD='', str_of ''AT+CMGR='', str_of ''AT+CMGL='', str_of ''AT+CPMS='']"
    "py_startswith c p" for p
  proof
    assume "is_submission (c @ [13])"
    then have "py_startswith (c @ [13]) (str_of ''AT+CMGS='')" by (simp add: is_submission_def)
    from py_startswith_unique [OF that(2) this] that(1) show False by (auto simp: str_of_def)
  qed
  ultimately show ?thesis unfolding reading_cmd_def list_ex_iff by auto
qed

interpretation subs: worker_frame same_subs "\<lambda>bs. \<not> is_submission bs"
proof unfold_locales
  show "same_subs p (snd (read_chunk p))" for p
    using worker_eqI [OF read_chunk_more [of p]] by (simp add: same_subs_def submissions_def)
qed (auto simp: same_subs_order reading_no_submission, auto simp: same_subs_def submissions_def keeps_def
  hub_publish_def set_health_def port_write_def Let_def split: prod.split)

text \<open>The commands and payloads that sending asks for.\<close>

definition pdu_writes :: "pystr \<times> nat \<Rightarrow> pybytes list" where
  "pdu_writes pn = [cmgs_pdu_command (snd pn) @ [13], fst pn @ [26]]"

definition planned_one :: "bool \<Rightarrow> nat list \<Rightarrow> pystr \<Rightarrow> pystr \<Rightarrow> pybytes list" where
  "planned_one pdu rbs number body =
     (if \<not> e164 number then []
      else if pdu then
        (case build_submit_pdus (case rbs of [] \<Rightarrow> 0 | b # _ \<Rightarrow> b mod 256) number body of
           Inl _ \<Rightarrow> [] | Inr pdus \<Rightarrow> concat (map pdu_writes pdus))
      else if \<not> is_gsm7 body then []
      else [cmgs_text_command number @ [13], text_body body @ [26]])"

fun planned :: "bool \<Rightarrow> nat list \<Rightarrow> pystr list \<Rightarrow> pystr \<Rightarrow> pybytes list" where
  "planned pdu rbs [] body = []"
| "planned pdu rbs (number # rest) body =
     planned_one pdu rbs number body @ planned pdu (if pdu then tl rbs else rbs) rest body"

text \<open>An operation that writes a part of its plan, all of it when it returns.\<close>

definition follows :: "pybytes list \<Rightarrow> worker \<Rightarrow> (exn + 'a) \<times> worker \<Rightarrow> bool" where
  "follows plan w rq \<longleftrightarrow> (\<exists>ys zs. plan = ys @ zs \<and> submissions (snd rq) = submissions w @ ys
     \<and> pdu_mode (snd rq) = pdu_mode w \<and> (\<forall>x. fst rq = Inr x \<longrightarrow> zs = []))"

lemma follows_andThen:
  assumes "follows a w (m w)" "\<And>x w'. m w = (Inr x, w') \<Longrightarrow> follows b w' (f x w')"
  shows "follows (a @ b) w (andThen m f w)"
proof (cases "m w")
  case (Pair r w')
  show ?thesis
  proof (cases r)
    case (Inl e)
    with Pair assms(1) show ?thesis by (auto simp: follows_def andThen_def)
  next
    case (Inr x)
    with Pair assms(1) have "submissions w' = submissions w @ a" "pdu_mode w' = pdu_mode w"
      by (auto simp: follows_def)
    with assms(2) [OF Pair [unfolded Inr]] Pair Inr show ?thesis
      by (auto simp: follows_def andThen_def)
  qed
qed

lemma follows_then_ret: "follows a w (m w) \<Longrightarrow> follows a w (andThen m (\<lambda>x. ret (g x)) w)"
  by (cases "m w"; cases "fst (m w)") (auto simp: follows_def andThen_def)

lemma follows_ret: "follows [] w (ret x w)"
  by (simp add: follows_def)

lemma execute_follows:
  assumes "is_submission (cmd @ [13])"
  shows "follows [cmd @ [13], d @ [26]] w (execute (on_urc cfg n) cmd t (Some d) False w)"
    and "random_bytes (snd (execute (on_urc cfg n) cmd t (Some d) False w)) = random_bytes w"
proof -
  obtain r q where run: "execute (on_urc cfg n) cmd t (Some d) False w = (r, q)" by fastforce
  have w1: "submissions (port_write (cmd @ [13]) p) = submissions p @ [cmd @ [13]]"
    "submissions (port_write (d @ [26]) p) = submissions p @ [d @ [26]]" for p :: worker
    using assms by (simp_all add: submissions_def port_write_def) (simp add: is_submission_def)
  have w2: "pdu_mode (port_write bs p) = pdu_mode p" "random_bytes (port_write bs p) = random_bytes p" for bs and p :: worker
    by (simp_all add: port_write_def)
  from subs.execute_payload [OF subs.keeps_on_urc run]
  consider (none) e where "r = Inl e" "q = w" | (some) e where "r = Inl e" "same_subs (port_write (cmd @ [13]) w) q"
    | (all) p2 where "same_subs (port_write (cmd @ [13]) w) p2" "same_subs (port_write (d @ [26]) p2) q" by blast
  then have "follows [cmd @ [13], d @ [26]] w (r, q) \<and> random_bytes q = random_bytes w"
  proof cases
    case none
    then show ?thesis by (simp add: follows_def)
  next
    case some
    then show ?thesis by (auto simp: follows_def same_subs_def w1 w2)
  next
    case all
    then show ?thesis by (auto simp: follows_def same_subs_def w1 w2)
  qed
  with run show "follows [cmd @ [13], d @ [26]] w (execute (on_urc cfg n) cmd t (Some d) False w)"
    "random_bytes (snd (execute (on_urc cfg n) cmd t (Some d) False w)) = random_bytes w" by simp_all
qed

lemma cmgs_submission: "is_submission (cmgs_pdu_command n @ [13])" "is_submission (cmgs_text_command number @ [13])"
  by (simp_all add: is_submission_def cmgs_pdu_command_def cmgs_text_command_def py_startswith_def str_of_def)

definition send_pdus :: "wcb \<Rightarrow> (pystr \<times> nat) list \<Rightarrow> int option list wact" where
  "send_pdus cb pdus = gather (\<lambda>(pdu, n). andThen (execute cb (cmgs_pdu_command n) 10000 (Some pdu) False) (\<lambda>lines.
     ret [cmgs_ref lines])) pdus"

lemma execute_then_ret_follows:
  "is_submission (cmd @ [13]) \<Longrightarrow>
   follows [cmd @ [13], d @ [26]] w (andThen (execute (on_urc cfg n) cmd t (Some d) False) (\<lambda>lines. ret (g lines)) w)"
  by (rule follows_then_ret) (rule execute_follows(1))

lemma send_pdus_follows: "follows (concat (map pdu_writes pdus)) w (send_pdus (on_urc cfg n) pdus w)"
proof (induction pdus arbitrary: w)
  case Nil
  show ?case unfolding send_pdus_def gather.simps using follows_ret [of w "[]"] by simp
next
  case (Cons pn pdus)
  have one: "follows (pdu_writes pn) w (andThen (execute (on_urc cfg n) (cmgs_pdu_command (snd pn)) 10000 (Some (fst pn)) False)
      (\<lambda>lines. ret [cmgs_ref lines]) w)"
    unfolding pdu_writes_def by (rule execute_then_ret_follows [OF cmgs_submission(1)])
  have rest: "follows (concat (map pdu_writes pdus)) w' (andThen (send_pdus (on_urc cfg n) pdus) (\<lambda>zs. ret (ys @ zs)) w')" for w' ys
    by (rule follows_then_ret) (rule Cons)
  show ?case unfolding send_pdus_def gather.simps list.map concat.simps case_prod_beta
  proof (rule follows_andThen)
    show "follows (pdu_writes pn) w (andThen (execute (on_urc cfg n) (cmgs_pdu_command (snd pn)) 10000 (Some (fst pn)) False)
      (\<lambda>lines. ret [cmgs_ref lines]) w)" by (rule one)
    show "follows (concat (map pdu_writes pdus)) w' (andThen (gather (\<lambda>pn. andThen
        (execute (on_urc cfg n) (cmgs_pdu_command (snd pn)) 10000 (Some (fst pn)) False) (\<lambda>lines. ret [cmgs_ref lines])) pdus)
        (\<lambda>zs. ret (ys @ zs)) w')" for w' ys
      using rest [of w' ys] unfolding send_pdus_def case_prod_beta .
  qed
qed

lemma send_pdus_kept: "keeps same_reading (send_pdus (on_urc cfg n) pdus)"
  unfolding send_pdus_def case_prod_beta
  by (intro keeps_intros same_reading_order receives.execute_kept receives.keeps_on_urc) simp_all

lemma send_one_pdu:
  assumes "e164 number" "pdu_mode w"
  shows "send_one cfg number body (on_urc cfg n) w =
     (case build_submit_pdus (next_random w) number body of
        Inl e \<Rightarrow> (Inl e, w\<lparr>random_bytes := tl (random_bytes w)\<rparr>)
      | Inr pdus \<Rightarrow> send_pdus (on_urc cfg n) pdus (w\<lparr>random_bytes := tl (random_bytes w)\<rparr>))"
  using assms by (auto simp: send_one_def send_pdus_def andThen_def split: sum.split)

lemma send_one_follows:
  "follows (planned_one (pdu_mode w) (random_bytes w) number body) w (send_one cfg number body (on_urc cfg n) w)
   \<and> (e164 number \<longrightarrow> random_bytes (snd (send_one cfg number body (on_urc cfg n) w))
        = (if pdu_mode w then tl (random_bytes w) else random_bytes w))"
proof (cases "e164 number")
  case False
  then show ?thesis by (simp add: planned_one_def send_one_def follows_def)
next
  case valid: True
  show ?thesis
  proof (cases "pdu_mode w")
    case True
    let ?w1 = "w\<lparr>random_bytes := tl (random_bytes w)\<rparr>"
    have w1: "submissions ?w1 = submissions w" "pdu_mode ?w1 = pdu_mode w" by (simp_all add: submissions_def)
    show ?thesis
    proof (cases "build_submit_pdus (next_random w) number body")
      case (Inl e)
      with valid True w1 show ?thesis
        by (simp add: send_one_pdu planned_one_def next_random_def follows_def)
    next
      case (Inr pdus)
      have "same_reading ?w1 (snd (send_pdus (on_urc cfg n) pdus ?w1))"
        using send_pdus_kept [of cfg n pdus] by (simp add: keeps_def)
      then have "random_bytes (snd (send_pdus (on_urc cfg n) pdus ?w1)) = tl (random_bytes w)"
        by (simp add: same_reading_def same_outbound_def)
      with send_pdus_follows [where pdus = pdus and w = ?w1 and cfg = cfg and n = n] valid True Inr w1 show ?thesis
        by (simp add: send_one_pdu planned_one_def next_random_def follows_def)
    qed
  next
    case False
    show ?thesis
    proof (cases "is_gsm7 body")
      case True
      have run: "send_one cfg number body (on_urc cfg n) w = andThen (execute (on_urc cfg n) (cmgs_text_command number) 10000
          (Some (text_body body)) False) (\<lambda>lines. ret [cmgs_ref lines]) w"
        using valid False True by (simp add: send_one_def)
      have "random_bytes (snd (send_one cfg number body (on_urc cfg n) w)) = random_bytes w"
        using execute_follows(2) [OF cmgs_submission(2) [of number], where d = "text_body body" and cfg = cfg and n = n and t = 10000 and w = w] unfolding run
        by (auto simp: andThen_def split: prod.splits sum.splits)
      with execute_then_ret_follows [OF cmgs_submission(2)] valid False True show ?thesis
        unfolding run by (simp add: planned_one_def)
    next
      case False
      with valid \<open>\<not> pdu_mode w\<close> show ?thesis by (simp add: planned_one_def send_one_def follows_def)
    qed
  qed
qed

text \<open>\<open>send_all\<close> follows the plan.\<close>

lemma send_all_follows:
  "send_all cfg body numbers refs (on_urc cfg n) w = (refs', err, w2) \<Longrightarrow>
   \<exists>ys zs. planned (pdu_mode w) (random_bytes w) numbers body = ys @ zs \<and> submissions w2 = submissions w @ ys
     \<and> (err = None \<longrightarrow> zs = [])"
proof (induction numbers arbitrary: refs w)
  case Nil
  then show ?case by simp
next
  case (Cons number rest)
  let ?a = "planned_one (pdu_mode w) (random_bytes w) number body"
  let ?b = "planned (pdu_mode w) (if pdu_mode w then tl (random_bytes w) else random_bytes w) rest body"
  obtain r1 w1 where s: "send_one cfg number body (on_urc cfg n) w = (r1, w1)" by fastforce
  with send_one_follows [where w = w and number = number and body = body and cfg = cfg and n = n] obtain ys zs where
    f: "?a = ys @ zs" "submissions w1 = submissions w @ ys" "pdu_mode w1 = pdu_mode w" "\<forall>x. r1 = Inr x \<longrightarrow> zs = []"
    by (auto simp: follows_def)
  show ?case
  proof (cases r1)
    case (Inl e)
    with Cons.prems s have "w2 = w1" "err \<noteq> None" by auto
    from f(2) \<open>w2 = w1\<close> have "planned (pdu_mode w) (random_bytes w) (number # rest) body = ys @ (zs @ ?b)
        \<and> submissions w2 = submissions w @ ys \<and> (err = None \<longrightarrow> zs @ ?b = [])"
      using f(1) \<open>err \<noteq> None\<close> by auto
    then show ?thesis by blast
  next
    case (Inr new)
    have "e164 number" using s Inr by (auto simp: send_one_def split: if_splits)
    with send_one_follows [where w = w and number = number and body = body and cfg = cfg and n = n] s have rb: "random_bytes w1 = (if pdu_mode w then tl (random_bytes w) else random_bytes w)"
      by simp
    from Cons.IH [of "refs @ new" w1] Cons.prems s Inr obtain us vs where
      "planned (pdu_mode w1) (random_bytes w1) rest body = us @ vs" "submissions w2 = submissions w1 @ us" "err = None \<longrightarrow> vs = []"
      by auto
    with f Inr rb have "planned (pdu_mode w) (random_bytes w) (number # rest) body = (ys @ us) @ vs
        \<and> submissions w2 = submissions w @ (ys @ us) \<and> (err = None \<longrightarrow> vs = [])"
      by simp
    then show ?thesis by blast
  qed
qed

text \<open>C27. Every recipient is sent to exactly once: what a send job writes to submit messages is
  an initial part of what the record asks for (for each recipient in order, the command and the
  payload of each part of the text), and all of it when every sending succeeded; the commands
  that handling of unsolicited lines writes in between submit nothing.\<close>

theorem submissions_as_planned:
  assumes "get_record i (w_outbox w) = Some r" "out_state r = Queued" "hs_sim (w_health w) = SimReady"
    and "send_all cfg (out_text r) (out_to r) [] (on_urc cfg n) (sending cfg i w) = (refs, err, w2)"
  shows "\<exists>ys zs. planned (pdu_mode w) (random_bytes w) (out_to r) (out_text r) = ys @ zs
    \<and> submissions (snd (do_send cfg i (on_urc cfg n) w)) = submissions w @ ys \<and> (err = None \<longrightarrow> zs = [])"
proof -
  have w1: "pdu_mode (sending cfg i w) = pdu_mode w" "random_bytes (sending cfg i w) = random_bytes w"
    "submissions (sending cfg i w) = submissions w"
    by (simp_all add: sending_def submissions_def)
  have "get_record i (w_outbox (sending cfg i w)) = Some (r\<lparr>out_state := Sending, updated_at := Some (utc_now cfg (p_clock w))\<rparr>)"
    using assms(1) by (simp add: sending_def ob_update_record)
  from send_loop_outcome [OF this assms(4), of False] do_send_start [OF assms(1-3), of cfg "on_urc cfg n"]
  have "p_written (snd (do_send cfg i (on_urc cfg n) w)) = p_written w2"
    by (cases "send_verdict cfg (False \<or> out_to r \<noteq> []) err w2") auto
  then have "submissions (snd (do_send cfg i (on_urc cfg n) w)) = submissions w2" by (simp add: submissions_def)
  with send_all_follows [OF assms(4)] show ?thesis unfolding w1 by simp
qed

section \<open>An example\<close>

definition example_cfg :: wcfg where
  "example_cfg = \<lparr>digest = (\<lambda>b. nat_dec (sum_list b)), sim_pin = [], sim_pin_max_tries = 1, poll_interval = 15,
     local_now = int_dec, utc_now = int_dec, exn_text = (\<lambda>e. str_of ''error'')\<rparr>"

definition example_health :: health where
  "example_health = \<lparr>hs_state = Online, hs_sim = SimReady, hs_registration = None, hs_operator = None,
     hs_signal = None, hs_strategy = Some Cmti, hs_storage = None, last_inbound = None, last_outbound = None,
     last_error = None, hs_modem = [], hs_port = None\<rparr>"

definition example_outbox :: outbox where
  "example_outbox = snd (create [str_of ''+4915112345'', str_of ''7654321''] (str_of ''hi'') None None (str_of ''t0'') (new_outbox 500))"

definition example_worker :: "(nat \<times> pybytes option) list \<Rightarrow> worker" where
  "example_worker feed = \<lparr>p_buf = [], p_feed = feed, p_clock = 0, p_written = [], p_faults = [],
     w_hub = new_hub 100 (str_of ''s'') None, w_outbox = example_outbox, w_asm = [], seen_hashes = [],
     w_strategy = Some Cmti, pdu_mode = True, cmgl_broken = False, modem_info = [], pin_submissions = 0,
     env_pin_tries = 0, runtime_pin = None, cmt_pending = False, w_health = example_health, jobs = [], replies = [],
     stopping = False, disk_budget = [], random_bytes = []\<rparr>"

text \<open>The modem takes both messages; before the second answer it announces a call.\<close>

definition example_feed :: "(nat \<times> pybytes option) list" where
  "example_feed = [(5, Some (str_of ''> '')), (900, Some ([13, 10] @ str_of ''+CMGS: 7'' @ [13, 10, 13, 10] @ str_of ''OK'' @ [13, 10])),
     (5, Some (str_of ''> '')), (7, Some ([13, 10] @ str_of ''RING'' @ [13, 10])),
     (900, Some ([13, 10] @ str_of ''+CMGS: 8'' @ [13, 10, 13, 10] @ str_of ''OK'' @ [13, 10]))]"

lemma example_record: "get_record 1 (w_outbox (example_worker feed)) = Some (new_record 1
    [str_of ''+4915112345'', str_of ''7654321''] (str_of ''hi'') None None (str_of ''t0''))"
  by (simp add: example_worker_def get_record_def) code_simp

abbreviation example_result :: "int option list \<times> (pystr \<times> exn) option \<times> worker" where
  "example_result \<equiv> send_all example_cfg (str_of ''hi'') [str_of ''+4915112345'', str_of ''7654321''] []
     (on_urc example_cfg 1) (sending example_cfg 1 (example_worker example_feed))"

lemma example_send_all: "fst example_result = [Some 7, Some 8]" "fst (snd example_result) = None"
  by code_simp+

lemma example_ready: "hs_sim (w_health (example_worker feed)) = SimReady"
  by (simp add: example_worker_def example_health_def)

lemma example_queued: "out_state (new_record 1 to s sub k t) = Queued" "out_text (new_record 1 to s sub k t) = s"
  "out_to (new_record 1 to s sub k t) = to"
  by (simp_all add: new_record_def)

theorem send_outcome_witness:
  "\<exists>w' r. do_send example_cfg 1 (on_urc example_cfg 1) (example_worker example_feed) = (Inr (), w')
    \<and> get_record 1 (w_outbox w') = Some r \<and> out_state r = Submitted \<and> out_refs r = [Some 7, Some 8]"
proof -
  define rec where "rec = new_record 1 [str_of ''+4915112345'', str_of ''7654321''] (str_of ''hi'') None None (str_of ''t0'')"
  obtain w2 where r: "send_all example_cfg (out_text rec) (out_to rec) [] (on_urc example_cfg 1)
      (sending example_cfg 1 (example_worker example_feed)) = ([Some 7, Some 8], None, w2)"
    using example_send_all unfolding rec_def example_queued by (metis prod.collapse)
  have q: "out_state rec = Queued" unfolding rec_def by (rule example_queued)
  have "case send_verdict example_cfg (out_to rec \<noteq> []) None w2 of Some (st, msg) \<Rightarrow> st = Submitted | None \<Rightarrow> False"
    by (simp add: send_verdict_def rec_def example_queued)
  with send_outcome [OF example_record [folded rec_def] q example_ready r] show ?thesis
    by (force simp: send_verdict_def)
qed

theorem submissions_as_planned_witness:
  "submissions (snd (do_send example_cfg 1 (on_urc example_cfg 1) (example_worker example_feed)))
    = planned True [] [str_of ''+4915112345'', str_of ''7654321''] (str_of ''hi'')"
proof -
  define rec where "rec = new_record 1 [str_of ''+4915112345'', str_of ''7654321''] (str_of ''hi'') None None (str_of ''t0'')"
  obtain w2 where r: "send_all example_cfg (out_text rec) (out_to rec) [] (on_urc example_cfg 1)
      (sending example_cfg 1 (example_worker example_feed)) = ([Some 7, Some 8], None, w2)"
    using example_send_all unfolding rec_def example_queued by (metis prod.collapse)
  have q: "out_state rec = Queued" unfolding rec_def by (rule example_queued)
  have "planned True [] (out_to rec) (out_text rec) = planned True [] [str_of ''+4915112345'', str_of ''7654321''] (str_of ''hi'')"
    "pdu_mode (example_worker example_feed)" "random_bytes (example_worker example_feed) = []"
    "submissions (example_worker example_feed) = []"
    by (simp_all add: rec_def example_queued example_worker_def submissions_def)
  with submissions_as_planned [OF example_record [folded rec_def] q example_ready r] show ?thesis by simp
qed

end
