(* ===== verification/Worker_Receive.thy ===== *)
theory Worker_Receive
  imports Worker_Send
begin

text \<open>
  Receiving: which exceptions an inbound message can let out of its handling, what the store
  keeps over a cycle of the worker, the order of storing and deleting, the answer of a command with
  the server's own callback, and what the worker sees of the answers to its registration queries.
\<close>

section \<open>Exceptions an operation lets out\<close>

text \<open>\<open>within I P m\<close>: from states with \<open>I\<close> the operation \<open>m\<close> reaches states with \<open>I\<close> and raises
  only exceptions with \<open>P\<close>.\<close>

definition within :: "('s \<Rightarrow> bool) \<Rightarrow> (exn \<Rightarrow> bool) \<Rightarrow> ('s, 'a) act \<Rightarrow> bool" where
  "within I P m \<longleftrightarrow> (\<forall>s. I s \<longrightarrow> I (snd (m s)) \<and> (\<forall>e. fst (m s) = Inl e \<longrightarrow> P e))"

named_theorems within_intros \<open>composition of operations and the exceptions they let out\<close>

lemma withinI: "(\<And>s r s'. I s \<Longrightarrow> m s = (r, s') \<Longrightarrow> I s' \<and> (\<forall>e. r = Inl e \<longrightarrow> P e)) \<Longrightarrow> within I P m"
  unfolding within_def by (metis prod.collapse)

lemma withinD: "within I P m \<Longrightarrow> I s \<Longrightarrow> m s = (r, s') \<Longrightarrow> I s' \<and> (\<forall>e. r = Inl e \<longrightarrow> P e)"
  unfolding within_def by (metis fst_conv snd_conv)

lemma within_ret [within_intros]: "within I P (ret x)"
  and within_throw [within_intros]: "P e \<Longrightarrow> within I P (throw e)"
  and within_change [within_intros]: "(\<And>s. I s \<Longrightarrow> I (f s)) \<Longrightarrow> within I P (change f)"
  and within_look [within_intros]: "(\<And>s. I s \<Longrightarrow> within I P (g s)) \<Longrightarrow> within I P (look g)"
  by (simp_all add: within_def)

lemma within_weaken: "within I P m \<Longrightarrow> (\<And>e. P e \<Longrightarrow> Q e) \<Longrightarrow> within I Q m"
  unfolding within_def by blast

lemma within_andThen [within_intros]:
  assumes "within I P m" "\<And>x. within I P (f x)"
  shows "within I P (andThen m f)"
proof (rule withinI)
  fix s r s'
  assume "I s" and run: "andThen m f s = (r, s')"
  obtain r0 s0 where m: "m s = (r0, s0)" by fastforce
  from withinD [OF assms(1) \<open>I s\<close> m] have s0: "I s0" "\<And>e. r0 = Inl e \<Longrightarrow> P e" by auto
  show "I s' \<and> (\<forall>e. r = Inl e \<longrightarrow> P e)"
  proof (cases r0)
    case (Inl e)
    with run m s0 show ?thesis by (auto simp: andThen_def)
  next
    case (Inr x)
    with run m have "f x s0 = (r, s')" by (simp add: andThen_def)
    from withinD [OF assms(2) s0(1) this] show ?thesis .
  qed
qed

lemma within_attempt:
  assumes "within I Q m" "\<And>e. Q e \<Longrightarrow> C e \<Longrightarrow> e \<noteq> OutOfFuel \<Longrightarrow> within I P (h e)" "\<And>x. within I P (f x)"
    and "\<And>e. Q e \<Longrightarrow> \<not> C e \<or> e = OutOfFuel \<Longrightarrow> P e"
  shows "within I P (attempt m C h f)"
proof (rule withinI)
  fix s r s'
  assume "I s" and run: "attempt m C h f s = (r, s')"
  obtain r0 s0 where m: "m s = (r0, s0)" by fastforce
  from withinD [OF assms(1) \<open>I s\<close> m] have s0: "I s0" "\<And>e. r0 = Inl e \<Longrightarrow> Q e" by auto
  show "I s' \<and> (\<forall>e. r = Inl e \<longrightarrow> P e)"
  proof (cases r0)
    case (Inl e)
    show ?thesis
    proof (cases "C e \<and> e \<noteq> OutOfFuel")
      case True
      with run m Inl have "h e s0 = (r, s')" by (simp add: attempt_def)
      from withinD [OF assms(2) s0(1) this] True Inl s0(2) show ?thesis by blast
    next
      case False
      with run m Inl s0 assms(4) [of e] show ?thesis by (auto simp: attempt_def)
    qed
  next
    case (Inr x)
    with run m have "f x s0 = (r, s')" by (simp add: attempt_def)
    from withinD [OF assms(3) s0(1) this] show ?thesis .
  qed
qed

lemma within_except:
  assumes "within I Q m" "\<And>e. Q e \<Longrightarrow> C e \<Longrightarrow> e \<noteq> OutOfFuel \<Longrightarrow> within I P (h e)"
    and "\<And>e. Q e \<Longrightarrow> \<not> C e \<or> e = OutOfFuel \<Longrightarrow> P e"
  shows "within I P (except m C h)"
  unfolding except_as_attempt by (rule within_attempt [OF assms(1,2) within_ret assms(3)])

lemma within_if [within_intros]: "(b \<Longrightarrow> within I P m) \<Longrightarrow> (\<not> b \<Longrightarrow> within I P n) \<Longrightarrow> within I P (if b then m else n)"
  by simp

lemma within_option [within_intros]:
  "within I P m \<Longrightarrow> (\<And>x. within I P (f x)) \<Longrightarrow> within I P (case v of None \<Rightarrow> m | Some x \<Rightarrow> f x)"
  by (cases v) simp_all

lemma within_each [within_intros]: "(\<And>x. within I P (f x)) \<Longrightarrow> within I P (each f xs)"
  by (induction xs) (simp_all add: within_intros)

text \<open>Any exception at all, when the operation keeps the state's \<open>I\<close>.\<close>

lemma within_any: "keeps R m \<Longrightarrow> (\<And>s t. R s t \<Longrightarrow> I s \<Longrightarrow> I t) \<Longrightarrow> within I (\<lambda>_. True) m"
  unfolding within_def keeps_def by blast

section \<open>The receiving side in PDU mode\<close>

text \<open>What \<open>_serve\<close> catches, and the fuel of the model.\<close>

definition serial_exn :: "exn \<Rightarrow> bool" where
  "serial_exn e \<longleftrightarrow> serial_failure e \<or> e = OutOfFuel"

definition port_exn :: "exn \<Rightarrow> bool" where
  "port_exn e \<longleftrightarrow> serial_exn e \<or> is_at_error e"

definition os_exn :: "exn \<Rightarrow> bool" where
  "os_exn e \<longleftrightarrow> e = OSError \<or> e = OutOfFuel"

lemma exn_classes [simp]:
  "port_exn OSError" "port_exn OutOfFuel" "port_exn (ATError m)" "port_exn (ATTimeout m)"
  "serial_exn OSError" "serial_exn OutOfFuel" "serial_exn (ATTimeout m)" "os_exn OSError" "os_exn OutOfFuel"
  by (simp_all add: port_exn_def serial_exn_def serial_failure_def os_exn_def)

lemma serial_port: "serial_exn e \<Longrightarrow> port_exn e" and os_serial: "os_exn e \<Longrightarrow> serial_exn e"
  by (auto simp: port_exn_def serial_exn_def serial_failure_def os_exn_def)

lemma readline_raises: "fst (readline deadline p) = Inl e \<Longrightarrow> e = OSError"
proof (induction deadline p rule: readline.induct)
  case (1 deadline p)
  then show ?case
    by (subst (asm) (2) readline.simps)
      (auto simp: read_chunk_def Let_def split: prod.splits option.splits sum.splits list.splits if_splits)
qed

lemma readline_mode:
  fixes w :: worker
  shows "pdu_mode (snd (readline deadline w)) = pdu_mode w"
  using receives.readline_kept [of w deadline] by (simp add: same_reading_def)

lemma response_within:
  fixes w w' :: worker
  assumes "\<And>line. within pdu_mode port_exn (cb line)" "pdu_mode w"
  shows "response cb n cmd deadline extra lines w = (r, w') \<Longrightarrow> pdu_mode w' \<and> (\<forall>e. r = Inl e \<longrightarrow> port_exn e)"
  using assms(2)
proof (induction n arbitrary: lines w)
  case 0
  then show ?case by auto
next
  case (Suc n)
  obtain r0 q where r: "readline deadline w = (r0, q)" by fastforce
  have q: "pdu_mode q" using readline_mode [of deadline w] r Suc.prems(2) by simp
  consider (err) e where "r0 = Inl e" | (none) "r0 = Inr None" | (line) l where "r0 = Inr (Some l)"
    by (metis not_None_eq sum.exhaust_sel)
  then show ?case
  proof cases
    case err
    with r readline_raises [of deadline w e] Suc.prems(1) q show ?thesis by auto
  next
    case none
    with r Suc.prems(1) q show ?thesis by auto
  next
    case (line l)
    obtain c q' where c: "cb l q = (c, q')" by fastforce
    from withinD [OF assms(1) q c] have c': "pdu_mode q'" "\<And>e. c = Inl e \<Longrightarrow> port_exn e" by auto
    note ih = Suc.IH [OF _ q] and ih' = Suc.IH [OF _ c'(1)]
    show ?thesis
      using r line c c' q ih [of lines] ih [of "lines @ [l]"] ih' [of lines] Suc.prems(1)
      by (auto split: sum.splits if_splits)
  qed
qed

lemma execute_within:
  fixes cb :: wcb
  assumes "\<And>line. within pdu_mode port_exn (cb line)" "list_all (\<lambda>c. c < 128) cmd"
  shows "within pdu_mode port_exn (execute cb cmd timeout None extra)"
proof (rule withinI)
  fix w r w'
  assume w: "pdu_mode w" and "execute cb cmd timeout None extra w = (r, w')"
  then have run: "execute cb cmd timeout None extra w = (r, w')" by blast
  have p: "pdu_mode (port_write (cmd @ [13]) w)" using w by (simp add: port_write_def)
  show "pdu_mode w' \<and> (\<forall>e. r = Inl e \<longrightarrow> port_exn e)"
  proof (cases "write_fails w")
    case True
    with run assms(2) p show ?thesis by (auto simp: execute_def Let_def port_exn_def)
  next
    case False
    with run assms(2) have "response cb (avail (port_write (cmd @ [13]) w) + 1) cmd
      (p_clock (port_write (cmd @ [13]) w) + int timeout) extra [] (port_write (cmd @ [13]) w) = (r, w')"
      by (simp add: execute_def Let_def del: response.simps)
    with p show ?thesis using response_within [where cb = cb, OF assms(1)] by blast
  qed
qed

lemma drain_within:
  fixes w w' :: worker
  assumes "\<And>line. within pdu_mode serial_exn (cb line)" "pdu_mode w"
  shows "drain_loop cb n deadline w = (r, w') \<Longrightarrow> pdu_mode w' \<and> (\<forall>e. r = Inl e \<longrightarrow> serial_exn e)"
  using assms(2)
proof (induction n arbitrary: w)
  case 0
  then show ?case by auto
next
  case (Suc n)
  obtain r0 q where r: "readline deadline w = (r0, q)" by fastforce
  have q: "pdu_mode q" using readline_mode [of deadline w] r Suc.prems(2) by simp
  consider (err) e where "r0 = Inl e" | (none) "r0 = Inr None" | (line) l where "r0 = Inr (Some l)"
    by (metis not_None_eq sum.exhaust_sel)
  then show ?case
  proof cases
    case err
    with r readline_raises [of deadline w e] Suc.prems(1) q show ?thesis by auto
  next
    case none
    with r Suc.prems(1) q show ?thesis by auto
  next
    case (line l)
    obtain c q' where c: "cb l q = (c, q')" by fastforce
    from withinD [OF assms(1) q c] have c': "pdu_mode q'" "\<And>e. c = Inl e \<Longrightarrow> serial_exn e" by auto
    from r line c c' q Suc.IH [OF _ c'(1)] Suc.prems(1) show ?thesis by (auto split: sum.splits)
  qed
qed

lemma delete_within:
  assumes "\<And>line. within pdu_mode serial_exn (cb line)"
  shows "within pdu_mode os_exn (delete_indices idx cb)"
proof -
  have "within pdu_mode port_exn (execute cb (cmgd_command i) 10000 None False)" for i
  proof (rule execute_within)
    show "within pdu_mode port_exn (cb line)" for line by (rule within_weaken [OF assms serial_port])
    have "list_all (\<lambda>c. c < 128) (str_of ''AT+CMGD='')" by code_simp
    then show "list_all (\<lambda>c. c < 128) (cmgd_command i)"
      using arg_int [of i] by (auto simp: cmgd_command_def arg_char_def ascii_digit_def list_all_iff)
  qed
  then show ?thesis unfolding delete_indices_def
    by (intro within_each within_attempt [where Q = port_exn] within_ret)
      (auto simp: at_failure_def port_exn_def serial_exn_def serial_failure_def os_exn_def)
qed

lemma process_within:
  assumes "\<And>line. within pdu_mode serial_exn (cb line)" "\<And>line. keeps same_reading (cb line)"
  shows "within pdu_mode os_exn (process_pdu cfg pdu index cb)"
proof (cases "decode_deliver pdu")
  case (Inl e)
  with raises_decode_deliver [of pdu] have "value_or_index e" by (auto simp: raises_def value_or_index_def)
  with Inl show ?thesis by (simp add: process_pdu_def within_ret)
next
  case (Inr d)
  have step: "within pdu_mode (\<lambda>_. True) (andThen (assemble x index) (\<lambda>res.
      case res of None \<Rightarrow> ret () | Some (m, indices) \<Rightarrow> publish_message cfg m indices cb))" for x
    unfolding case_prod_beta
    by (rule within_any [where R = same_reading])
      (auto intro!: keeps_intros same_reading_order receives.keeps_assemble receives.keeps_option
        receives.keeps_publish assms(2) simp: same_reading_def)
  have "within pdu_mode os_exn (except (andThen (assemble x index) (\<lambda>res.
      case res of None \<Rightarrow> ret () | Some (m, indices) \<Rightarrow> publish_message cfg m indices cb))
      any_exception (\<lambda>_. delete_indices (index_list index) cb))" for x
    by (rule within_except [OF step delete_within [OF assms(1)]]) (auto simp: any_exception_def os_exn_def)
  with delete_within [OF assms(1)] Inr show ?thesis
    unfolding process_pdu_def by (cases d) simp_all
qed

lemma on_urc_within: "within pdu_mode serial_exn (on_urc cfg n line)"
proof (induction n arbitrary: line)
  case 0
  show ?case by (simp add: within_def)
next
  case (Suc n)
  have ascii: "list_all (\<lambda>c. c < 128) (cmgr_command i)" for i
  proof -
    have "list_all (\<lambda>c. c < 128) (str_of ''AT+CMGR='')" by code_simp
    then show ?thesis using arg_int [of i] by (auto simp: cmgr_command_def arg_char_def ascii_digit_def list_all_iff)
  qed
  note process = within_weaken [OF process_within [OF Suc.IH receives.keeps_on_urc] os_serial]
  have read: "within pdu_mode serial_exn (read_index cfg i (on_urc cfg n))" for i
    unfolding read_index_def
  proof (rule within_except [where Q = port_exn])
    show "within pdu_mode port_exn (look (\<lambda>w. if pdu_mode w then
         andThen (execute (on_urc cfg n) (cmgr_command i) 10000 None True) (\<lambda>lines.
           case parse_cmgr_pdu lines of None \<Rightarrow> ret ()
           | Some pdu \<Rightarrow> if pdu = [] then ret () else process_pdu cfg pdu (Some i) (on_urc cfg n))
       else scan_stored cfg (on_urc cfg n)))"
      by (intro within_intros execute_within ascii within_weaken [OF process serial_port]
          within_weaken [OF Suc.IH serial_port]) simp_all
  qed (auto intro: within_ret simp: port_exn_def)
  show ?case unfolding on_urc.simps urc_body_def case_prod_beta
    by (intro within_intros process read) simp_all
qed

text \<open>C28. One message cannot take the receiving side down, whatever its bytes: in PDU mode the
  handling of a PDU comes to an end without an exception, unless the port itself is broken; the
  handling of any unsolicited line, at any depth, and the listening for such lines let out only
  time-outs and port failures, which is what the serve loop catches.  Every other exception
  (a PDU that cannot be decoded, a part number out of range, a lone surrogate in the text, a
  failing disk) ends where the message is handled.\<close>

theorem inbound_contained:
  assumes "pdu_mode w"
  shows "fst (on_worker cfg (process_pdu cfg pdu index) w) \<in> {Inr (), Inl OSError}
    \<and> raises ({OSError} \<union> range ATTimeout) (fst (on_worker cfg (\<lambda>cb. urc_body cfg line cb) w))
    \<and> raises ({OSError} \<union> range ATTimeout) (fst (on_worker cfg (\<lambda>cb. drain_urcs cb duration) w))"
proof -
  let ?cb = "on_urc cfg (avail w)"
  have end_of: "e \<noteq> OutOfFuel" if "fst (on_worker cfg F w) = Inl e" "steady (avail w) F"
    for e and F :: "wcb \<Rightarrow> unit wact"
    using steady_on_urc(2) [OF that(2) order_refl, of cfg] that(1) by auto
  have os: "os_exn e \<Longrightarrow> e \<noteq> OutOfFuel \<Longrightarrow> e = OSError" for e by (simp add: os_exn_def)
  have ser: "serial_exn e \<Longrightarrow> e \<noteq> OutOfFuel \<Longrightarrow> e \<in> {OSError} \<union> range ATTimeout" for e
    by (cases e) (simp_all add: serial_exn_def serial_failure_def)
  have process: "within pdu_mode os_exn (process_pdu cfg pdu index ?cb)"
    by (rule process_within [OF on_urc_within receives.keeps_on_urc])
  have body: "within pdu_mode serial_exn (urc_body cfg line ?cb)"
    using on_urc_within [of cfg "Suc (avail w)" line] by simp
  have drain: "within pdu_mode serial_exn (drain_urcs ?cb duration)"
    unfolding drain_urcs_def by (intro withinI drain_within [where cb = ?cb, OF on_urc_within])
  have "fst (on_worker cfg (process_pdu cfg pdu index) w) \<in> {Inr (), Inl OSError}"
    using end_of [OF _ steady_process_pdu] process assms os
    by (cases "fst (on_worker cfg (process_pdu cfg pdu index) w)") (auto simp: within_def on_worker_def)
  moreover have "raises ({OSError} \<union> range ATTimeout) (fst (on_worker cfg (\<lambda>cb. urc_body cfg line cb) w))"
    using end_of [OF _ steady_urc_body] body assms ser unfolding raises_def within_def on_worker_def by blast
  moreover have "raises ({OSError} \<union> range ATTimeout) (fst (on_worker cfg (\<lambda>cb. drain_urcs cb duration) w))"
    using end_of [OF _ drain_steady] drain assms ser unfolding raises_def within_def on_worker_def by blast
  ultimately show ?thesis by blast
qed


section \<open>What the store keeps\<close>

text \<open>An inbox whose index is the one a restart would build, with ids below the hub's counter;
  nothing is said of \<open>stream.json\<close>, whose writing may have failed.\<close>

definition box_sound :: "store \<Rightarrow> int \<Rightarrow> bool" where
  "box_sound st n \<longleftrightarrow> box_ok msg_id (inbox (store_disk st)) (in_index st) \<and> (\<forall>e \<in> set (in_index st). fst e < n)"

text \<open>The messages only grow in number, at the end.\<close>

definition log_grows :: "worker \<Rightarrow> worker \<Rightarrow> bool" where
  "log_grows w w' \<longleftrightarrow> (\<forall>st. hub_store (w_hub w) = Some st \<longrightarrow> box_sound st (next_id (w_hub w)) \<longrightarrow>
     (\<exists>st' new. hub_store (w_hub w') = Some st' \<and> box_sound st' (next_id (w_hub w'))
        \<and> inbox_log st' = inbox_log st @ new))"

lemma log_growsI:
  assumes "\<And>st. hub_store (w_hub w) = Some st \<Longrightarrow> box_sound st (next_id (w_hub w)) \<Longrightarrow>
     \<exists>st' new. hub_store (w_hub w') = Some st' \<and> box_sound st' (next_id (w_hub w')) \<and> inbox_log st' = inbox_log st @ new"
  shows "log_grows w w'"
  using assms unfolding log_grows_def by blast

lemma log_same: "w_hub w' = w_hub w \<Longrightarrow> log_grows w w'"
  by (rule log_growsI) simp

lemma log_order: "preorder log_grows"
  unfolding preorder_def
proof (intro conjI allI impI)
  show "log_grows w w" for w by (rule log_same) simp
  fix w1 w2 w3
  assume g: "log_grows w1 w2" "log_grows w2 w3"
  show "log_grows w1 w3"
  proof (rule log_growsI)
    fix st assume "hub_store (w_hub w1) = Some st" "box_sound st (next_id (w_hub w1))"
    with g(1) obtain st2 n2 where 2: "hub_store (w_hub w2) = Some st2" "box_sound st2 (next_id (w_hub w2))"
      "inbox_log st2 = inbox_log st @ n2" unfolding log_grows_def by blast
    with g(2) obtain st3 n3 where "hub_store (w_hub w3) = Some st3" "box_sound st3 (next_id (w_hub w3))"
      "inbox_log st3 = inbox_log st2 @ n3" unfolding log_grows_def by blast
    with 2 show "\<exists>st' new. hub_store (w_hub w3) = Some st' \<and> box_sound st' (next_id (w_hub w3))
      \<and> inbox_log st' = inbox_log st @ new" by auto
  qed
qed

text \<open>Saving under a fresh id, with any number of its file operations done.\<close>

lemma save_sound:
  assumes "box_sound st n" "msg_id m = n"
  shows "box_sound (snd (save_inbound k st m (n + 1))) (n + 1)"
    "inbox_log (snd (save_inbound k st m (n + 1))) = inbox_log st @ (if 3 \<le> k then [m] else [])"
proof -
  have id: "index_id (inbound_name m) = Some (msg_id m)" by (simp add: inbound_name_def)
  have box: "box_ok msg_id (inbox (store_disk st)) (in_index st)" and lt: "\<forall>e \<in> set (in_index st). fst e < msg_id m"
    using assms by (auto simp: box_sound_def)
  from box_ok_write [OF box id lt, of k] lt assms(2) show "box_sound (snd (save_inbound k st m (n + 1))) (n + 1)"
    by (auto simp: box_sound_def save_inbound_def inbound_disk_def Let_def)
  from read_entries_write [OF box id lt, of k]
  show "inbox_log (snd (save_inbound k st m (n + 1))) = inbox_log st @ (if 3 \<le> k then [m] else [])"
    by (auto simp: inbox_log_def save_inbound_def inbound_disk_def Let_def)
qed

lemma publish_log: "keeps log_grows (hub_publish m idx)"
  unfolding keeps_def
proof
  fix w
  show "log_grows w (snd (hub_publish m idx w))"
  proof (rule log_growsI)
    fix st assume st: "hub_store (w_hub w) = Some st" and ok: "box_sound st (next_id (w_hub w))"
    let ?n = "next_id (w_hub w)"
    let ?s = "save_inbound (next_budget w) st (with_id m ?n) (?n + 1)"
    have "hub_store (w_hub (snd (hub_publish m idx w))) = Some (snd ?s)"
      "next_id (w_hub (snd (hub_publish m idx w))) = ?n + 1"
      by (cases ?s; simp add: hub_publish_def publish_store [OF st] Let_def split: sum.split prod.split)+
    with save_sound [OF ok msg_id_with_id] show "\<exists>st' new. hub_store (w_hub (snd (hub_publish m idx w))) = Some st'
      \<and> box_sound st' (next_id (w_hub (snd (hub_publish m idx w)))) \<and> inbox_log st' = inbox_log st @ new" by fastforce
  qed
qed

lemma health_log: "keeps log_grows (set_health loud f)"
  unfolding keeps_def by (auto intro!: log_growsI simp: set_health_def Let_def broadcast_def)

lemma save_outbound_inbox:
  "inbox (store_disk (snd (save_outbound k st r))) = inbox (store_disk st)"
  "in_index (snd (save_outbound k st r)) = in_index st"
  by (simp_all add: save_outbound_def Let_def)

lemma recorded_log: "keeps log_grows (ob_update cfg rec_id chg)"
  unfolding keeps_def
proof
  fix w
  show "log_grows w (snd (ob_update cfg rec_id chg w))"
  proof (rule log_growsI)
    fix st assume "hub_store (w_hub w) = Some st" "box_sound st (next_id (w_hub w))"
    then show "\<exists>st' new. hub_store (w_hub (snd (ob_update cfg rec_id chg w))) = Some st'
      \<and> box_sound st' (next_id (w_hub (snd (ob_update cfg rec_id chg w)))) \<and> inbox_log st' = inbox_log st @ new"
      by (auto simp: ob_update_def update_def Let_def box_sound_def inbox_log_def save_outbound_inbox split: option.split)
  qed
qed


interpretation log: hub_frame log_grows
  by unfold_locales (auto simp: log_order publish_log health_log recorded_log intro: log_same)

text \<open>A restart finds what the running store has.\<close>

lemma reopen_log: "box_sound st n \<Longrightarrow> inbox_log (open_store fresh (store_disk st)) = inbox_log st"
  by (simp add: box_sound_def box_ok_def open_store_def load_stream_def inbox_log_def split: option.split prod.split)

text \<open>C29. Stored messages stay stored: over a whole cycle of the worker, with any answers of the
  modem and any write of the store failing after any of its file operations, what a restart
  would find in the inbox only grows, at its end, and its order and identity with the index stay.\<close>

theorem messages_kept:
  assumes "hub_store (w_hub w) = Some st" "box_sound st (next_id (w_hub w))"
  shows "\<exists>st' new. hub_store (w_hub (snd (on_worker cfg (run_cycle cfg dev k) w))) = Some st'
    \<and> inbox_log (open_store fresh (store_disk st')) = inbox_log (open_store fresh' (store_disk st)) @ new
    \<and> sorted_wrt (<) (map msg_id (inbox_log st'))"
proof -
  have sorted: "sorted_wrt (<) (map msg_id (inbox_log s))" if "box_sound s n" for s n
  proof -
    have "map msg_id (inbox_log s) = map fst (in_index s)" unfolding inbox_log_def
      by (rule read_entries_ids) (use that in \<open>auto simp: box_sound_def box_ok_def\<close>)
    with that show ?thesis unfolding box_sound_def box_ok_def by metis
  qed
  have "log_grows w (snd (on_worker cfg (run_cycle cfg dev k) w))"
    using log.cycles.keeps_cycle [where cfg = cfg and dev = dev and k = k and n = "avail w"]
    by (simp add: keeps_def on_worker_def)
  with assms obtain st' new where "hub_store (w_hub (snd (on_worker cfg (run_cycle cfg dev k) w))) = Some st'"
    "box_sound st' (next_id (w_hub (snd (on_worker cfg (run_cycle cfg dev k) w))))" "inbox_log st' = inbox_log st @ new"
    unfolding log_grows_def by blast
  with reopen_log [OF assms(2)] reopen_log sorted show ?thesis by metis
qed

text \<open>The message is in the store, where a restart finds it under the id it was published with.\<close>

definition safely_stored :: "wcfg \<Rightarrow> inbound \<Rightarrow> worker \<Rightarrow> worker \<Rightarrow> bool" where
  "safely_stored cfg m w w' \<longleftrightarrow> (\<exists>h st'. message_hash (digest cfg) (in_sender m) (in_scts m) (in_text m) = Inr h
     \<and> hub_store (w_hub w') = Some st'
     \<and> (\<forall>fresh. with_id (stamp cfg (p_clock w) h m) (next_id (w_hub w)) \<in> set (inbox_log (open_store fresh (store_disk st')))))"

lemma safely_stored_later:
  assumes "hub_store (w_hub w1) = Some st" "box_sound st (next_id (w_hub w1))"
    and "message_hash (digest cfg) (in_sender m) (in_scts m) (in_text m) = Inr h"
    and "with_id (stamp cfg (p_clock w) h m) (next_id (w_hub w)) \<in> set (inbox_log st)" "log_grows w1 w'"
  shows "safely_stored cfg m w w'"
proof -
  from assms(1,2,5) obtain st' new where "hub_store (w_hub w') = Some st'" "box_sound st' (next_id (w_hub w'))"
    "inbox_log st' = inbox_log st @ new" unfolding log_grows_def by blast
  with reopen_log assms(3,4) show ?thesis unfolding safely_stored_def by auto
qed

text \<open>Publishing: the message is stored before anything is written; if it cannot be hashed, was seen or
  cannot be stored, nothing is written.\<close>

lemma publish_stored:
  assumes "hub_store (w_hub w) = Some st" "box_sound st (next_id (w_hub w))"
    and run: "publish_message cfg m idx (on_urc cfg n) w = (r, w')"
  shows "p_written w' = p_written w \<and> (isl (message_hash (digest cfg) (in_sender m) (in_scts m) (in_text m)) \<or> r = Inr () \<or> next_budget w < 3)
    \<or> safely_stored cfg m w w' \<and> (\<forall>w''. log_grows w' w'' \<longrightarrow> safely_stored cfg m w w'')"
proof (cases "message_hash (digest cfg) (in_sender m) (in_scts m) (in_text m)")
  case (Inl e)
  with run show ?thesis by (simp add: publish_message_def andThen_def)
next
  case (Inr h)
  note h = this
  show ?thesis
  proof (cases "h \<in> set (seen_hashes w)")
    case True
    with run h show ?thesis by (simp add: publish_message_def andThen_def)
  next
    case new: False
    let ?w1 = "w\<lparr>seen_hashes := last_n SEEN_KEEP (seen_hashes w @ [h])\<rparr>"
    let ?m = "stamp cfg (p_clock w) h m" and ?n = "next_id (w_hub w)" and ?cb = "on_urc cfg n"
    obtain r2 w2 where p2: "hub_publish ?m idx ?w1 = (r2, w2)" by fastforce
    let ?s = "save_inbound (next_budget w) st (with_id ?m ?n) (?n + 1)"
    have budget: "next_budget ?w1 = next_budget w" by (simp add: next_budget_def)
    have st2: "hub_store (w_hub w2) = Some (snd ?s)" "next_id (w_hub w2) = ?n + 1" "p_written w2 = p_written w"
      using p2 assms(1) by (auto simp: hub_publish_def publish_store budget Let_def split: sum.splits prod.splits)
    let ?rest = "\<lambda>msg. andThen (look (\<lambda>w'. if hub_store (w_hub w') \<noteq> None then delete_indices idx ?cb else ret ()))
      (\<lambda>_. set_health False (\<lambda>hs. hs\<lparr>last_inbound := Some (received_at msg)\<rparr>))"
    have split: "(case r2 of Inl e \<Rightarrow> (Inl e, w2) | Inr msg \<Rightarrow> ?rest msg w2) = (r, w')"
      using run h new p2 by (cases r2) (simp_all add: publish_message_def andThen_def)
    have "keeps log_grows (?rest msg)" for msg
      by (intro keeps_intros log_order log.keeps_delete log.keeps_on_urc health_log)
    with split have grows: "log_grows w2 w'"
      using keepsD preorderD(1) [OF log_order] by (cases r2) fastforce+
    note saved = save_sound [OF assms(2) msg_id_with_id [of ?m], where k = "next_budget w"]
    show ?thesis
    proof (cases "next_budget w < 3")
      case True
      then have "fst ?s = Inl OSError" by (simp add: save_inbound_def)
      then have "r2 = Inl OSError"
        using p2 assms(1) by (auto simp: hub_publish_def publish_store budget Let_def split: sum.splits prod.splits)
      with split st2(3) True show ?thesis by auto
    next
      case False
      with saved(2) have "with_id ?m ?n \<in> set (inbox_log (snd ?s))" by simp
      note later = safely_stored_later [OF st2(1) _ h this]
      have "box_sound (snd ?s) (next_id (w_hub w2))" using saved(1) st2(2) by simp
      with later grows preorderD(2) [OF log_order] show ?thesis by blast
    qed
  qed
qed

text \<open>C31. With a store the copy at the modem is deleted only after the message is safe: when the
  publication of a message has written anything to the modem, what a restart would find in the
  inbox contains that message, under the id it was published with, whatever happened while its
  slots were being deleted.  When the handling of a received part has written anything, it completed a
  message, and that message is safe in the same way, except where the code gives the copy up: when the
  assembler cannot place the part, when the message cannot be hashed, and, against PLAN.md 3.7, when the
  disk fails before the message has its file (\<open>lost_on_full_disk\<close>).\<close>

theorem stored_before_deleted:
  assumes "hub_store (w_hub w) = Some st" "box_sound st (next_id (w_hub w))"
  shows "(p_written (snd (on_worker cfg (publish_message cfg m idx) w)) \<noteq> p_written w \<longrightarrow>
      safely_stored cfg m w (snd (on_worker cfg (publish_message cfg m idx) w)))
    \<and> (decode_deliver pdu = Inr (Deliver d) \<and> p_written (snd (on_worker cfg (process_pdu cfg pdu index) w)) \<noteq> p_written w \<longrightarrow>
        (case fst (assembler_add (p_clock w) (w_asm w) d index) of
          Inl e \<Rightarrow> index \<noteq> None
        | Inr None \<Rightarrow> False
        | Inr (Some (m', indices)) \<Rightarrow>
            safely_stored cfg m' w (snd (on_worker cfg (process_pdu cfg pdu index) w))
            \<or> index \<noteq> None \<and> (isl (message_hash (digest cfg) (in_sender m') (in_scts m') (in_text m')) \<or> next_budget w < 3)))"
proof -
  let ?cb = "on_urc cfg (avail w)"
  obtain r w' where run: "publish_message cfg m idx ?cb w = (r, w')" by fastforce
  have direct: "p_written w' \<noteq> p_written w \<longrightarrow> safely_stored cfg m w w'"
    using publish_stored [OF assms run] by blast
  have handled: "case fst (assembler_add (p_clock w) (w_asm w) d index) of
          Inl e \<Rightarrow> index \<noteq> None
        | Inr None \<Rightarrow> False
        | Inr (Some (m', indices)) \<Rightarrow> safely_stored cfg m' w w2
            \<or> index \<noteq> None \<and> (isl (message_hash (digest cfg) (in_sender m') (in_scts m') (in_text m')) \<or> next_budget w < 3)"
    if dec: "decode_deliver pdu = Inr (Deliver d)" and wr: "p_written w2 \<noteq> p_written w"
      and run: "process_pdu cfg pdu index ?cb w = (r2, w2)" for r2 w2
  proof -
    obtain ra asm where add: "assembler_add (p_clock w) (w_asm w) d index = (ra, asm)" by fastforce
    let ?w0 = "w\<lparr>w_asm := asm\<rparr>" and ?del = "delete_indices (index_list index) ?cb"
    have none: "index \<noteq> None \<or> snd (?del v) = v" for v by (cases index) (simp_all add: index_list_def delete_indices_def)
    consider (err) e where "ra = Inl e" | (more) "ra = Inr None" | (full) m' indices where "ra = Inr (Some (m', indices))"
      by (metis obj_sumE option.exhaust surj_pair)
    then show ?thesis
    proof cases
      case err
      with run dec add have "w2 = ?w0 \<or> w2 = snd (?del ?w0)"
        by (auto simp: process_pdu_def assemble_def andThen_def except_def any_exception_def split: if_splits)
      with wr none [of ?w0] err add show ?thesis by auto
    next
      case more
      with run dec add wr show ?thesis
        by (auto simp: process_pdu_def assemble_def andThen_def except_def)
    next
      case full
      obtain rp wp where p: "publish_message cfg m' indices ?cb ?w0 = (rp, wp)" by fastforce
      from run dec add full p have w2: "w2 = wp \<or> rp \<noteq> Inr () \<and> w2 = snd (?del wp)"
        by (cases rp) (auto simp: process_pdu_def assemble_def andThen_def except_def any_exception_def split: if_splits)
      have grows: "log_grows wp w2"
        using w2 log.receiving(1) [where idx = "index_list index" and cfg = cfg and n = "avail w"] preorderD(1) [OF log_order]
        by (auto simp: keeps_def)
      have s0: "hub_store (w_hub ?w0) = Some st" "box_sound st (next_id (w_hub ?w0))" using assms by simp_all
      have "safely_stored cfg m' ?w0 v = safely_stored cfg m' w v" for v by (simp add: safely_stored_def)
      moreover have "next_budget ?w0 = next_budget w" by (simp add: next_budget_def)
      moreover have "index \<noteq> None" if "p_written wp = p_written w" using that w2 wr none [of wp] by auto
      moreover have "rp \<noteq> Inr ()" if "p_written wp = p_written w" using that w2 wr by auto
      ultimately show ?thesis using publish_stored [OF s0 p] grows add full by auto
    qed
  qed
  obtain r2 w2 where "process_pdu cfg pdu index ?cb w = (r2, w2)" by fastforce
  with direct run handled show ?thesis by (simp add: on_worker_def)
qed

section \<open>Examples\<close>

theorem inbound_contained_witness:
  "fst (on_worker example_cfg (process_pdu example_cfg (str_of ''zz'') None) (example_worker [])) \<in> {Inr (), Inl OSError}"
proof -
  have "pdu_mode (example_worker [])" by (simp add: example_worker_def)
  from inbound_contained [OF this] show ?thesis by blast
qed

definition store_worker :: "store \<Rightarrow> (nat \<times> pybytes option) list \<Rightarrow> worker" where
  "store_worker st feed = (example_worker feed)\<lparr>w_hub := new_hub 100 [] (Some st)\<rparr>"

lemma store_worker_hub [simp]: "hub_store (w_hub (store_worker st feed)) = Some st"
  "next_id (w_hub (store_worker st feed)) = store_next st"
  by (simp_all add: store_worker_def new_hub_def)

lemma store_worker_sound: "store_ok st \<Longrightarrow> box_sound st (next_id (w_hub (store_worker st feed)))"
  by (simp add: store_ok_def box_sound_def)

abbreviation one_message :: store where
  "one_message \<equiv> snd (save_inbound 6 (open_store [97] empty_disk) (example_message 1) (store_next (open_store [97] empty_disk) + 1))"

lemma one_message: "store_ok one_message" "inbox_log one_message = [example_message 1]"
proof -
  have n: "msg_id (example_message 1) = store_next (open_store [97] empty_disk)"
    by (simp add: open_store_def load_stream_def empty_disk_def)
  have e: "inbox_log (open_store [97] empty_disk) = []"
    by (simp add: inbox_log_def open_store_def load_stream_def empty_disk_def)
  show "store_ok one_message" "inbox_log one_message = [example_message 1]"
    using save_inbound_ok(1) [OF open_empty_ok n] save_inbound_log [OF open_empty_ok n] e by simp_all
qed

theorem messages_kept_witness:
  "\<exists>st' new. hub_store (w_hub (snd (on_worker example_cfg (run_cycle example_cfg (Some []) 5) (store_worker one_message example_feed)))) = Some st'
    \<and> inbox_log (open_store [] (store_disk st')) = example_message 1 # new"
proof -
  have s: "box_sound one_message (next_id (w_hub (store_worker one_message example_feed)))"
    by (rule store_worker_sound [OF one_message(1)])
  from messages_kept [OF store_worker_hub(1) s, where cfg = example_cfg and dev = "Some []" and k = 5 and fresh = "[]" and fresh' = "[]"]
    reopen_log [OF s] one_message(2) show ?thesis by auto
qed

definition example_inbound :: inbound where
  "example_inbound = \<lparr>in_sender = str_of ''+4915112345'', in_text = str_of ''hi'', in_scts = [], in_partial = False\<rparr>"

definition deletes :: "(nat \<times> pybytes option) list" where
  "deletes = [(5, Some (str_of ''OK'' @ [13, 10]))]"

lemma example_publish_writes:
  "p_written (snd (on_worker example_cfg (publish_message example_cfg example_inbound [3])
     (store_worker (open_store [97] empty_disk) deletes))) = [str_of ''AT+CMGD=3'' @ [13]]"
  by code_simp

text \<open>A PDU in UCS-2: \<open>Hi\<close> from 1234.\<close>

definition short_pdu :: pystr where
  "short_pdu = str_of ''0004048121430008123456789012340400480069''"

lemma example_process_writes:
  "p_written (snd (on_worker example_cfg (process_pdu example_cfg short_pdu (Some 3))
     (store_worker (open_store [97] empty_disk) deletes))) = [str_of ''AT+CMGD=3'' @ [13]]"
  by code_simp

lemma example_process_message:
  "case decode_deliver short_pdu of
     Inr (Deliver d) \<Rightarrow> (case fst (assembler_add 0 [] d (Some 3)) of
         Inr (Some (m, _)) \<Rightarrow> \<not> isl (message_hash (digest example_cfg) (in_sender m) (in_scts m) (in_text m)) | _ \<Rightarrow> False)
   | _ \<Rightarrow> False"
  by code_simp

theorem stored_before_deleted_witness:
  "let w = store_worker (open_store [97] empty_disk) deletes in
     safely_stored example_cfg example_inbound w (snd (on_worker example_cfg (publish_message example_cfg example_inbound [3]) w))
   \<and> (\<exists>m. safely_stored example_cfg m w (snd (on_worker example_cfg (process_pdu example_cfg short_pdu (Some 3)) w)))"
proof -
  let ?w = "store_worker (open_store [97] empty_disk) deletes"
  have w: "p_written ?w = []" "p_clock ?w = 0" "w_asm ?w = []" "next_budget ?w = 99"
    by (simp_all add: store_worker_def example_worker_def next_budget_def)
  obtain d where d: "decode_deliver short_pdu = Inr (Deliver d)"
    "case fst (assembler_add 0 [] d (Some 3)) of
         Inr (Some (m, _)) \<Rightarrow> \<not> isl (message_hash (digest example_cfg) (in_sender m) (in_scts m) (in_text m)) | _ \<Rightarrow> False"
    using example_process_message by (auto split: sum.splits decoded.splits)
  note stored = stored_before_deleted [OF store_worker_hub(1) [of "open_store [97] empty_disk" deletes]
      store_worker_sound [OF open_empty_ok], where cfg = example_cfg and m = example_inbound and idx = "[3]"
        and pdu = short_pdu and index = "Some 3" and d = d]
  from d(2) obtain m indices where m: "fst (assembler_add 0 [] d (Some 3)) = Inr (Some (m, indices))"
    "\<not> isl (message_hash (digest example_cfg) (in_sender m) (in_scts m) (in_text m))"
    by (auto split: sum.splits option.splits)
  from stored d(1) example_process_writes m
  have "safely_stored example_cfg m ?w (snd (on_worker example_cfg (process_pdu example_cfg short_pdu (Some 3)) ?w))"
    by (simp add: w)
  with stored example_publish_writes show ?thesis unfolding Let_def by (auto simp: w)
qed

section \<open>The answer of a command\<close>

text \<open>Lines the server's own callback drops: no notification of a stored message, and no header of a
  message that follows.\<close>

definition idle_line :: "pystr \<Rightarrow> bool" where
  "idle_line l \<longleftrightarrow> parse_cmti l = None \<and> \<not> py_startswith l (str_of ''+CMT:'')"

lemma on_urc_idle:
  assumes "idle_line l" "\<not> cmt_pending w"
  shows "on_urc cfg (Suc n) l w = (Inr (), w)"
  using assms by (simp add: idle_line_def urc_body_def)

lemma pending_more: "port.more w = port.more w' \<Longrightarrow> cmt_pending w = cmt_pending w'"
  by (cases w; cases w') simp

text \<open>C20. The answer of a command without a payload: when the command can be written and the modem's
  lines all arrive before the deadline, in whatever pieces they are read, the result is every line up to the
  final one, in order, without echoes and without unsolicited lines (unless the command collects them), or
  the error the final line names; exactly these lines are taken from the stream and exactly the command was
  written.  This holds for every callback that leaves the port alone, which is given each unsolicited line
  once and in order; and for the server's own callback when no header is pending and the unsolicited lines
  name no message, which it then drops.  Where they do name one it runs commands of its own, and the answer
  may be lost to them (\<open>answer_stolen\<close>).\<close>

theorem execute_answer:
  assumes "list_all (\<lambda>c. c < 128) cmd" "\<not> write_fails w"
    and "list_all line_ok pre" "list_all (\<lambda>l. \<not> final_line cmd l) pre" "final_line cmd fin" "line_ok fin"
    and "stream w = concat (map line_bytes pre) @ line_bytes fin @ rest"
    and "timely (p_clock w + int timeout) w"
  shows "let answer = (if fin = FINAL_OK then Inr (filter (kept_line cmd extra) pre) else Inl (ATError fin));
       urcs = filter (handed_over cmd extra) pre in
     (\<forall>f. \<exists>q. execute (apart f) cmd timeout None extra w = (answer, q)
        \<and> p_written q = p_written w @ [cmd @ [13]] \<and> stream q = rest \<and> port.more q = fold f urcs (port.more w))
   \<and> (\<not> cmt_pending w \<and> list_all idle_line urcs \<longrightarrow>
       (\<exists>q. execute (on_urc cfg (Suc n)) cmd timeout None extra w = (answer, q)
        \<and> p_written q = p_written w @ [cmd @ [13]] \<and> stream q = rest \<and> port.more q = port.more w))"
proof -
  let ?urcs = "filter (handed_over cmd extra) pre"
  have own: "list_all (acts_apart (on_urc cfg (Suc n)) (\<lambda>_ x. x) (\<lambda>x. x = port.more w)) ?urcs"
    if "\<not> cmt_pending w" "list_all idle_line ?urcs"
    using that on_urc_idle pending_more unfolding acts_apart_def list_all_iff by (metis (no_types, lifting) port.surjective port.update_convs(6))
  have apart: "list_all (acts_apart (apart f) f (\<lambda>_. True)) ?urcs" for f :: "pystr \<Rightarrow> unit worker_ext \<Rightarrow> unit worker_ext"
    by (simp add: list_all_iff)
  have fold: "fold (\<lambda>_ x. x) xs (y :: unit worker_ext) = y" for xs :: "pystr list" and y by (induction xs) auto
  from execute_lines [OF assms apart] execute_lines [OF assms own] show ?thesis
    unfolding Let_def fold by blast
qed

text \<open>An example: a command, echoed, whose answer is read in two pieces while a call comes in.\<close>

definition ring_feed :: "(nat \<times> pybytes option) list" where
  "ring_feed = [(5, Some (line_bytes (str_of ''AT+CSQ'') @ [13, 10, 82])),
     (7, Some (str_of ''ING'' @ [13, 10] @ line_bytes (str_of ''+CSQ: 20,0'') @ line_bytes (str_of ''OK'')))]"

theorem execute_answer_witness:
  "\<exists>q q'. execute (on_urc example_cfg 1) (str_of ''AT+CSQ'') 5000 None False (example_worker ring_feed) = (Inr [str_of ''+CSQ: 20,0''], q)
    \<and> execute (apart (\<lambda>l x. x)) (str_of ''AT+CSQ'') 5000 None False (example_worker ring_feed) = (Inr [str_of ''+CSQ: 20,0''], q')
    \<and> p_written q = [str_of ''AT+CSQ'' @ [13]]"
proof -
  let ?cmd = "str_of ''AT+CSQ''" and ?pre = "[str_of ''AT+CSQ'', str_of ''RING'', str_of ''+CSQ: 20,0'']" and ?w = "example_worker ring_feed"
  have lines: "list_all (\<lambda>c. c < 128) ?cmd" "list_all line_ok ?pre" "list_all (\<lambda>l. \<not> final_line ?cmd l) ?pre"
    "final_line ?cmd (str_of ''OK'')" "line_ok (str_of ''OK'')" "str_of ''OK'' = FINAL_OK"
    "filter (kept_line ?cmd False) ?pre = [str_of ''+CSQ: 20,0'']" "list_all idle_line (filter (handed_over ?cmd False) ?pre)"
    by code_simp+
  have w: "\<not> write_fails ?w" "timely (p_clock ?w + int 5000) ?w" "\<not> cmt_pending ?w" "p_written ?w = []"
    by (simp_all add: example_worker_def write_fails_def timely_def ring_feed_def)
  have "stream ?w = concat (map line_bytes ?pre) @ line_bytes (str_of ''OK'') @ []"
    by code_simp
  from execute_answer [OF lines(1) w(1) lines(2-5) this w(2), where extra = False and cfg = example_cfg and n = 0] lines(6-8) w(3,4)
  show ?thesis unfolding Let_def by simp blast
qed

section \<open>Answers that are taken for unsolicited lines\<close>

lemma response_no_urc:
  "response cb n cmd deadline False lines p = (Inr ls, q) \<Longrightarrow> list_all (\<lambda>l. \<not> is_urc l) lines \<Longrightarrow>
     list_all (\<lambda>l. \<not> is_urc l) ls"
proof (induction n arbitrary: lines p)
  case 0
  then show ?case by simp
next
  case (Suc n)
  obtain r0 p' where r: "readline deadline p = (r0, p')" by fastforce
  then obtain l where l: "r0 = Inr (Some l)" using Suc.prems(1) by (cases r0) (auto split: option.splits)
  obtain c p'' where c: "cb l p' = (c, p'')" by fastforce
  show ?case
    using Suc.IH [of lines p'] Suc.IH [of "lines @ [l]" p'] Suc.IH [of lines p''] Suc.prems r l c
    by (auto split: if_splits sum.splits)
qed

definition registration_answer :: "pystr \<Rightarrow> bool" where
  "registration_answer line \<longleftrightarrow>
     list_ex (py_startswith line) [str_of ''+CREG:'', str_of ''+CGREG:'', str_of ''+CEREG:'']"

lemma registration_urc: "registration_answer line \<Longrightarrow> is_urc line"
  by (auto simp: registration_answer_def is_urc_def URC_PREFIXES_def)

definition registered_feed :: "(nat \<times> pybytes option) list" where
  "registered_feed = map (\<lambda>kind. (20, Some (kind @ str_of '': 0,1'' @ [13, 10, 13, 10] @ str_of ''OK'' @ [13, 10])))
     [str_of ''+CREG'', str_of ''+CEREG'', str_of ''+CGREG'']"

text \<open>C32. The worker never sees the answer to its registration queries: no line that begins with
  \<open>+CREG:\<close>, \<open>+CGREG:\<close> or \<open>+CEREG:\<close> is ever among the lines a command without \<open>collect_extra\<close>
  returns, since it goes to the callback, which drops it.  A modem that answers all three
  queries with \<open>0,1\<close>, registered at home, is not seen as registered.\<close>

theorem registration_blind:
  "(case fst (execute cb cmd timeout payload False p) of
        Inr lines \<Rightarrow> list_all (\<lambda>l. \<not> registration_answer l) lines | Inl _ \<Rightarrow> True)
   \<and> fst (registration (on_urc example_cfg 1) (example_worker registered_feed)) = Inr (None, str_of ''unknown'')
   \<and> fst (registered (on_urc example_cfg 1) (example_worker registered_feed)) = Inr False"
proof -
  have none: "list_all (\<lambda>l. \<not> registration_answer l) lines"
    if "fst (execute cb cmd timeout payload False p) = Inr lines" for lines
  proof -
    have "\<exists>n d p1. fst (response cb n cmd d False [] p1) = Inr lines"
    proof (cases payload)
      case None
      with that show ?thesis
        by (auto simp: execute_def Let_def simp del: response.simps split: if_splits)
    next
      case (Some data)
      with that show ?thesis
        by (auto simp: execute_def Let_def simp del: response.simps split: if_splits sum.splits prod.splits)
    qed
    then obtain n d p1 where "fst (response cb n cmd d False [] p1) = Inr lines" by blast
    then obtain q where "response cb n cmd d False [] p1 = (Inr lines, q)" by (metis prod.collapse)
    from response_no_urc [OF this] show ?thesis using registration_urc by (auto simp: list_all_iff)
  qed
  have "fst (registration (on_urc example_cfg 1) (example_worker registered_feed)) = Inr (None, str_of ''unknown'')"
    by code_simp
  moreover have "fst (registered (on_urc example_cfg 1) (example_worker registered_feed)) = Inr False"
    by code_simp
  ultimately show ?thesis using none by (auto split: sum.split)
qed

section \<open>Where the code departs from what it promises\<close>

text \<open>A second copy of a message that was published already is not deleted at the modem: a
  deletion that failed once is not tried again by the reconciling scan.\<close>

lemma duplicate_not_deleted:
  "message_hash (digest cfg) (in_sender m) (in_scts m) (in_text m) = Inr h \<Longrightarrow> h \<in> set (seen_hashes w) \<Longrightarrow>
     publish_message cfg m idx cb w = (Inr (), w)"
  by (simp add: publish_message_def andThen_def)

text \<open>A modem that does not answer \<open>AT+CPIN\<close>: the time-out's message names the command, and when
  it is recorded the PIN that \<open>_redact\<close> should mask is already forgotten.\<close>

definition pin_worker :: worker where
  "pin_worker = (example_worker [])\<lparr>jobs := [PinJob (str_of ''4321'') 0],
     w_health := example_health\<lparr>hs_sim := SimPinRequired\<rparr>\<rparr>"

lemma pin_in_health:
  "last_error (w_health (snd (on_worker example_cfg (serve example_cfg 1 (0, 0)) pin_worker)))
     = Some (str_of ''AT+CPIN='' @ [34] @ str_of ''4321'' @ [34] @ str_of '': no final response'')"
  by code_simp

text \<open>A disk that fails when the message is saved: the message is nowhere in the store, its copy at
  the modem is deleted, and a copy that arrives later counts as seen.\<close>

lemma lost_on_full_disk:
  assumes "decode_deliver pdu = Inr (Deliver d)" "assembler_add (p_clock w) (w_asm w) d (Some i) = (Inr (Some (m, idx)), asm)"
    and "message_hash (digest cfg) (in_sender m) (in_scts m) (in_text m) = Inr h" "h \<notin> set (seen_hashes w)"
    and "hub_store (w_hub w) = Some st" "box_sound st (next_id (w_hub w))" "next_budget w < 3"
  shows "\<exists>w1 st1. process_pdu cfg pdu (Some i) cb w = delete_indices [i] cb w1 \<and> p_written w1 = p_written w
    \<and> hub_store (w_hub w1) = Some st1 \<and> inbox_log st1 = inbox_log st \<and> h \<in> set (seen_hashes w1)"
proof -
  let ?w0 = "w\<lparr>w_asm := asm, seen_hashes := last_n SEEN_KEEP (seen_hashes w @ [h])\<rparr>"
  obtain r w1 where p: "hub_publish (stamp cfg (p_clock w) h m) idx ?w0 = (r, w1)" by fastforce
  have fails: "fst (save_inbound (next_budget w) s x n) = Inl OSError" for s x n
    using assms(7) by (simp add: save_inbound_def)
  have budget: "next_budget ?w0 = next_budget w" by (simp add: next_budget_def)
  have h: "h \<in> set (last_n SEEN_KEEP (seen_hashes w @ [h]))" by (simp add: last_n_def SEEN_KEEP_def)
  have r: "r = Inl OSError" "p_written w1 = p_written w" "seen_hashes w1 = last_n SEEN_KEEP (seen_hashes w @ [h])"
    "hub_store (w_hub w1) = Some (snd (save_inbound (next_budget w) st
        (with_id (stamp cfg (p_clock w) h m) (next_id (w_hub w))) (next_id (w_hub w) + 1)))"
    using p assms(5) fails by (auto simp: hub_publish_def budget publish_store Let_def split: prod.splits)
  have "publish_message cfg m idx cb (w\<lparr>w_asm := asm\<rparr>) = (Inl OSError, w1)"
    using assms(3,4) p r(1) by (simp add: publish_message_def andThen_def)
  then have "process_pdu cfg pdu (Some i) cb w = delete_indices [i] cb w1"
    using assms(1,2) by (simp add: process_pdu_def except_def andThen_def assemble_def any_exception_def index_list_def)
  with r h save_sound(2) [OF assms(6) msg_id_with_id [of "stamp cfg (p_clock w) h m"], where k = "next_budget w"] assms(7)
  show ?thesis by auto
qed

text \<open>A notification between a command and its answer: the handler's own command takes the end of
  the outer answer for its own, and the message it asked for is returned as the answer of the
  outer command.\<close>

definition example_pdu :: pystr where
  "example_pdu = str_of ''07911326040000F0040B911346610089F60000208062917314080CC8F71D14969741F977FD07''"

definition notified_feed :: "(nat \<times> pybytes option) list" where
  "notified_feed = [(5, Some (str_of ''+CMTI: '' @ [34] @ str_of ''SM'' @ [34] @ str_of '',3'' @ [13, 10])),
     (5, Some (str_of ''+CSQ: 20,0'' @ [13, 10] @ str_of ''OK'' @ [13, 10])),
     (5, Some (str_of ''+CMGR: 0,,31'' @ [13, 10] @ example_pdu @ [13, 10] @ str_of ''OK'' @ [13, 10]))]"

lemma answer_stolen:
  "fst (execute (on_urc example_cfg 1) (str_of ''AT+CSQ'') 5000 None False (example_worker notified_feed))
     = Inr [str_of ''+CMGR: 0,,31'', example_pdu]"
  "ring (w_hub (snd (execute (on_urc example_cfg 1) (str_of ''AT+CSQ'') 5000 None False (example_worker notified_feed)))) = []"
  by code_simp+

end
