(* ===== verification/Held_Messages.thy ===== *)
theory Held_Messages
  imports Delivery Worker_Receive
begin

text \<open>
  What the hub and its store hold can be written.  \<open>publish_message\<close> of
  \<open>src/server/gtg_server/modem/worker.py\<close> computes the hash of a message, and with it the UTF-8
  encoding of its texts, before the hub sees it; the writers of the event stream, of the JSON
  answers and of the files encode without escapes and would raise at a lone surrogate.  The
  relation \<open>texts_kept\<close> is a frame of the worker; the subscribers' operations and the restart
  are steps beside it.
\<close>

section \<open>The messages of a hub\<close>

definition held :: "'h hub \<Rightarrow> published list" where
  "held hub = ring hub @ map (\<lambda>(_, m, _). m) (pending hub) @ concat (map (\<lambda>(_, s). event_msgs (sub_queue s)) (subs hub))
     @ (case hub_store hub of None \<Rightarrow> [] | Some st \<Rightarrow> List.map_filter snd (inbox (store_disk st)))"

lemma map_filter_mem: "y \<in> set (List.map_filter f xs) \<longleftrightarrow> (\<exists>x \<in> set xs. f x = Some y)"
  by (force simp: List.map_filter_def)

lemma event_msgs_mem: "m \<in> set (event_msgs q) \<longleftrightarrow> MessageEv m \<in> set q"
proof (induction q)
  case (Cons e q)
  then show ?case by (cases e) auto
qed simp

definition waiting :: "(int \<times> published \<times> int list) list \<Rightarrow> published set" where
  "waiting ps = (\<Union>(_, m, _) \<in> set ps. {m})"

definition queued :: "(nat \<times> 'h subscriber) list \<Rightarrow> published set" where
  "queued ss = (\<Union>(_, s) \<in> set ss. {m. MessageEv m \<in> set (sub_queue s)})"

definition stored :: "store option \<Rightarrow> published set" where
  "stored st = (case st of None \<Rightarrow> {} | Some s \<Rightarrow> {m. \<exists>name. (name, Some m) \<in> set (inbox (store_disk s))})"

lemma set_held: "set (held hub) = set (ring hub) \<union> waiting (pending hub) \<union> queued (subs hub) \<union> stored (hub_store hub)"
proof -
  have "set (concat (map (\<lambda>(_, s). event_msgs (sub_queue s)) (subs hub))) = queued (subs hub)"
    by (auto simp: queued_def event_msgs_mem)
  moreover have "set (case hub_store hub of None \<Rightarrow> [] | Some st \<Rightarrow> List.map_filter snd (inbox (store_disk st))) = stored (hub_store hub)"
    by (cases "hub_store hub") (auto simp: stored_def map_filter_mem, force+)
  moreover have "set (map (\<lambda>(_, m, _). m) (pending hub)) = waiting (pending hub)" by (force simp: waiting_def)
  ultimately show ?thesis by (simp add: held_def Un_assoc)
qed

text \<open>Every operation leaves the messages that were held, but for the one it publishes.\<close>

lemma update_set: "set (AList.update k v xs) \<subseteq> insert (k, v) (set xs)"
  by (induction xs) auto

lemma delete_set: "set (AList.delete k xs) \<subseteq> set xs"
  by (auto simp: AList.delete_eq)

lemma run_op_held: "(a, Some x) \<in> set (run_op op d) \<Longrightarrow> (\<exists>name. (name, Some x) \<in> set d) \<or> (\<exists>name. op = Put name (Some x))"
proof (cases op)
  case (Put name c)
  then show "(a, Some x) \<in> set (run_op op d) \<Longrightarrow> ?thesis" using update_set [of name c d] by auto
next
  case (Rename old new)
  then show "(a, Some x) \<in> set (run_op op d) \<Longrightarrow> ?thesis"
    using update_set [of new "Some x" "AList.delete old d"] delete_set [of old d] map_of_SomeD [of d old "Some x"]
    by (auto split: option.splits) (metis Pair_inject insertE subsetD update_set)+
qed

lemma write_held:
  assumes "(a, Some x) \<in> set (run_ops k (write_ops name m) d)"
  shows "x = m \<or> (\<exists>name. (name, Some x) \<in> set d)"
proof -
  have "(\<exists>name. (name, Some x) \<in> set d) \<or> (\<exists>name. Put name (Some x) \<in> set ops)" if "(a, Some x) \<in> set (fold run_op ops d)" for ops
    using that
  proof (induction ops arbitrary: d)
    case (Cons op ops)
    then have "(\<exists>name. (name, Some x) \<in> set (run_op op d)) \<or> (\<exists>name. Put name (Some x) \<in> set ops)" by simp
    with run_op_held [of _ x op d] show ?case by auto
  qed auto
  from this [of "take k (write_ops name m)"] assms show ?thesis
    unfolding run_ops_def by (auto simp: write_ops_def dest!: in_set_takeD)
qed

lemma queued_offer: "queued (offer_all ev ss) \<subseteq> {m. ev = MessageEv m} \<union> queued ss"
  using offer_events by (fastforce simp: offer_all_def queued_def)

lemma queued_update: "queued (AList.update i s ss) \<subseteq> {m. MessageEv m \<in> set (sub_queue s)} \<union> queued ss"
  using update_set [of i s ss] by (fastforce simp: queued_def)

lemma queued_delete: "queued (AList.delete i ss) \<subseteq> queued ss"
  using delete_set [of i ss] by (fastforce simp: queued_def)

lemma waiting_update: "waiting (AList.update i (m, idx) ps) \<subseteq> insert m (waiting ps)"
  using update_set [of i "(m, idx)" ps] by (fastforce simp: waiting_def)

lemma waiting_delete: "waiting (AList.delete i ps) \<subseteq> waiting ps"
  using delete_set [of i ps] by (fastforce simp: waiting_def)

lemma stored_save: "stored (Some (snd (save_inbound k st m n))) \<subseteq> insert m (stored (Some st))"
  by (auto simp: stored_def save_inbound_def inbound_disk_def Let_def dest!: write_held)

lemma publish_held: "set (held (snd (publish k hub m idx))) \<subseteq> insert (with_id m (next_id hub)) (set (held hub))"
proof -
  have last: "set (last_n n xs) \<subseteq> set xs" for n and xs :: "published list"
    by (auto simp: last_n_def dest: in_set_dropD)
  let ?m = "with_id m (next_id hub)"
  note q = queued_offer [of "MessageEv ?m" "subs hub"] and r = last [of "ring_size hub" "ring hub @ [?m]"]
  show ?thesis
  proof (cases "hub_store hub")
    case None
    with q r waiting_update [of "msg_id ?m" ?m idx "pending hub"] show ?thesis
      unfolding set_held by (auto simp: publish_def Let_def)
  next
    case (Some st)
    obtain e st' where s: "save_inbound k st ?m (next_id hub + 1) = (e, st')" by fastforce
    with stored_save [of k st ?m "next_id hub + 1"] have "stored (Some st') \<subseteq> insert ?m (stored (Some st))" by simp
    with Some s q r show ?thesis unfolding set_held by (cases e) (auto simp: publish_def Let_def)
  qed
qed

lemma broadcast_held: "set (held (broadcast (HealthEv h) hub)) \<subseteq> set (held hub)"
  unfolding set_held using queued_offer [of "HealthEv h" "subs hub"] by (auto simp: broadcast_def)

lemma read_held: "set (read_entries d es) \<subseteq> {m. \<exists>name. (name, Some m) \<in> set d}"
  by (auto simp: read_entries_def map_filter_mem bind_eq_Some_conv dest!: map_of_SomeD) blast

lemma replay_held: "set (replay_list hub after cursor) \<subseteq> set (held hub)"
proof -
  have "set (replay_after st a b) \<subseteq> stored (Some st)" for st a b
    using read_held by (fastforce simp: replay_after_def stored_def)
  then have "set (cursor_replay hub a) \<subseteq> stored (hub_store hub) \<union> set (ring hub)" for a
    by (cases "hub_store hub") (auto simp: cursor_replay_def Let_def)
  then show ?thesis unfolding set_held by (fastforce simp: replay_list_def Let_def waiting_def)
qed

lemma history_held: "hub_store hub = Some st \<Longrightarrow> set (history_inbox st before limit) \<subseteq> set (held hub)"
  using read_held [of "inbox (store_disk st)"] unfolding set_held by (fastforce simp: history_inbox_def stored_def)

lemma subscribe_held: "set (held (snd (subscribe after cursor hub))) \<subseteq> set (held hub)"
proof -
  let ?s = "offer_msgs_to (replay_list hub after cursor) (new_subscriber :: 'a subscriber)"
  have "{m. MessageEv m \<in> set (sub_queue ?s)} \<subseteq> set (replay_list hub after cursor)"
    using offer_fold_events [of "replay_list hub after cursor" "new_subscriber :: 'a subscriber"] by (auto simp: new_subscriber_def)
  moreover have "queued (subs hub @ [(next_sub hub, ?s)]) = queued (subs hub) \<union> {m. MessageEv m \<in> set (sub_queue ?s)}"
    by (auto simp: queued_def)
  ultimately show ?thesis using replay_held [of hub after cursor] unfolding set_held by (auto simp: subscribe_def Let_def)
qed

lemma unsubscribe_held: "set (held (unsubscribe i hub)) \<subseteq> set (held hub)"
  unfolding set_held using queued_delete [of i "subs hub"] by (auto simp: unsubscribe_def)

lemma after_write_held: "set (held (snd (after_write sid ok ev hub))) \<subseteq> set (held hub)"
proof -
  have "set (held (snd (confirm_delivered i hub))) \<subseteq> set (held hub)" for i
    unfolding set_held using waiting_delete [of i "pending hub"] by (auto simp: confirm_delivered_def)
  with unsubscribe_held [of sid hub] show ?thesis by (auto simp: after_write_def split: event.splits)
qed

lemma pop_held:
  assumes "pop_event sid hub = Some (ev, hub')"
  shows "set (held hub') \<subseteq> set (held hub)"
proof -
  from assms obtain s q where s: "map_of (subs hub) sid = Some s" "sub_queue s = ev # q"
    "hub' = hub\<lparr>subs := AList.update sid (s\<lparr>sub_queue := q\<rparr>) (subs hub)\<rparr>"
    by (auto simp: pop_event_def split: option.splits list.splits)
  have "{m. MessageEv m \<in> set q} \<subseteq> queued (subs hub)"
  proof
    fix m assume "m \<in> {m. MessageEv m \<in> set q}"
    with s(2) have "MessageEv m \<in> set (sub_queue s)" by simp
    with map_of_SomeD [OF s(1)] show "m \<in> queued (subs hub)" unfolding queued_def by blast
  qed
  with queued_update [of sid "s\<lparr>sub_queue := q\<rparr>" "subs hub"] show ?thesis unfolding set_held s(3) by auto
qed

lemma restart_held: "set (held (new_hub n fresh (map_option (\<lambda>st. open_store fresh' (store_disk st)) (hub_store hub)))) \<subseteq> set (held hub)"
  unfolding set_held
  by (auto simp: new_hub_def open_store_def load_stream_def queued_def waiting_def stored_def split: option.splits prod.splits)

section \<open>The worker\<close>

definition texts_kept :: "worker \<Rightarrow> worker \<Rightarrow> bool" where
  "texts_kept w w' \<longleftrightarrow> set (held (w_hub w')) \<subseteq> set (held (w_hub w)) \<union> Collect sendable"

lemma texts_order: "preorder texts_kept"
  by (auto simp: preorder_def texts_kept_def)

lemma texts_same: "w_hub w' = w_hub w \<Longrightarrow> texts_kept w w'"
  by (simp add: texts_kept_def)

lemma texts_fewer: "set (held (w_hub w')) \<subseteq> set (held (w_hub w)) \<Longrightarrow> texts_kept w w'"
  by (auto simp: texts_kept_def)

lemma publish_texts: "sendable m \<Longrightarrow> keeps texts_kept (hub_publish m idx)"
  unfolding keeps_def
proof
  fix w
  assume m: "sendable m"
  have "sendable (with_id m n)" for n using m by (cases m) (simp add: sendable_def with_id_def stamped.defs published.defs)
  with publish_held [of "next_budget w" "w_hub w" m idx] show "texts_kept w (snd (hub_publish m idx w))"
    by (auto simp: hub_publish_def texts_kept_def split: prod.split)
qed

lemma health_texts: "keeps texts_kept (set_health loud f)"
  by (auto simp: keeps_def set_health_def Let_def intro!: texts_fewer dest: subsetD [OF broadcast_held])

lemma recorded_texts: "keeps texts_kept (ob_update cfg rec_id chg)"
  unfolding keeps_def
proof (intro allI texts_fewer)
  fix w
  have "stored (map_option (\<lambda>s. snd (save_outbound k s r)) st) = stored st" for k r st
    by (cases st) (simp_all add: stored_def save_outbound_inbox)
  then show "set (held (w_hub (snd (ob_update cfg rec_id chg w)))) \<subseteq> set (held (w_hub w))"
    unfolding set_held by (auto simp: ob_update_def update_def Let_def split: option.split)
qed

interpretation texts: hub_frame texts_kept
  by unfold_locales (auto simp: texts_order publish_texts health_texts recorded_texts intro: texts_same)

section \<open>Runs\<close>

text \<open>What can happen to the hub of a server: the worker runs its cycle, publishes
  any message it was given or handles a line; subscribers come, are handed an event, have it confirmed and leave; the server
  restarts on its disk; everything else leaves the hub alone.\<close>

inductive held_step :: "wcfg \<Rightarrow> worker \<Rightarrow> worker \<Rightarrow> bool" for cfg where
  Cycle: "held_step cfg w (snd (on_worker cfg (run_cycle cfg dev k) w))"
| Published: "held_step cfg w (snd (on_worker cfg (publish_message cfg m idx) w))"
| Line: "held_step cfg w (snd (on_worker cfg (\<lambda>cb. urc_body cfg line cb) w))"
| Subscribed: "held_step cfg w (w\<lparr>w_hub := snd (subscribe after cursor (w_hub w))\<rparr>)"
| Handed: "pop_event sid (w_hub w) = Some (ev, hub) \<Longrightarrow> held_step cfg w (w\<lparr>w_hub := hub\<rparr>)"
| Written: "held_step cfg w (w\<lparr>w_hub := snd (after_write sid ok ev (w_hub w))\<rparr>)"
| Left: "held_step cfg w (w\<lparr>w_hub := unsubscribe sid (w_hub w)\<rparr>)"
| Restarted: "w_hub w' = new_hub n fresh (map_option (\<lambda>st. open_store fresh' (store_disk st)) (hub_store (w_hub w)))
    \<Longrightarrow> held_step cfg w w'"
| Elsewhere: "w_hub w' = w_hub w \<Longrightarrow> held_step cfg w w'"

inductive held_run :: "wcfg \<Rightarrow> worker \<Rightarrow> worker \<Rightarrow> bool" for cfg w where
  Begin: "held_run cfg w w"
| Next: "held_run cfg w w' \<Longrightarrow> held_step cfg w' w'' \<Longrightarrow> held_run cfg w w''"

lemma step_texts: "held_step cfg w w' \<Longrightarrow> texts_kept w w'"
proof (induction rule: held_step.induct)
  case (Cycle w dev k)
  show ?case using texts.cycles.keeps_cycle unfolding keeps_def on_worker_def by blast
next
  case (Published w m idx)
  show ?case using texts.receiving(2) unfolding keeps_def on_worker_def by blast
next
  case (Line w line)
  show ?case using texts.keeps_urc_body [OF texts.keeps_on_urc [of cfg "avail w"], of cfg line] by (simp add: keeps_def on_worker_def)
next
  case (Subscribed w after cursor)
  show ?case by (rule texts_fewer) (use subscribe_held in simp)
next
  case (Handed sid w ev hub)
  then show ?case by (intro texts_fewer) (use pop_held in simp)
next
  case (Written w sid ok ev)
  show ?case by (rule texts_fewer) (use after_write_held in simp)
next
  case (Left w sid)
  show ?case by (rule texts_fewer) (use unsubscribe_held in simp)
next
  case (Restarted w' n fresh fresh' w)
  then show ?case by (intro texts_fewer) (simp add: restart_held)
next
  case (Elsewhere w' w)
  then show ?case by (rule texts_same)
qed

text \<open>C30. No message that cannot be written ever reaches a subscriber, a page of the history or
  the disk: over any run of the worker, the subscribers and restarts, whatever bytes the modem
  sends and however the disk fails, every message that waits in the ring, for a first subscriber,
  in a queue or in a file of the store has a sender, a time and a text that UTF-8 can encode, and
  so has all that a subscriber is given and a history page shows; a writer never raises on it.\<close>

theorem messages_sendable:
  assumes "held_run cfg w w'" "list_all sendable (held (w_hub w))"
  shows "list_all sendable (held (w_hub w'))
    \<and> list_all sendable (replay_list (w_hub w') after cursor)
    \<and> (case hub_store (w_hub w') of None \<Rightarrow> True | Some st \<Rightarrow> list_all sendable (history_inbox st before limit))"
proof -
  from assms have "list_all sendable (held (w_hub w'))"
  proof (induction rule: held_run.induct)
    case (Next w' w'')
    then show ?case using step_texts [OF Next(2)] by (auto simp: texts_kept_def list_all_iff)
  qed
  then show ?thesis
    using replay_held [of "w_hub w'" after cursor] history_held [of "w_hub w'" _ before limit]
    by (auto simp: list_all_iff split: option.split)
qed

text \<open>A message is stored and deleted at the modem, and a subscriber comes.\<close>

definition taken_in :: worker where
  "taken_in = snd (on_worker example_cfg (publish_message example_cfg example_inbound [3])
     (store_worker (open_store [97] empty_disk) deletes))"

definition given_out :: worker where
  "given_out = taken_in\<lparr>w_hub := snd (subscribe (Some 0) (Some [97]) (w_hub taken_in))\<rparr>"

lemma taken_in_ring: "map msg_id (ring (w_hub taken_in)) = [1]"
  unfolding taken_in_def by code_simp

theorem messages_sendable_witness:
  "held (w_hub given_out) \<noteq> [] \<and> list_all sendable (held (w_hub given_out))"
proof -
  let ?w = "store_worker (open_store [97] empty_disk) deletes"
  have "held_run example_cfg ?w given_out" unfolding given_out_def taken_in_def
    by (rule held_run.Next [OF held_run.Next [OF held_run.Begin held_step.Published] held_step.Subscribed])
  moreover have "list_all sendable (held (w_hub ?w))" by code_simp
  ultimately have "list_all sendable (held (w_hub given_out))" by (rule messages_sendable [THEN conjunct1])
  moreover have "ring (w_hub given_out) = ring (w_hub taken_in)" by (simp add: given_out_def subscribe_def Let_def)
  ultimately show ?thesis using taken_in_ring by (auto simp: held_def)
qed

end
