(* ===== verification/Config.thy ===== *)
theory Config
  imports Auth
begin

text \<open>
  Configuration of server and client, \<open>server/gtg_server/config.py\<close> and
  \<open>client/gtg_client/config.py\<close>: the layers default, file and environment, the typed access to
  a value, listen addresses, their resolution to binds, and the refusal of plaintext on
  addresses that are not loopback (\<open>check_plaintext_binds\<close> of \<open>api.py\<close>).  An INI file arrives as
  the items of its section in order; \<open>os.environ\<close> is a list of pairs; \<open>getaddrinfo\<close> is a
  parameter.  Case mapping is that of ASCII.
\<close>

section \<open>Layers\<close>

type_synonym settings = "(pystr \<times> pystr) list"

definition SERVER_DEFAULTS :: settings where
  "SERVER_DEFAULTS = map (\<lambda>(k, v). (str_of k, str_of v))
     [(''SERIAL_PORT'', ''auto''), (''BAUD'', ''115200''), (''SIM_PIN'', ''''), (''SIM_PIN_MAX_TRIES'', ''1''),
      (''LISTEN'', ''localhost:8443''), (''TLS'', ''auto''), (''TLS_CERT'', ''''), (''TLS_KEY'', ''''), (''TLS_SANS'', ''''),
      (''TLS_INSECURE_OK'', ''false''), (''ALLOWED_RECIPIENTS'', ''''), (''DATA_DIR'', ''/var/lib/generic-text-gateway''),
      (''STORE_DIR'', ''''), (''RING_SIZE'', ''100''), (''WEBUI'', ''true''), (''POLL_INTERVAL'', ''15''),
      (''MAX_SUBSCRIBERS'', ''20''), (''SEND_RATE'', ''30/hour''), (''MODESWITCH'', ''true''), (''LOG_LEVEL'', ''info''),
      (''LOG_BODIES'', ''false''), (''CONFIG'', ''/etc/generic-text-gateway/gateway.conf'')]"

definition CLIENT_DEFAULTS :: settings where
  "CLIENT_DEFAULTS = map (\<lambda>(k, v). (str_of k, str_of v))
     [(''SERVER_URL'', ''''), (''SERVER_TOKEN'', ''''), (''SERVER_SEND_TOKEN'', ''''), (''SERVER_PIN_SHA256'', ''''),
      (''SERVER_PIN_TOFU'', ''false''), (''SERVER_CA'', ''''), (''HA_URL'', ''''), (''HA_TOKEN'', ''''),
      (''HA_EVENT'', ''sms_received''), (''HA_SENSOR'', ''sensor.sms_received''), (''LISTEN'', ''localhost:8082''),
      (''BASIC_USER'', ''''), (''BASIC_PASS'', ''''), (''STATE_DIR'', ''/var/lib/generic-text-client''),
      (''LOG_LEVEL'', ''info''), (''LOG_BODIES'', ''false''), (''CONFIG'', ''/etc/generic-text-client/client.conf'')]"

definition SERVER_PREFIX :: pystr where "SERVER_PREFIX = str_of ''GTG_''"
definition CLIENT_PREFIX :: pystr where "CLIENT_PREFIX = str_of ''GTC_''"

definition user_key :: "pystr \<Rightarrow> bool" where
  "user_key k \<longleftrightarrow> py_startswith (ascii_lower k) (str_of ''user_'')"

text \<open>One item of the file, for the server: a principal or a value.\<close>

definition server_item :: "pystr \<times> pystr \<Rightarrow> settings \<times> settings \<Rightarrow> settings \<times> settings" where
  "server_item item st = (case (item, st) of ((k, v), (vals, users)) \<Rightarrow>
     if user_key k then (vals, AList.update (ascii_lower (drop 5 k)) v users)
     else if ascii_upper k \<in> fst ` set vals then (AList.update (ascii_upper k) v vals, users) else (vals, users))"

definition client_item :: "pystr \<times> pystr \<Rightarrow> settings \<Rightarrow> settings" where
  "client_item item vals = (case item of (k, v) \<Rightarrow>
     if ascii_upper k \<in> fst ` set vals then AList.update (ascii_upper k) v vals else vals)"

definition env_layer :: "pystr \<Rightarrow> settings \<Rightarrow> settings \<Rightarrow> settings" where
  "env_layer prefix env vals = map (\<lambda>(k, v). (k, case map_of env (prefix @ k) of Some e \<Rightarrow> e | None \<Rightarrow> v)) vals"

definition env_users :: "settings \<Rightarrow> settings \<Rightarrow> settings" where
  "env_users env users =
     (let p = SERVER_PREFIX @ str_of ''USER_''
      in fold (\<lambda>(k, v) us. if py_startswith k p \<and> length k > length p
            then AList.update (ascii_lower (drop (length p) k)) v us else us) env users)"

text \<open>\<open>files\<close>: for a path the items of the section, \<open>None\<close> when it is no file.\<close>

definition config_items :: "pystr \<Rightarrow> settings \<Rightarrow> settings \<Rightarrow> (pystr \<Rightarrow> settings option) \<Rightarrow> settings" where
  "config_items prefix defaults env files =
     (let path = (case map_of env (prefix @ str_of ''CONFIG'') of
          Some p \<Rightarrow> p | None \<Rightarrow> the (map_of defaults (str_of ''CONFIG'')))
      in if path = [] then [] else (case files path of None \<Rightarrow> [] | Some items \<Rightarrow> items))"

definition server_config :: "settings \<Rightarrow> (pystr \<Rightarrow> settings option) \<Rightarrow> settings \<times> settings" where
  "server_config env files =
     (case fold server_item (config_items SERVER_PREFIX SERVER_DEFAULTS env files) (SERVER_DEFAULTS, []) of
        (vals, users) \<Rightarrow> (env_layer SERVER_PREFIX env vals, env_users env users))"

definition client_config :: "settings \<Rightarrow> (pystr \<Rightarrow> settings option) \<Rightarrow> settings" where
  "client_config env files =
     env_layer CLIENT_PREFIX env (fold client_item (config_items CLIENT_PREFIX CLIENT_DEFAULTS env files) CLIENT_DEFAULTS)"

section \<open>Values\<close>

definition cfg_value :: "settings \<Rightarrow> string \<Rightarrow> pystr" where
  "cfg_value vals key = the (map_of vals (str_of key))"

definition cfg_str :: "settings \<Rightarrow> string \<Rightarrow> pystr" where
  "cfg_str vals key = py_strip (cfg_value vals key)"

definition cfg_int :: "settings \<Rightarrow> string \<Rightarrow> exn + int" where
  "cfg_int vals key = (case py_int (cfg_value vals key) of Some n \<Rightarrow> Inr n | None \<Rightarrow> Inl ValueError)"

definition cfg_bool :: "settings \<Rightarrow> string \<Rightarrow> bool" where
  "cfg_bool vals key \<longleftrightarrow> ascii_lower (cfg_str vals key) \<in> {str_of ''1'', str_of ''true'', str_of ''yes'', str_of ''on''}"

definition cfg_list :: "settings \<Rightarrow> string \<Rightarrow> pystr list" where
  "cfg_list vals key =
     (let raw = cfg_str vals key in if raw = [] then [] else filter (\<lambda>x. x \<noteq> []) (map py_strip (py_split 44 raw)))"

section \<open>Listen addresses\<close>

definition listen_entry :: "pystr \<Rightarrow> exn + pystr \<times> int" where
  "listen_entry entry =
     (let (host, port) =
        (if py_startswith entry [91] then
           (case py_partition 93 (drop 1 entry) of (h, r) \<Rightarrow>
              (h, py_lstrip (\<lambda>c. c = 58) (case r of None \<Rightarrow> [] | Some p \<Rightarrow> p)))
         else (case py_rpartition 58 entry of (h, p) \<Rightarrow> (case h of None \<Rightarrow> [] | Some x \<Rightarrow> x, p)))
      in if host = [] \<or> port = [] then Inl ValueError
         else (case py_int port of None \<Rightarrow> Inl ValueError | Some n \<Rightarrow> Inr (host, n)))"

definition listen_addrs :: "settings \<Rightarrow> exn + (pystr \<times> int) list" where
  "listen_addrs vals = traverse listen_entry (cfg_list vals ''LISTEN'')"

datatype family = Inet | Inet6 | OtherFamily

type_synonym sockaddr = "pystr \<times> int"
type_synonym resolver = "pystr \<Rightarrow> int \<Rightarrow> (family \<times> sockaddr) list option"

definition resolve_binds :: "resolver \<Rightarrow> (pystr \<times> int) list \<Rightarrow> (family \<times> sockaddr) list" where
  "resolve_binds getaddrinfo addrs =
     fold (\<lambda>(host, port) binds.
        case getaddrinfo host port of
          None \<Rightarrow> binds
        | Some infos \<Rightarrow> fold (\<lambda>(fam, sa) bs.
            if fam \<in> {Inet, Inet6} \<and> (fam, sa) \<notin> set bs then bs @ [(fam, sa)] else bs) infos binds)
       addrs []"

definition is_loopback :: "sockaddr \<Rightarrow> bool" where
  "is_loopback sa \<longleftrightarrow> fst sa \<in> {str_of ''127.0.0.1'', str_of ''::1''} \<or> py_startswith (fst sa) (str_of ''127.'')"

text \<open>\<open>RuntimeError\<close> is \<open>OtherError\<close>.\<close>

definition check_plaintext_binds :: "settings \<Rightarrow> (family \<times> sockaddr) list \<Rightarrow> exn + unit" where
  "check_plaintext_binds vals binds =
     (if cfg_str vals ''TLS'' \<noteq> str_of ''off'' \<or> cfg_bool vals ''TLS_INSECURE_OK'' then Inr ()
      else if list_all (\<lambda>(_, sa). is_loopback sa) binds then Inr () else Inl OtherError)"

section \<open>The layers, for any key\<close>

lemma map_of_env_layer:
  "map_of (env_layer prefix env vals) k =
     map_option (\<lambda>v. case map_of env (prefix @ k) of Some e \<Rightarrow> e | None \<Rightarrow> v) (map_of vals k)"
  unfolding env_layer_def by (induction vals) (auto split: option.split)

text \<open>The last item of the file for a key.\<close>

definition last_item :: "(pystr \<Rightarrow> bool) \<Rightarrow> pystr \<Rightarrow> settings \<Rightarrow> pystr option" where
  "last_item skip k items = map_of (rev (map (\<lambda>(x, v). (ascii_upper x, v)) (filter (\<lambda>(x, _). \<not> skip x) items))) k"

lemma last_item_snoc:
  "last_item skip k (items @ [(x, v)]) =
     (if \<not> skip x \<and> ascii_upper x = k then Some v else last_item skip k items)"
  by (simp add: last_item_def)

lemma server_step:
  "server_item (x, v) (vals, us) =
     (if user_key x then (vals, AList.update (ascii_lower (drop 5 x)) v us)
      else if map_of vals (ascii_upper x) \<noteq> None then (AList.update (ascii_upper x) v vals, us) else (vals, us))"
  by (simp add: server_item_def map_of_eq_None_iff)

lemma client_step:
  "client_item (x, v) vals = (if map_of vals (ascii_upper x) \<noteq> None then AList.update (ascii_upper x) v vals else vals)"
  by (simp add: client_item_def map_of_eq_None_iff)

lemma server_file_layer:
  "map_of (fst (fold server_item items (vals, us))) k =
     map_option (\<lambda>d. case last_item user_key k items of Some v \<Rightarrow> v | None \<Rightarrow> d) (map_of vals k)"
proof (induction items arbitrary: k rule: rev_induct)
  case Nil
  show ?case by (simp add: last_item_def option.map_ident)
next
  case (snoc item items)
  obtain x v where i: "item = (x, v)" by (cases item)
  obtain vs us' where f: "fold server_item items (vals, us) = (vs, us')" by fastforce
  have ih: "map_of vs k = map_option (\<lambda>d. case last_item user_key k items of Some v \<Rightarrow> v | None \<Rightarrow> d) (map_of vals k)" for k
    using snoc [of k] f by simp
  show ?case
    by (cases "map_of vals k") (auto simp: f i server_step last_item_snoc update_conv' ih)
qed

lemma client_file_layer:
  "map_of (fold client_item items vals) k =
     map_option (\<lambda>d. case last_item (\<lambda>_. False) k items of Some v \<Rightarrow> v | None \<Rightarrow> d) (map_of vals k)"
proof (induction items arbitrary: k rule: rev_induct)
  case Nil
  show ?case by (simp add: last_item_def option.map_ident)
next
  case (snoc item items)
  obtain x v where i: "item = (x, v)" by (cases item)
  show ?case
    by (cases "map_of vals k") (auto simp: i client_step last_item_snoc update_conv' snoc)
qed

text \<open>C35. Environment over file over default, for server and client: a key exists exactly when it
  has a default; its value is the environment's when that is set (also to the empty text), else
  that of the last item of the file that names it in any case, else the default.  An item of the
  server's file whose key begins with \<open>user_\<close> never sets a value.\<close>

theorem config_layers:
  "map_of (fst (server_config env files)) k =
     map_option (\<lambda>d. case map_of env (SERVER_PREFIX @ k) of Some e \<Rightarrow> e
       | None \<Rightarrow> (case last_item user_key k (config_items SERVER_PREFIX SERVER_DEFAULTS env files) of Some v \<Rightarrow> v | None \<Rightarrow> d))
       (map_of SERVER_DEFAULTS k)
   \<and> map_of (client_config env files) k =
     map_option (\<lambda>d. case map_of env (CLIENT_PREFIX @ k) of Some e \<Rightarrow> e
       | None \<Rightarrow> (case last_item (\<lambda>_. False) k (config_items CLIENT_PREFIX CLIENT_DEFAULTS env files) of Some v \<Rightarrow> v | None \<Rightarrow> d))
       (map_of CLIENT_DEFAULTS k)"
proof
  let ?items = "config_items SERVER_PREFIX SERVER_DEFAULTS env files"
  obtain vs us where f: "fold server_item ?items (SERVER_DEFAULTS, []) = (vs, us)" by fastforce
  from server_file_layer [of ?items SERVER_DEFAULTS "[]"] f
  have "map_of vs k = map_option (\<lambda>d. case last_item user_key k ?items of Some v \<Rightarrow> v | None \<Rightarrow> d) (map_of SERVER_DEFAULTS k)" by simp
  then show "map_of (fst (server_config env files)) k =
     map_option (\<lambda>d. case map_of env (SERVER_PREFIX @ k) of Some e \<Rightarrow> e
       | None \<Rightarrow> (case last_item user_key k ?items of Some v \<Rightarrow> v | None \<Rightarrow> d)) (map_of SERVER_DEFAULTS k)"
    by (simp add: server_config_def f map_of_env_layer option.map_comp comp_def)
next
  show "map_of (client_config env files) k =
     map_option (\<lambda>d. case map_of env (CLIENT_PREFIX @ k) of Some e \<Rightarrow> e
       | None \<Rightarrow> (case last_item (\<lambda>_. False) k (config_items CLIENT_PREFIX CLIENT_DEFAULTS env files) of Some v \<Rightarrow> v | None \<Rightarrow> d))
       (map_of CLIENT_DEFAULTS k)"
    by (simp add: client_config_def map_of_env_layer client_file_layer option.map_comp comp_def)
qed


section \<open>Listen addresses, printed and parsed\<close>

definition print_listen :: "pystr \<times> nat \<Rightarrow> pystr" where
  "print_listen a = (if 58 \<in> set (fst a) then [91] @ fst a @ [93, 58] @ nat_dec (snd a) else fst a @ [58] @ nat_dec (snd a))"

lemma digit_facts: "58 \<notin> set (nat_dec n)" "nat_dec n \<noteq> []" "py_lstrip (\<lambda>c. c = 58) (58 # nat_dec n) = nat_dec n"
proof -
  have d: "list_all ascii_digit (nat_dec n)" by (rule nat_dec_digits)
  then show no: "58 \<notin> set (nat_dec n)" by (auto simp: list_all_iff ascii_digit_def)
  show ne: "nat_dec n \<noteq> []" by (subst nat_dec.simps) simp
  from no ne show "py_lstrip (\<lambda>c. c = 58) (58 # nat_dec n) = nat_dec n"
    by (cases "nat_dec n") (auto simp: py_lstrip_def)
qed

text \<open>IPv6 hosts in brackets, others bare: what is printed is parsed back.\<close>

lemma listen_round_trip:
  assumes "host \<noteq> []" "91 \<notin> set host" "93 \<notin> set host"
  shows "listen_entry (print_listen (host, n)) = Inr (host, int n)"
proof (cases "58 \<in> set host")
  case True
  have "py_partition 93 (host @ 93 # 58 # nat_dec n) = (host, Some (58 # nat_dec n))"
    using assms(3) by simp
  with True assms(1) digit_facts [of n] show ?thesis
    by (simp add: print_listen_def listen_entry_def py_startswith_def)
next
  case False
  have "\<not> py_startswith (host @ 58 # nat_dec n) [91]"
    using assms by (cases host) (auto simp: py_startswith_def)
  moreover have "py_rpartition 58 (host @ 58 # nat_dec n) = (Some host, nat_dec n)"
    using digit_facts(1) by (simp add: py_rpartition_def)
  ultimately show ?thesis using False assms(1) digit_facts(2) [of n]
    by (simp add: print_listen_def listen_entry_def)
qed

text \<open>Every bind once, and only of the two families.\<close>

lemma binds_once:
  "distinct (resolve_binds g addrs) \<and> fst ` set (resolve_binds g addrs) \<subseteq> {Inet, Inet6}"
proof -
  define add :: "(family \<times> sockaddr) \<Rightarrow> (family \<times> sockaddr) list \<Rightarrow> (family \<times> sockaddr) list" where
    "add = (\<lambda>(fam, sa) bs. if fam \<in> {Inet, Inet6} \<and> (fam, sa) \<notin> set bs then bs @ [(fam, sa)] else bs)"
  define ok where "ok = (\<lambda>bs :: (family \<times> sockaddr) list. distinct bs \<and> fst ` set bs \<subseteq> {Inet, Inet6})"
  have one: "ok (add x bs)" if "ok bs" for x bs using that by (cases x) (auto simp: add_def ok_def)
  have inner: "ok (fold add infos bs)" if "ok bs" for infos bs
    using that one by (induction infos arbitrary: bs) simp_all
  have "ok (fold (\<lambda>(host, port) binds. case g host port of None \<Rightarrow> binds | Some infos \<Rightarrow> fold add infos binds) addrs bs)"
    if "ok bs" for bs
    using that inner by (induction addrs arbitrary: bs) (auto split: option.splits)
  moreover have "resolve_binds g addrs =
    fold (\<lambda>(host, port) binds. case g host port of None \<Rightarrow> binds | Some infos \<Rightarrow> fold add infos binds) addrs []"
    unfolding resolve_binds_def add_def by (rule refl)
  ultimately show ?thesis by (simp add: ok_def)
qed

end
