(* ===== verification/Client_Loop.thy ===== *)
theory Client_Loop
  imports Relay Delivery Config Api
begin

text \<open>
  The client at work, \<open>client/gtg_client/relay.py\<close>: the requests of \<open>HAPoster\<close> and the loop of
  \<open>run_inbound\<close> over its connections, and the server's end of a subscription with it, the
  events \<open>_subscribe\<close> of \<open>server/gtg_server/api.py\<close> writes for a subscriber's queue.  What the
  network does is given per connection; what Home Assistant and the disk do, per event.  The end of
  the list of connections is the stop event.
\<close>

section \<open>Requests to Home Assistant\<close>

record ha =
  ha_url :: pystr
  ha_token :: pystr
  ha_event :: pystr
  ha_sensor :: pystr

definition ha_poster :: "settings \<Rightarrow> ha" where
  "ha_poster vals = \<lparr>ha_url = py_rstrip (\<lambda>c. c = 47) (cfg_str vals ''HA_URL''), ha_token = cfg_str vals ''HA_TOKEN'',
     ha_event = cfg_str vals ''HA_EVENT'', ha_sensor = cfg_str vals ''HA_SENSOR''\<rparr>"

record ha_request =
  hr_url :: pystr
  hr_bearer :: pystr
  hr_json :: json

definition ha_post :: "ha \<Rightarrow> pystr \<Rightarrow> json \<Rightarrow> ha_request" where
  "ha_post h path payload =
     \<lparr>hr_url = ha_url h @ path, hr_bearer = str_of ''Bearer '' @ ha_token h, hr_json = payload\<rparr>"

definition json_text :: "pystr option \<Rightarrow> json" where
  "json_text v = (case v of None \<Rightarrow> JNull | Some s \<Rightarrow> JStr s)"

definition json_obj :: "(string \<times> json) list \<Rightarrow> json" where
  "json_obj kvs = JObj (map (\<lambda>(k, v). (str_of k, v)) kvs)"

definition id_text :: "cmsg \<Rightarrow> json" where
  "id_text msg = JStr (case m_id msg of None \<Rightarrow> [] | Some i \<Rightarrow> int_dec i)"

definition received_text :: "cmsg \<Rightarrow> json" where
  "received_text msg = json_text (if text_given (m_scts msg) then m_scts msg else m_received msg)"

definition event_post :: "ha \<Rightarrow> cmsg \<Rightarrow> ha_request" where
  "event_post h msg = ha_post h (str_of ''/api/events/'' @ ha_event h) (json_obj
     [(''event'', JStr (str_of ''sms:received'')), (''deviceId'', JStr (str_of ''generic-text-gateway'')),
      (''payload'', json_obj
        [(''messageId'', id_text msg), (''phoneNumber'', json_text (m_sender msg)), (''sender'', json_text (m_sender msg)),
         (''message'', json_text (m_text msg)), (''receivedAt'', received_text msg),
         (''partial'', JBool (m_partial msg)), (''simNumber'', JNull)])])"

definition sensor_post :: "ha \<Rightarrow> cmsg \<Rightarrow> ha_request" where
  "sensor_post h msg = ha_post h (str_of ''/api/states/'' @ ha_sensor h) (json_obj
     [(''state'', JStr (take 255 (or_empty (m_text msg)))),
      (''attributes'', json_obj
        [(''sender'', json_text (m_sender msg)), (''message'', json_text (m_text msg)),
         (''received_at'', received_text msg), (''message_id'', id_text msg),
         (''friendly_name'', JStr (str_of ''SMS received'')), (''icon'', JStr (str_of ''mdi:message-text''))])])"

definition gap_post :: "ha \<Rightarrow> ha_request" where
  "gap_post h = ha_post h (str_of ''/api/events/'' @ ha_event h @ str_of ''_gap'') (JObj [])"

text \<open>The requests of one \<open>fire\<close>: the event until it is accepted or given up, then the sensor.\<close>

fun fire_posts :: "ha \<Rightarrow> cmsg \<Rightarrow> (outcome \<times> bool) list \<Rightarrow> ha_request list" where
  "fire_posts h msg [] = []"
| "fire_posts h msg ((res, arrived) # outs) = event_post h msg #
     (if res = Accepted then [sensor_post h msg] else if retried res then fire_posts h msg outs else [])"

section \<open>The events of a connection\<close>

text \<open>The environment: \<open>sha256\<close>, \<open>json.loads\<close> of a greeting and of a message, and, for the
  \<open>n\<close>-th event handled, the outcomes of the POSTs and of the two saves.\<close>

record relay_env =
  re_digest :: "pybytes \<Rightarrow> pystr"
  re_hello :: "pystr \<Rightarrow> exn + pystr option"
  re_load :: "pystr \<Rightarrow> exn + cmsg"
  re_ha :: ha
  re_outs :: "nat \<Rightarrow> (outcome \<times> bool) list"
  re_mark :: "nat \<Rightarrow> bool"
  re_advance :: "nat \<Rightarrow> bool"

record relay_loop =
  lp_client :: client
  lp_backoff :: nat
  lp_count :: nat
  lp_log :: "(sse_event \<times> relay_action) list"
  lp_posts :: "ha_request list"
  lp_cursors :: "(int \<times> pystr) option list"
  lp_waits :: "nat list"
  lp_firing :: bool

definition event_requests :: "relay_env \<Rightarrow> nat \<Rightarrow> sse_event \<Rightarrow> client \<Rightarrow> ha_request list" where
  "event_requests env n ev c =
     (if ev_kind ev = str_of ''gap'' then [gap_post (re_ha env)]
      else if ev_kind ev = str_of ''message'' then
        (case bind_exn (re_load env (ev_data ev)) (\<lambda>msg. bind_exn (client_hash (re_digest env) msg) (\<lambda>h. Inr (msg, h))) of
           Inl _ \<Rightarrow> []
         | Inr (msg, h) \<Rightarrow>
             if seen h c \<or> fst (mark (re_mark env n) h c) \<noteq> Inr () then [] else fire_posts (re_ha env) msg (re_outs env n))
      else [])"

fun handle_events :: "relay_env \<Rightarrow> sse_event list \<Rightarrow> relay_loop \<Rightarrow> (exn + unit) \<times> relay_loop" where
  "handle_events env [] s = (Inr (), s)"
| "handle_events env (ev # evs) s =
     (let n = lp_count s;
          (r, c) = handle_event (re_digest env) (re_hello env) (re_load env) (re_outs env n) (re_mark env n) (re_advance env n)
            ev (lp_client s);
          s1 = s\<lparr>lp_client := c, lp_count := n + 1, lp_posts := lp_posts s @ event_requests env n ev (lp_client s)\<rparr>
      in case r of
           Inl e \<Rightarrow> (Inl e, s1)
         | Inr a \<Rightarrow>
             (let s2 = s1\<lparr>lp_log := lp_log s @ [(ev, a)]\<rparr>
              in case a of
                   Message Stuck k \<Rightarrow> (Inr (), s2\<lparr>lp_firing := True\<rparr>)
                 | _ \<Rightarrow> handle_events env evs s2))"

text \<open>The lines a connection yields: one that breaks loses what was read of its last line.\<close>

definition stream_lines :: "bool \<Rightarrow> pybytes \<Rightarrow> pybytes list" where
  "stream_lines broken bs = (if broken then filter (\<lambda>l. last l = 10) (read_lines bs) else read_lines bs)"

definition stream_events :: "bool \<Rightarrow> pybytes \<Rightarrow> sse_event list" where
  "stream_events broken bs = sse_loop sse_empty (stream_lines broken bs)"

section \<open>The loop\<close>

text \<open>\<open>Unreachable\<close>: opening or the request raises; \<open>Response\<close>: the status, the bytes of the body
  and whether it ended in an exception.\<close>

datatype connection = Unreachable | Response nat pybytes bool

definition lost :: "relay_loop \<Rightarrow> relay_loop" where
  "lost s = s\<lparr>lp_waits := lp_waits s @ [lp_backoff s], lp_backoff := next_backoff (lp_backoff s)\<rparr>"

definition connect_turn :: "relay_env \<Rightarrow> connection \<Rightarrow> relay_loop \<Rightarrow> relay_loop" where
  "connect_turn env conn s =
     (case conn of
        Unreachable \<Rightarrow> lost s
      | Response status bs broken \<Rightarrow>
          (let s1 = s\<lparr>lp_cursors := lp_cursors s @ [subscribe_cursor (lp_client s)]\<rparr>
           in if status \<noteq> 200 then lost s1
              else (case handle_events env (stream_events broken bs) (s1\<lparr>lp_backoff := 2000\<rparr>) of
                  (Inl _, s2) \<Rightarrow> lost s2
                | (Inr _, s2) \<Rightarrow> if broken \<and> \<not> lp_firing s2 then lost s2 else s2)))"

fun run_inbound :: "relay_env \<Rightarrow> connection list \<Rightarrow> relay_loop \<Rightarrow> relay_loop" where
  "run_inbound env [] s = s"
| "run_inbound env (conn # conns) s =
     (if lp_firing s then s else run_inbound env conns (connect_turn env conn s))"

definition start_loop :: "client \<Rightarrow> relay_loop" where
  "start_loop c = \<lparr>lp_client = c, lp_backoff = 2000, lp_count = 0, lp_log = [], lp_posts = [], lp_cursors = [],
     lp_waits = [], lp_firing = False\<rparr>"

section \<open>The server's end\<close>

text \<open>\<open>json.dumps\<close> of what the server writes.\<close>

record 'h dumps =
  du_hello :: "pystr \<Rightarrow> bool \<Rightarrow> pystr"
  du_message :: "published \<Rightarrow> pystr"
  du_health :: "'h \<Rightarrow> pystr"
  du_gap :: pystr

definition hello_item :: "'h dumps \<Rightarrow> 'h hub \<Rightarrow> item" where
  "hello_item du hub = Item (str_of ''hello'') None (du_hello du (stream_id hub) (hub_store hub \<noteq> None))"

definition event_item :: "'h dumps \<Rightarrow> 'h event \<Rightarrow> item" where
  "event_item du ev = (case ev of
     MessageEv m \<Rightarrow> Item (str_of ''message'') (Some (msg_id m)) (du_message du m)
   | GapEv \<Rightarrow> Item (str_of ''gap'') None (du_gap du)
   | HealthEv h \<Rightarrow> Item (str_of ''health'') None (du_health du h))"

text \<open>The queue a new subscriber starts with.\<close>

definition first_queue :: "'h hub \<Rightarrow> (int \<times> pystr) option \<Rightarrow> 'h event list" where
  "first_queue hub cursor =
     (case subscribe (map_option fst cursor) (map_option snd cursor) hub of (sid, hub') \<Rightarrow>
        (case map_of (subs hub') sid of None \<Rightarrow> [] | Some s \<Rightarrow> sub_queue s))"

text \<open>Heartbeats between the events: so many before each.\<close>

fun with_beats :: "nat list \<Rightarrow> item list \<Rightarrow> item list" where
  "with_beats [] is = is"
| "with_beats (n # ns) [] = replicate n Beat"
| "with_beats (n # ns) (i # is) = replicate n Beat @ i # with_beats ns is"

text \<open>One connection between the two: the hub at the subscription, what it offers the subscriber
  afterwards, the heartbeats, the number of bytes that arrive and how the connection ends.\<close>

record 'h link =
  ln_hub :: "'h hub"
  ln_live :: "'h event list"
  ln_beats :: "nat list"
  ln_cut :: nat
  ln_broken :: bool

definition served :: "'h dumps \<Rightarrow> 'h link \<Rightarrow> (int \<times> pystr) option \<Rightarrow> item list" where
  "served du l cursor = hello_item du (ln_hub l)
     # with_beats (ln_beats l) (map (event_item du) (first_queue (ln_hub l) cursor @ ln_live l))"

definition link_bytes :: "'h dumps \<Rightarrow> 'h link \<Rightarrow> (int \<times> pystr) option \<Rightarrow> pybytes" where
  "link_bytes du l cursor = take (ln_cut l) (case write_items (served du l cursor) of Inl _ \<Rightarrow> [] | Inr b \<Rightarrow> b)"

fun linked_run :: "'h dumps \<Rightarrow> relay_env \<Rightarrow> 'h link list \<Rightarrow> relay_loop \<Rightarrow> relay_loop" where
  "linked_run du env [] s = s"
| "linked_run du env (l # ls) s =
     linked_run du env ls
       (run_inbound env [Response 200 (link_bytes du l (subscribe_cursor (lp_client s))) (ln_broken l)] s)"

section \<open>The requests of a message\<close>

lemma fire_posts_shape:
  "\<exists>k. fire_posts h msg outs = replicate k (event_post h msg)
     @ (if fst (fire outs) = Fired then [sensor_post h msg] else []) \<and> snd (fire outs) \<le> k"
proof (induction outs)
  case (Cons t outs)
  obtain res arrived where t: "t = (res, arrived)" by (cases t)
  from Cons obtain k where k: "fire_posts h msg outs = replicate k (event_post h msg)
     @ (if fst (fire outs) = Fired then [sensor_post h msg] else [])" "snd (fire outs) \<le> k" by blast
  show ?case
  proof (cases "retried res")
    case True
    then have "fire (t # outs) = (fst (fire outs), (if arrived then 1 else 0) + snd (fire outs))"
      by (auto simp: t retried_def split: prod.split)
    with True k show ?thesis by (intro exI [of _ "Suc k"]) (auto simp: t retried_def)
  next
    case False
    then show ?thesis by (intro exI [of _ 1]) (cases res; simp add: t retried_def)
  qed
qed simp

end
