(* ===== verification/Client_Follow.thy ===== *)
theory Client_Follow
  imports Client_Loop
begin

text \<open>
  What the client makes of a server's stream: what arrives of a stream that is cut, what the loop
  does with the server's events, and, over a series of connections to a server with a store, that
  the client handles the server's log from its cursor on, each message once and in order.
\<close>

section \<open>What arrives of a stream that is cut\<close>

lemma items_events_append: "items_events (a @ b) = items_events a @ items_events b"
  by (induction a rule: items_events.induct) simp_all

lemma heartbeat_cut: "k < length heartbeat \<Longrightarrow> sse_events (take k heartbeat) = []"
proof -
  have h: "heartbeat = [58, 32, 104, 98, 10, 10]" by code_simp
  assume "k < length heartbeat"
  then have "k \<in> {0, 1, 2, 3, 4, 5}" unfolding h by auto
  moreover have "\<forall>k \<in> {0, 1, 2, 3, 4, 5}. sse_events (take k heartbeat) = []" by code_simp
  ultimately show ?thesis by blast
qed

lemma write_items_cut:
  assumes "write_items is = Inr b" "\<forall>it \<in> set is. item_ok it"
  shows "\<exists>j \<le> length is. sse_events (take k b) = items_events (take j is) \<and> (length b \<le> k \<longrightarrow> j = length is)"
  using assms
proof (induction "is" arbitrary: b k rule: write_items.induct)
  case 1
  then show ?case by (simp add: sse_events_def)
next
  case (2 "is")
  then obtain r where r: "write_items is = Inr r" "b = heartbeat @ r" by (auto simp: bind_exn_eq_Inr)
  show ?case
  proof (cases "k < length heartbeat")
    case True
    then show ?thesis using heartbeat_cut [OF True] by (intro exI [of _ 0]) (simp add: r(2))
  next
    case False
    have "\<forall>it \<in> set is. item_ok it" using "2.prems"(2) by simp
    from "2.IH" [OF r(1) this, of "k - length heartbeat"]
    obtain j where j: "j \<le> length is" "sse_events (take (k - length heartbeat) r) = items_events (take j is)"
      "length r \<le> k - length heartbeat \<longrightarrow> j = length is" by blast
    have "sse_events (take k b) = items_events (take (Suc j) (Beat # is))"
      using False j(2) by (simp add: r(2) heartbeat_events)
    moreover have "length b \<le> k \<longrightarrow> Suc j = length (Beat # is)" using j(3) by (simp add: r(2))
    ultimately show ?thesis using j(1) by (intro exI [of _ "Suc j"]) simp
  qed
next
  case (3 ev i p "is")
  then obtain x r where r: "sse_write ev i p = Inr x" "write_items is = Inr r" "b = x @ r" by (auto simp: bind_exn_eq_Inr)
  have ok: "plain_text ev" "plain_text p" "\<forall>it \<in> set is. item_ok it" using "3.prems"(2) by (auto simp: item_ok_def)
  show ?case
  proof (cases "k < length x")
    case True
    then have "x = take k x @ x ! k # drop (Suc k) x" by (rule id_take_nth_drop)
    with r(1) have "sse_write ev i p = Inr (take k x @ x ! k # drop (Suc k) x)" by simp
    from sse_write_cut [OF this ok(1,2)] True show ?thesis by (intro exI [of _ 0]) (simp add: r(3))
  next
    case False
    from "3.IH" [OF r(2) ok(3), of "k - length x"]
    obtain j where j: "j \<le> length is" "sse_events (take (k - length x) r) = items_events (take j is)"
      "length r \<le> k - length x \<longrightarrow> j = length is" by blast
    have "sse_events (take k b) = items_events (take (Suc j) (Item ev i p # is))"
      using False j(2) sse_write_events [OF r(1) ok(1,2)] by (simp add: r(3))
    moreover have "length b \<le> k \<longrightarrow> Suc j = length (Item ev i p # is)" using False j(3) by (simp add: r(3))
    ultimately show ?thesis using j(1) by (intro exI [of _ "Suc j"]) simp
  qed
qed

text \<open>Without its unfinished last line a stream is a shorter cut of it.\<close>

lemma read_lines_not_Nil: "l \<in> set (read_lines bs) \<Longrightarrow> l \<noteq> []"
  by (induction bs arbitrary: l) (auto split: if_splits list.splits)

lemma whole_lines:
  "\<exists>k \<le> length bs. filter (\<lambda>l. last l = 10) (read_lines bs) = read_lines (take k bs)
     \<and> (read_lines bs \<noteq> [] \<and> last (hd (read_lines bs)) \<noteq> 10 \<longrightarrow> k = 0)"
proof (induction bs)
  case Nil
  then show ?case by simp
next
  case (Cons b bs)
  then obtain k where k: "k \<le> length bs" "filter (\<lambda>l. last l = 10) (read_lines bs) = read_lines (take k bs)"
    "read_lines bs \<noteq> [] \<and> last (hd (read_lines bs)) \<noteq> 10 \<longrightarrow> k = 0" by blast
  show ?case
  proof (cases "b = 10")
    case True
    then show ?thesis using k by (intro exI [of _ "Suc k"]) simp
  next
    case False
    show ?thesis
    proof (cases "read_lines bs")
      case Nil
      then show ?thesis using False by (intro exI [of _ 0]) simp
    next
      case (Cons l ls)
      then have l: "l \<noteq> []" using read_lines_not_Nil [of l bs] by simp
      show ?thesis
      proof (cases "last l = 10")
        case True
        with Cons k(2) have "read_lines (take k bs) = l # filter (\<lambda>l. last l = 10) ls" by simp
        with False True Cons k(1) l show ?thesis by (intro exI [of _ "Suc k"]) simp
      next
        case no: False
        with Cons k(2,3) have "filter (\<lambda>l. last l = 10) ls = []" by simp
        with False no Cons l show ?thesis by (intro exI [of _ 0]) simp
      qed
    qed
  qed
qed

lemma stream_events_cut: "\<exists>k' \<le> k. stream_events broken (take k b) = sse_events (take k' b) \<and> (\<not> broken \<longrightarrow> k' = k)"
proof (cases broken)
  case True
  obtain m where m: "m \<le> length (take k b)" "filter (\<lambda>l. last l = 10) (read_lines (take k b)) = read_lines (take m (take k b))"
    using whole_lines [of "take k b"] by blast
  then have "stream_events broken (take k b) = sse_events (take (min m k) b)"
    using True by (simp add: stream_events_def stream_lines_def sse_events_def)
  then show ?thesis using True by (intro exI [of _ "min m k"]) simp
next
  case False
  then show ?thesis by (auto simp: stream_events_def stream_lines_def sse_events_def)
qed

lemma items_events_beats: "items_events (replicate n Beat @ is) = items_events is"
  by (induction n) simp_all

lemma items_events_Cons: "items_events (i # is) = items_events [i] @ items_events is"
  using items_events_append [of "[i]" "is"] by simp

lemma with_beats_events: "items_events (with_beats ns is) = items_events is"
proof (induction ns "is" rule: with_beats.induct)
  case (2 n ns)
  then show ?case using items_events_beats [of n "[]"] by simp
next
  case (3 n ns i "is")
  then show ?case
    using items_events_Cons [of i "with_beats ns is"] items_events_Cons [of i "is"] by (simp add: items_events_beats)
qed simp

lemma items_events_take: "\<exists>n \<le> length (items_events is). items_events (take j is) = take n (items_events is)"
proof -
  have "items_events is = items_events (take j is) @ items_events (drop j is)"
    by (metis append_take_drop_id items_events_append)
  then show ?thesis by (intro exI [of _ "length (items_events (take j is))"]) simp
qed

section \<open>The server's events at the client\<close>

definition to_cmsg :: "published \<Rightarrow> cmsg" where
  "to_cmsg m = \<lparr>m_id = Some (msg_id m), m_sender = Some (in_sender m), m_scts = Some (in_scts m),
     m_text = Some (in_text m), m_received = Some (received_at m), m_partial = in_partial m, m_hash = Some (msg_hash m)\<rparr>"

text \<open>What is asked of the environment: \<open>json.loads\<close> undoes \<open>json.dumps\<close> on what the server writes,
  whose texts are single lines; messages carry a hash; saves succeed; and every POST of an event is
  accepted in the end, after attempts that were refused before they arrived.\<close>

definition json_line :: "pystr \<Rightarrow> bool" where
  "json_line s \<longleftrightarrow> plain_text s \<and> scalar_text s"

definition wire_ok :: "'h dumps \<Rightarrow> relay_env \<Rightarrow> pystr \<Rightarrow> published list \<Rightarrow> bool" where
  "wire_ok du env sid ms \<longleftrightarrow>
     (\<forall>b. json_line (du_hello du sid b) \<and> re_hello env (du_hello du sid b) = Inr (Some sid))
     \<and> (\<forall>m \<in> set ms. json_line (du_message du m) \<and> re_load env (du_message du m) = Inr (to_cmsg m) \<and> msg_hash m \<noteq> [])
     \<and> (\<forall>h. json_line (du_health du h)) \<and> json_line (du_gap du)"

definition smooth :: "relay_env \<Rightarrow> bool" where
  "smooth env \<longleftrightarrow> (\<forall>n. re_mark env n \<and> re_advance env n
     \<and> (\<exists>tries. re_outs env n = tries @ [(Accepted, True)] \<and> (\<forall>(res, arrived) \<in> set tries. retried res \<and> \<not> arrived)))"

definition wire_event :: "'h dumps \<Rightarrow> 'h event \<Rightarrow> sse_event" where
  "wire_event du ev = hd (items_events [event_item du ev])"

definition is_message :: "sse_event \<Rightarrow> bool" where
  "is_message ev \<longleftrightarrow> ev_kind ev = str_of ''message''"

definition handled_messages :: "relay_loop \<Rightarrow> sse_event list" where
  "handled_messages s = filter is_message (map fst (lp_log s))"

definition handled_well :: "relay_loop \<Rightarrow> bool" where
  "handled_well s \<longleftrightarrow> (\<forall>(ev, a) \<in> set (lp_log s). is_message ev \<longrightarrow> a \<in> {Message Skipped 0, Message Delivered 1})"

text \<open>The client follows the stream \<open>sid\<close>, at a cursor.\<close>

definition following :: "pystr \<Rightarrow> relay_loop \<Rightarrow> bool" where
  "following sid s \<longleftrightarrow> client_ok (lp_client s) \<and> cs_stream (lp_client s) = Some sid \<and> \<not> lp_firing s \<and> handled_well s"

lemma kinds:
  "str_of ''message'' \<noteq> str_of ''hello''" "str_of ''message'' \<noteq> str_of ''gap''" "str_of ''message'' \<noteq> str_of ''health''"
  "str_of ''gap'' \<noteq> str_of ''hello''" "str_of ''health'' \<noteq> str_of ''hello''" "str_of ''health'' \<noteq> str_of ''gap''"
  "plain_text (str_of ''message'')" "plain_text (str_of ''hello'')" "plain_text (str_of ''gap'')" "plain_text (str_of ''health'')"
  by code_simp+

lemmas kind_simps = kinds(1-6) kinds(1-6) [symmetric]

lemma wire_event_simps:
  "wire_event du (MessageEv m) = \<lparr>ev_kind = str_of ''message'', ev_data = du_message du m, ev_id = Some (int_dec (msg_id m))\<rparr>"
  "wire_event du GapEv = \<lparr>ev_kind = str_of ''gap'', ev_data = du_gap du, ev_id = None\<rparr>"
  "wire_event du (HealthEv h) = \<lparr>ev_kind = str_of ''health'', ev_data = du_health du h, ev_id = None\<rparr>"
  by (simp_all add: wire_event_def event_item_def)

lemma items_events_wire: "items_events (map (event_item du) evs) = map (wire_event du) evs"
  by (induction evs) (simp_all add: wire_event_simps event_item_def split: event.split)

lemma smooth_fires: "smooth env \<Longrightarrow> re_mark env n \<and> re_advance env n \<and> fire (re_outs env n) = (Fired, 1)"
proof -
  assume "smooth env"
  then obtain tries where t: "re_mark env n" "re_advance env n" "re_outs env n = tries @ [(Accepted, True)]"
    "\<forall>(res, arrived) \<in> set tries. retried res \<and> \<not> arrived" unfolding smooth_def by blast
  show ?thesis using fire_accepted [OF t(4)] t(1-3) by simp
qed

lemma handle_wire_message:
  assumes "smooth env" "wire_ok du env sid ms" "m \<in> set ms" "client_ok c"
  shows "\<exists>r k c'. handle_event (re_digest env) (re_hello env) (re_load env) (re_outs env n) (re_mark env n) (re_advance env n)
      (wire_event du (MessageEv m)) c = (Inr (Message r k), c')
    \<and> (r = Skipped \<and> k = 0 \<or> r = Delivered \<and> k = 1)
    \<and> client_ok c' \<and> cs_stream c' = cs_stream c \<and> cs_last c' = Some (msg_id m)"
proof -
  note sm = smooth_fires [OF assms(1), of n]
  have w: "re_load env (du_message du m) = Inr (to_cmsg m)" "client_hash (re_digest env) (to_cmsg m) = Inr (msg_hash m)"
    using assms(2,3) by (auto simp: wire_ok_def client_hash_def to_cmsg_def text_given_def)
  have "\<exists>r k c'. handle_message (re_digest env) (re_outs env n) True True (to_cmsg m) c = (r, k, c')
      \<and> (r = Skipped \<and> k = 0 \<or> r = Delivered \<and> k = 1)
      \<and> client_ok c' \<and> cs_stream c' = cs_stream c \<and> cs_last c' = m_id (to_cmsg m)"
  proof (cases "seen (msg_hash m) c")
    case True
    from handle_seen [OF assms(4) w(2) True, of "re_outs env n"] show ?thesis by blast
  next
    case False
    from handle_new [OF assms(4) w(2) False, of "re_outs env n"] sm show ?thesis by blast
  qed
  then obtain r k c' where h: "handle_message (re_digest env) (re_outs env n) True True (to_cmsg m) c = (r, k, c')"
    "r = Skipped \<and> k = 0 \<or> r = Delivered \<and> k = 1"
    "client_ok c'" "cs_stream c' = cs_stream c" "cs_last c' = Some (msg_id m)"
    by (auto simp: to_cmsg_def)
  have mark: "re_mark env n = True" "re_advance env n = True" using sm by simp_all
  have "handle_event (re_digest env) (re_hello env) (re_load env) (re_outs env n) (re_mark env n) (re_advance env n)
      (wire_event du (MessageEv m)) c = (Inr (Message r k), c')"
    using h(2) by (auto simp: handle_event_def wire_event_simps kind_simps w(1) mark h(1))
  with h(2-5) show ?thesis by blast
qed

lemma handle_events_wire:
  assumes "smooth env" "wire_ok du env sid ms" "set (event_msgs evs) \<subseteq> set ms" "following sid s"
  shows "\<exists>s'. handle_events env (map (wire_event du) evs) s = (Inr (), s') \<and> following sid s'
    \<and> handled_messages s' = handled_messages s @ map (\<lambda>m. wire_event du (MessageEv m)) (event_msgs evs)
    \<and> cs_last (lp_client s') = (if event_msgs evs = [] then cs_last (lp_client s) else Some (msg_id (last (event_msgs evs))))"
  using assms(3,4)
proof (induction evs arbitrary: s)
  case Nil
  then show ?case by simp
next
  case (Cons ev evs)
  let ?n = "lp_count s" and ?c = "lp_client s"
  let ?h = "handle_event (re_digest env) (re_hello env) (re_load env) (re_outs env ?n) (re_mark env ?n) (re_advance env ?n)
      (wire_event du ev) ?c"
  obtain a c' where h: "?h = (Inr a, c')" "client_ok c'" "cs_stream c' = Some sid"
    and a: "\<And>r k. a = Message r k \<Longrightarrow> r = Skipped \<and> k = 0 \<or> r = Delivered \<and> k = 1"
    and m: "case ev of MessageEv m \<Rightarrow> (\<exists>r k. a = Message r k) \<and> cs_last c' = Some (msg_id m)
      | _ \<Rightarrow> cs_last c' = cs_last ?c"
  proof (cases ev)
    case (MessageEv m)
    with Cons.prems(1) have "m \<in> set ms" by simp
    from handle_wire_message [OF assms(1,2) this, of ?c ?n] Cons.prems(2) that MessageEv show ?thesis
      by (fastforce simp: following_def)
  qed (use Cons.prems(2) that in \<open>auto simp: handle_event_def wire_event_simps kind_simps following_def\<close>)
  define s2 where "s2 = s\<lparr>lp_client := c', lp_count := ?n + 1,
    lp_posts := lp_posts s @ event_requests env ?n (wire_event du ev) ?c, lp_log := lp_log s @ [(wire_event du ev, a)]\<rparr>"
  have step: "handle_events env (map (wire_event du) (ev # evs)) s = handle_events env (map (wire_event du) evs) s2"
    using a by (auto simp: h(1) s2_def Let_def split: relay_action.split handled.split)
  have im: "is_message (wire_event du ev) \<longleftrightarrow> (\<exists>m. ev = MessageEv m)"
    by (cases ev) (auto simp: is_message_def wire_event_simps kind_simps)
  have "handled_well s2"
    using Cons.prems(2) a m im by (cases ev) (auto simp: following_def handled_well_def s2_def)
  then have f: "following sid s2" using Cons.prems(2) h(2,3) by (simp add: following_def s2_def)
  have sub: "set (event_msgs evs) \<subseteq> set ms" using Cons.prems(1) by (cases ev) auto
  from Cons.IH [OF sub f] obtain s' where s': "handle_events env (map (wire_event du) evs) s2 = (Inr (), s')" "following sid s'"
    "handled_messages s' = handled_messages s2 @ map (\<lambda>m. wire_event du (MessageEv m)) (event_msgs evs)"
    "cs_last (lp_client s') = (if event_msgs evs = [] then cs_last (lp_client s2) else Some (msg_id (last (event_msgs evs))))"
    by blast
  have "handled_messages s2 = handled_messages s @ map (\<lambda>m. wire_event du (MessageEv m)) (event_msgs [ev])"
    using im by (cases ev) (auto simp: handled_messages_def s2_def)
  moreover have "cs_last (lp_client s2) = (if event_msgs [ev] = [] then cs_last ?c else Some (msg_id (last (event_msgs [ev]))))"
    using m by (cases ev) (simp_all add: s2_def)
  moreover have "event_msgs (ev # evs) = event_msgs [ev] @ event_msgs evs" by (cases ev) simp_all
  ultimately show ?case
    using s' step by (intro exI [of _ s']) auto
qed

text \<open>The greeting of the stream the client follows changes nothing.\<close>

definition hello_event :: "'h dumps \<Rightarrow> 'h hub \<Rightarrow> sse_event" where
  "hello_event du hub = \<lparr>ev_kind = str_of ''hello'', ev_data = du_hello du (stream_id hub) (hub_store hub \<noteq> None), ev_id = None\<rparr>"

lemma handle_hello:
  assumes "wire_ok du env (stream_id hub) ms" "following (stream_id hub) s"
  shows "\<exists>s'. handle_events env (hello_event du hub # evs) s = handle_events env evs s' \<and> following (stream_id hub) s'
    \<and> handled_messages s' = handled_messages s \<and> lp_client s' = lp_client s"
proof -
  let ?s = "s\<lparr>lp_count := lp_count s + 1, lp_log := lp_log s @ [(hello_event du hub, NoAction)]\<rparr>"
  have "re_hello env (du_hello du (stream_id hub) (hub_store hub \<noteq> None)) = Inr (Some (stream_id hub))"
    using assms(1) by (simp add: wire_ok_def)
  then have "handle_events env (hello_event du hub # evs) s = handle_events env evs ?s"
    using assms(2)
    by (simp add: handle_event_def hello_event_def on_hello_def following_def event_requests_def kind_simps Let_def)
  moreover have "\<not> is_message (hello_event du hub)"
    by (simp add: is_message_def hello_event_def kind_simps)
  ultimately show ?thesis
    using assms(2) by (intro exI [of _ ?s]) (simp add: following_def handled_well_def handled_messages_def)
qed

section \<open>One connection\<close>

definition ln_stored :: "'h link \<Rightarrow> published list" where
  "ln_stored l = (case hub_store (ln_hub l) of None \<Rightarrow> [] | Some st \<Rightarrow> inbox_log st)"

text \<open>Everything the stream has published by the end of the connection.\<close>

definition ln_log :: "'h link \<Rightarrow> published list" where
  "ln_log l = ln_stored l @ event_msgs (ln_live l)"

definition link_ok :: "pystr \<Rightarrow> int \<Rightarrow> 'h link \<Rightarrow> bool" where
  "link_ok sid a l \<longleftrightarrow> hub_ok (ln_hub l) \<and> hub_store (ln_hub l) \<noteq> None \<and> stream_id (ln_hub l) = sid
     \<and> a < next_id (ln_hub l) \<and> length (filter (\<lambda>m. a < msg_id m) (ln_stored l)) \<le> 500
     \<and> sorted_wrt (<) (map msg_id (event_msgs (ln_live l)))
     \<and> (\<forall>m \<in> set (event_msgs (ln_live l)). next_id (ln_hub l) \<le> msg_id m)"

lemma ln_log_sorted:
  assumes "link_ok sid a l"
  shows "sorted_wrt (<) (map msg_id (ln_log l))" "\<forall>m \<in> set (ln_stored l). msg_id m < next_id (ln_hub l)"
proof -
  obtain st where st: "hub_store (ln_hub l) = Some st" "hub_ok (ln_hub l)" using assms by (auto simp: link_ok_def)
  have s: "store_ok st" "store_next st = next_id (ln_hub l)" using hub_okD(10) [OF st(2,1)] by blast+
  note log = log_ascending [OF s(1)]
  show *: "\<forall>m \<in> set (ln_stored l). msg_id m < next_id (ln_hub l)" using log(2) s(2) st(1) by (simp add: ln_stored_def)
  show "sorted_wrt (<) (map msg_id (ln_log l))"
    using log(1) * assms st(1) by (fastforce simp: ln_log_def ln_stored_def link_ok_def sorted_wrt_append)
qed

lemma first_queue_resume:
  assumes "link_ok sid a l" "a \<le> x" "0 \<le> x" "x < next_id (ln_hub l)"
  shows "first_queue (ln_hub l) (Some (x, sid)) = map MessageEv (filter (\<lambda>m. x < msg_id m) (ln_stored l))"
proof -
  obtain st where st: "hub_store (ln_hub l) = Some st" "hub_ok (ln_hub l)" "stream_id (ln_hub l) = sid"
    "ln_stored l = inbox_log st"
    using assms(1) by (auto simp: link_ok_def ln_stored_def)
  have "filter (\<lambda>m. x < msg_id m) (inbox_log st) = filter (\<lambda>m. x < msg_id m) (filter (\<lambda>m. a < msg_id m) (inbox_log st))"
    using assms(2) by (auto intro: filter_cong)
  then have "length (filter (\<lambda>m. x < msg_id m) (inbox_log st)) \<le> length (filter (\<lambda>m. a < msg_id m) (inbox_log st))"
    by (metis length_filter_le)
  also have "\<dots> \<le> 500" using assms(1) st(4) by (simp add: link_ok_def)
  finally show ?thesis
    using resume_queue [OF st(2,1) assms(3,4)] st(3,4) by (simp add: first_queue_def case_prod_beta)
qed

text \<open>What the server writes is encoded.\<close>

lemma scalar_text_append: "scalar_text (a @ b) \<longleftrightarrow> scalar_text a \<and> scalar_text b"
  by (auto simp: scalar_text_def list_all_iff)

lemma scalar_text_Cons: "scalar_text (c # a) \<longleftrightarrow> c < 0x110000 \<and> \<not> is_surrogate c \<and> scalar_text a"
  by (auto simp: scalar_text_def)

lemma scalar_int: "scalar_text (int_dec i)"
proof -
  have "c < 0x110000 \<and> \<not> is_surrogate c" if "c \<in> set (int_dec i)" for c
    using int_dec_chars [OF that] by (auto simp: ascii_digit_def is_surrogate_def)
  then show ?thesis by (simp add: scalar_text_def list_all_iff)
qed

lemma scalar_names:
  "scalar_text (str_of ''event: '')" "scalar_text (str_of ''id: '')" "scalar_text (str_of ''data: '')"
  "scalar_text (str_of ''message'')" "scalar_text (str_of ''hello'')" "scalar_text (str_of ''gap'')"
  "scalar_text (str_of ''health'')" "scalar_text [10]" "scalar_text [10, 10]" "scalar_text []"
  by code_simp+

lemma write_item: "scalar_text ev \<Longrightarrow> scalar_text p \<Longrightarrow> \<exists>b. sse_write ev i p = Inr b"
  unfolding sse_write_def
  by (rule utf8_encode_scalar) (simp add: sse_chunk_def scalar_text_append scalar_text_Cons is_surrogate_def scalar_int scalar_names
      split: option.split)

definition item_writes :: "item \<Rightarrow> bool" where
  "item_writes it \<longleftrightarrow> item_ok it \<and> (case it of Beat \<Rightarrow> True | Item ev i p \<Rightarrow> scalar_text ev \<and> scalar_text p)"

lemma write_items_ok: "\<forall>it \<in> set is. item_writes it \<Longrightarrow> \<exists>b. write_items is = Inr b"
proof (induction "is" rule: write_items.induct)
  case (3 ev i p "is")
  then show ?case using write_item [of ev p i] by (auto simp: item_writes_def)
qed auto

lemma with_beats_writes: "\<forall>it \<in> set is. item_writes it \<Longrightarrow> \<forall>it \<in> set (with_beats ns is). item_writes it"
proof -
  have "set (with_beats ns is) \<subseteq> insert Beat (set is)"
    by (induction ns "is" rule: with_beats.induct) auto
  moreover have "item_writes Beat" by (simp add: item_writes_def item_ok_def)
  ultimately show "\<forall>it \<in> set is. item_writes it \<Longrightarrow> ?thesis" by auto
qed

lemma served_writes:
  assumes "wire_ok du env sid ms" "stream_id (ln_hub l) = sid"
    and "set (event_msgs (first_queue (ln_hub l) cursor @ ln_live l)) \<subseteq> set ms"
  shows "\<forall>it \<in> set (served du l cursor). item_writes it"
proof -
  have "item_writes (event_item du ev)" if "set (event_msgs [ev]) \<subseteq> set ms" for ev
    using that assms(1)
    by (cases ev) (auto simp: item_writes_def item_ok_def event_item_def wire_ok_def json_line_def kinds scalar_names)
  moreover have "set (event_msgs [ev]) \<subseteq> set (event_msgs evs)" if "ev \<in> set evs" for ev :: "'a event" and evs
    using split_list [OF that] by (cases ev) auto
  ultimately have "\<forall>it \<in> set (map (event_item du) (first_queue (ln_hub l) cursor @ ln_live l)). item_writes it"
    using assms(3) by fastforce
  from with_beats_writes [OF this, of "ln_beats l"]
  have "\<forall>it \<in> set (with_beats (ln_beats l) (map (event_item du) (first_queue (ln_hub l) cursor @ ln_live l))). item_writes it" .
  moreover have "item_writes (hello_item du (ln_hub l))"
    using assms(1,2) by (auto simp: item_writes_def item_ok_def hello_item_def wire_ok_def json_line_def kinds scalar_names)
  ultimately show ?thesis by (simp add: served_def)
qed

lemma served_events:
  "items_events (served du l cursor)
     = hello_event du (ln_hub l) # map (wire_event du) (first_queue (ln_hub l) cursor @ ln_live l)"
proof -
  have "items_events (hello_item du (ln_hub l) # is) = hello_event du (ln_hub l) # items_events is" for "is"
    by (simp add: hello_item_def hello_event_def)
  then show ?thesis by (simp only: served_def with_beats_events items_events_wire)
qed

text \<open>Parts of ascending lists.\<close>

lemma event_msgs_take:
  "\<exists>k. event_msgs (take n evs) = take k (event_msgs evs) \<and> (length evs \<le> n \<longrightarrow> length (event_msgs evs) \<le> k)"
proof -
  let ?k = "length (event_msgs (take n evs))"
  have "event_msgs (take n evs) @ event_msgs (drop n evs) = event_msgs evs"
    using event_msgs_simps(5) [of "take n evs" "drop n evs"] by simp
  then have "event_msgs (take n evs) = take ?k (event_msgs evs)" by (metis append_eq_conv_conj)
  moreover have "length evs \<le> n \<Longrightarrow> ?k = length (event_msgs evs)" by simp
  ultimately show ?thesis by (intro exI [of _ ?k]) (simp (no_asm_simp))
qed

lemma take_ascending:
  assumes "sorted_wrt (<) (map msg_id ms)" "take k ms \<noteq> []"
  shows "take k ms = filter (\<lambda>m. msg_id m \<le> msg_id (last (take k ms))) ms"
proof -
  have s: "sorted_wrt (<) (map msg_id (take k ms @ drop k ms))" using assms(1) by simp
  have "\<forall>m \<in> set (take k ms). msg_id m \<le> msg_id (last (take k ms))"
  proof
    fix m assume "m \<in> set (take k ms)"
    then obtain ys zs where "take k ms = ys @ m # zs" by (metis split_list)
    with s show "msg_id m \<le> msg_id (last (take k ms))"
      by (cases zs rule: rev_cases) (auto simp: sorted_wrt_append)
  qed
  moreover have "\<forall>m \<in> set (drop k ms). msg_id (last (take k ms)) < msg_id m"
    using s last_in_set [OF assms(2)] by (auto simp: sorted_wrt_append simp del: append_take_drop_id)
  ultimately have "filter (\<lambda>m. msg_id m \<le> msg_id (last (take k ms))) (take k ms) = take k ms"
    "filter (\<lambda>m. msg_id m \<le> msg_id (last (take k ms))) (drop k ms) = []"
    by (simp add: filter_id_conv, simp add: filter_empty_conv linorder_not_le)
  then have "filter (\<lambda>m. msg_id m \<le> msg_id (last (take k ms))) (take k ms @ drop k ms) = take k ms"
    by (simp del: append_take_drop_id)
  then show ?thesis by simp
qed

text \<open>The events a link delivers: the first ones of the greeting and the queue.\<close>

definition link_events :: "'h link \<Rightarrow> (int \<times> pystr) option \<Rightarrow> 'h event list" where
  "link_events l cursor = first_queue (ln_hub l) cursor @ ln_live l"

definition uncut :: "'h dumps \<Rightarrow> 'h link \<Rightarrow> (int \<times> pystr) option \<Rightarrow> bool" where
  "uncut du l cursor \<longleftrightarrow> \<not> ln_broken l \<and> write_items (served du l cursor) = Inr (link_bytes du l cursor)"

lemma link_stream:
  assumes "wire_ok du env (stream_id (ln_hub l)) ms" "set (event_msgs (link_events l cursor)) \<subseteq> set ms"
  defines "evs \<equiv> hello_event du (ln_hub l) # map (wire_event du) (link_events l cursor)"
  shows "\<exists>n. stream_events (ln_broken l) (link_bytes du l cursor) = take n evs \<and> (uncut du l cursor \<longrightarrow> length evs \<le> n)"
proof -
  let ?items = "served du l cursor"
  have wr: "\<forall>it \<in> set ?items. item_writes it"
    by (rule served_writes [OF assms(1) refl]) (use assms(2) in \<open>simp add: link_events_def\<close>)
  from write_items_ok [OF wr] obtain b where b: "write_items ?items = Inr b" by blast
  have ok: "\<forall>it \<in> set ?items. item_ok it" using wr by (simp add: item_writes_def)
  have bs: "link_bytes du l cursor = take (ln_cut l) b" by (simp add: link_bytes_def b)
  obtain k where k: "stream_events (ln_broken l) (link_bytes du l cursor) = sse_events (take k b)" "\<not> ln_broken l \<longrightarrow> k = ln_cut l"
    using stream_events_cut [of "ln_cut l" "ln_broken l" b] bs by auto
  obtain j where j: "sse_events (take k b) = items_events (take j ?items)" "length b \<le> k \<longrightarrow> j = length ?items"
    using write_items_cut [OF b ok, of k] by blast
  have ev: "items_events ?items = evs" by (simp only: served_events evs_def link_events_def)
  show ?thesis
  proof (cases "uncut du l cursor")
    case True
    then have "take (ln_cut l) b = b" "k = ln_cut l" using b bs k(2) by (auto simp: uncut_def)
    then have "length b \<le> k" by (metis length_take min.cobounded2)
    with j ev k(1) show ?thesis by (intro exI [of _ "length evs"]) simp
  next
    case False
    then show ?thesis using items_events_take [of ?items j] j(1) k(1) ev by auto
  qed
qed

lemma handle_link:
  assumes env: "smooth env" "wire_ok du env sid ms"
    and l: "stream_id (ln_hub l) = sid" "set (event_msgs (link_events l cursor)) \<subseteq> set ms"
    and s: "following sid s"
  shows "\<exists>q s2. handle_events env (stream_events (ln_broken l) (link_bytes du l cursor)) s = (Inr (), s2) \<and> following sid s2
    \<and> handled_messages s2 = handled_messages s
        @ map (\<lambda>m. wire_event du (MessageEv m)) (take q (event_msgs (link_events l cursor)))
    \<and> cs_last (lp_client s2) = (if take q (event_msgs (link_events l cursor)) = [] then cs_last (lp_client s)
         else Some (msg_id (last (take q (event_msgs (link_events l cursor))))))
    \<and> (uncut du l cursor \<longrightarrow> length (event_msgs (link_events l cursor)) \<le> q)"
proof -
  let ?evs = "link_events l cursor" and ?h = "hello_event du (ln_hub l)"
  obtain n where n: "stream_events (ln_broken l) (link_bytes du l cursor) = take n (?h # map (wire_event du) ?evs)"
    "uncut du l cursor \<longrightarrow> Suc (length ?evs) \<le> n"
    using link_stream [of du env l ms cursor] env(2) l by auto
  show ?thesis
  proof (cases n)
    case 0
    then show ?thesis using n s by (intro exI [of _ 0] exI [of _ s]) simp
  next
    case (Suc n')
    obtain s1 where s1: "handle_events env (?h # map (wire_event du) (take n' ?evs)) s
        = handle_events env (map (wire_event du) (take n' ?evs)) s1" "following sid s1"
        "handled_messages s1 = handled_messages s" "lp_client s1 = lp_client s"
      using handle_hello [of du env "ln_hub l" ms s "map (wire_event du) (take n' ?evs)"] env(2) l(1) s by auto
    obtain q where q: "event_msgs (take n' ?evs) = take q (event_msgs ?evs)"
      "length ?evs \<le> n' \<longrightarrow> length (event_msgs ?evs) \<le> q"
      using event_msgs_take by blast
    have "set (event_msgs (take n' ?evs)) \<subseteq> set ms" unfolding q(1) using l(2) set_take_subset by fastforce
    from handle_events_wire [OF env this s1(2)]
    obtain s2 where "handle_events env (map (wire_event du) (take n' ?evs)) s1 = (Inr (), s2)" "following sid s2"
      "handled_messages s2 = handled_messages s1 @ map (\<lambda>m. wire_event du (MessageEv m)) (take q (event_msgs ?evs))"
      "cs_last (lp_client s2) = (if take q (event_msgs ?evs) = [] then cs_last (lp_client s1)
         else Some (msg_id (last (take q (event_msgs ?evs)))))"
      unfolding q(1) by blast
    with n s1 q(2) Suc show ?thesis by (intro exI [of _ q] exI [of _ s2]) (simp add: take_map)
  qed
qed

text \<open>Up to which id a list of messages was handled.\<close>

lemma take_up_to:
  assumes "sorted_wrt (<) (map msg_id ms)" "event_ms = filter (\<lambda>m. x < msg_id m) ms"
    and "y = (if take q event_ms = [] then x else msg_id (last (take q event_ms)))"
  shows "x \<le> y \<and> (y = x \<or> y \<in> msg_id ` set ms) \<and> take q event_ms = filter (\<lambda>m. x < msg_id m \<and> msg_id m \<le> y) ms
    \<and> (length event_ms \<le> q \<longrightarrow> (\<forall>m \<in> set ms. msg_id m \<le> y))"
proof (cases "take q event_ms = []")
  case True
  then have "length event_ms \<le> q \<Longrightarrow> \<forall>m \<in> set ms. msg_id m \<le> x"
    using assms(2) by (auto simp: filter_empty_conv linorder_not_less)
  with True assms(3) show ?thesis by (auto simp: filter_empty_conv)
next
  case False
  have "sorted_wrt (<) (map msg_id event_ms)" using assms(1,2) by (simp add: sorted_wrt_map sorted_wrt_filter)
  from take_ascending [OF this False] have t: "take q event_ms = filter (\<lambda>m. msg_id m \<le> y) event_ms"
    using False assms(3) by simp
  then have "last (take q event_ms) \<in> set event_ms" using last_in_set [OF False] by auto
  then have y: "x < y" "y \<in> msg_id ` set ms" using False assms(2,3) by auto
  have "\<forall>m \<in> set ms. msg_id m \<le> y" if "length event_ms \<le> q"
  proof
    fix m assume m: "m \<in> set ms"
    from t that have "filter (\<lambda>m. msg_id m \<le> y) event_ms = event_ms" by simp
    then have "\<forall>m \<in> set event_ms. msg_id m \<le> y" by (simp only: filter_id_conv)
    with m y(1) assms(2) show "msg_id m \<le> y" by (cases "x < msg_id m") auto
  qed
  moreover have "take q event_ms = filter (\<lambda>m. x < msg_id m \<and> msg_id m \<le> y) ms"
    unfolding t unfolding assms(2) by (simp add: conj_commute)
  ultimately show ?thesis using y by (intro conjI) simp_all
qed

lemma connection_follows:
  assumes env: "smooth env" "wire_ok du env sid ms" "sid \<noteq> []"
    and l: "link_ok sid a l" "set (ln_log l) \<subseteq> set ms"
    and s: "following sid s" "cs_last (lp_client s) = Some x" "0 \<le> a" "a \<le> x" "x < next_id (ln_hub l)"
  defines "s' \<equiv> run_inbound env [Response 200 (link_bytes du l (subscribe_cursor (lp_client s))) (ln_broken l)] s"
  shows "\<exists>y. following sid s' \<and> cs_last (lp_client s') = Some y \<and> x \<le> y \<and> (y = x \<or> y \<in> msg_id ` set (ln_log l))
    \<and> handled_messages s' = handled_messages s
        @ map (\<lambda>m. wire_event du (MessageEv m)) (filter (\<lambda>m. x < msg_id m \<and> msg_id m \<le> y) (ln_log l))
    \<and> (uncut du l (Some (x, sid)) \<longrightarrow> (\<forall>m \<in> set (ln_log l). msg_id m \<le> y))"
proof -
  let ?cur = "Some (x, sid)" and ?evs = "link_events l (Some (x, sid))"
  have cur: "subscribe_cursor (lp_client s) = ?cur"
    using s(1,2) env(3) by (simp add: subscribe_cursor_def following_def)
  have hub: "stream_id (ln_hub l) = sid" using l(1) by (simp add: link_ok_def)
  have "filter (\<lambda>m. x < msg_id m) (event_msgs (ln_live l)) = event_msgs (ln_live l)"
    using l(1) s(5) by (fastforce simp: link_ok_def filter_id_conv)
  then have M: "event_msgs ?evs = filter (\<lambda>m. x < msg_id m) (ln_log l)"
    using first_queue_resume [OF l(1) s(4) _ s(5)] s(3,4) by (simp add: link_events_def ln_log_def)
  then have sub: "set (event_msgs ?evs) \<subseteq> set ms" using l(2) by auto
  define s0 where "s0 = s\<lparr>lp_cursors := lp_cursors s @ [?cur], lp_backoff := 2000\<rparr>"
  have s0: "following sid s0" "handled_messages s0 = handled_messages s" "lp_client s0 = lp_client s"
    using s(1) by (simp_all add: s0_def following_def handled_well_def handled_messages_def)
  obtain q s2 where q: "handle_events env (stream_events (ln_broken l) (link_bytes du l ?cur)) s0 = (Inr (), s2)"
    "following sid s2"
    "handled_messages s2 = handled_messages s @ map (\<lambda>m. wire_event du (MessageEv m)) (take q (event_msgs ?evs))"
    "cs_last (lp_client s2) = Some (if take q (event_msgs ?evs) = [] then x else msg_id (last (take q (event_msgs ?evs))))"
    "uncut du l ?cur \<longrightarrow> length (event_msgs ?evs) \<le> q"
    using handle_link [OF env(1,2) hub sub s0(1)] unfolding s0(2,3) s(2) if_distrib [of Some] by blast
  have "s' = (if ln_broken l \<and> \<not> lp_firing s2 then lost s2 else s2)"
    using s(1) q(1) by (simp add: s'_def connect_turn_def cur s0_def following_def Let_def)
  then have f: "following sid s'" "handled_messages s' = handled_messages s2" "lp_client s' = lp_client s2"
    using q(2) by (simp_all add: lost_def following_def handled_well_def handled_messages_def)
  note t = take_up_to [OF ln_log_sorted(1) [OF l(1)] M refl, of q]
  show ?thesis
    by (rule exI, rule conjI, rule f(1), rule conjI, simp only: f(3) q(4)) (use t q(3,5) f(2) in auto)
qed

section \<open>Connection after connection\<close>

text \<open>A history of connections: every hub has what the connection before it had published, and
  \<open>final_log\<close> is what the last one knew.\<close>

fun history :: "pystr \<Rightarrow> int \<Rightarrow> published list \<Rightarrow> 'h link list \<Rightarrow> bool" where
  "history sid a before [] \<longleftrightarrow> True"
| "history sid a before (l # ls) \<longleftrightarrow> link_ok sid a l \<and> prefix before (ln_stored l) \<and> history sid a (ln_log l) ls"

fun final_log :: "published list \<Rightarrow> 'h link list \<Rightarrow> published list" where
  "final_log before [] = before"
| "final_log before (l # ls) = final_log (ln_log l) ls"

lemma final_log_prefix: "history sid a before ls \<Longrightarrow> prefix before (final_log before ls)"
proof (induction ls arbitrary: before)
  case (Cons l ls)
  then have "prefix before (ln_stored l)" "prefix (ln_log l) (final_log before (l # ls))" by simp_all
  then show ?case unfolding ln_log_def by (meson prefix_order.trans prefixI)
qed simp

lemma final_log_sorted:
  "history sid a before ls \<Longrightarrow> sorted_wrt (<) (map msg_id before) \<Longrightarrow> sorted_wrt (<) (map msg_id (final_log before ls))"
  using ln_log_sorted(1) by (induction ls arbitrary: before) auto

text \<open>Up to an id of its own or below, a prefix of an ascending log has all of the log.\<close>

lemma prefix_up_to:
  assumes "prefix xs ys" "sorted_wrt (<) (map msg_id ys)" "y \<le> x \<or> y \<in> msg_id ` set xs"
  shows "filter (\<lambda>m. x < msg_id m \<and> msg_id m \<le> y) xs = filter (\<lambda>m. x < msg_id m \<and> msg_id m \<le> y) ys"
proof -
  from assms(1) obtain zs where ys: "ys = xs @ zs" by (auto simp: prefix_def)
  have "filter (\<lambda>m. x < msg_id m \<and> msg_id m \<le> y) zs = []"
    using assms(2,3) by (fastforce simp: ys filter_empty_conv sorted_wrt_append)
  then show ?thesis by (simp add: ys)
qed

lemma filter_between:
  assumes "sorted_wrt (<) (map msg_id ms)" "x \<le> y" "y \<le> z"
  shows "filter (\<lambda>m. x < msg_id m \<and> msg_id m \<le> y) ms @ filter (\<lambda>m. y < msg_id m \<and> msg_id m \<le> z) ms
    = filter (\<lambda>m. x < msg_id m \<and> msg_id m \<le> z) ms"
  using assms(1)
proof (induction ms)
  case (Cons m ms)
  have "filter (\<lambda>m. x < msg_id m \<and> msg_id m \<le> y) ms = []" if "y < msg_id m"
    using Cons.prems that by (force simp: filter_empty_conv)
  with Cons assms(2,3) show ?case by auto
qed simp

lemma linked_run_follows:
  assumes env: "smooth env" "wire_ok du env sid ms" "sid \<noteq> []"
    and h: "history sid a before ls" "sorted_wrt (<) (map msg_id before)" "set (final_log before ls) \<subseteq> set ms"
    and s: "following sid s" "cs_last (lp_client s) = Some x" "0 \<le> a" "a \<le> x" "x = a \<or> x \<in> msg_id ` set before"
  shows "\<exists>y. following sid (linked_run du env ls s) \<and> cs_last (lp_client (linked_run du env ls s)) = Some y \<and> x \<le> y
    \<and> handled_messages (linked_run du env ls s) = handled_messages s
        @ map (\<lambda>m. wire_event du (MessageEv m)) (filter (\<lambda>m. x < msg_id m \<and> msg_id m \<le> y) (final_log before ls))
    \<and> (ls \<noteq> [] \<and> (\<forall>c. uncut du (last ls) c) \<longrightarrow> (\<forall>m \<in> set (final_log before ls). msg_id m \<le> y))"
  using h s
proof (induction ls arbitrary: before s x)
  case Nil
  have "filter (\<lambda>m. x < msg_id m \<and> msg_id m \<le> x) before = []" by (simp add: filter_empty_conv)
  with Nil show ?case by (intro exI [of _ x]) simp
next
  case (Cons l ls)
  let ?final = "final_log before (l # ls)"
  let ?s1 = "run_inbound env [Response 200 (link_bytes du l (subscribe_cursor (lp_client s))) (ln_broken l)] s"
  have l: "link_ok sid a l" "prefix before (ln_stored l)" "history sid a (ln_log l) ls" using Cons.prems(1) by simp_all
  note log = ln_log_sorted [OF l(1)]
  have pf: "prefix (ln_log l) ?final" using final_log_prefix [OF l(3)] by simp
  have fs: "sorted_wrt (<) (map msg_id ?final)" using final_log_sorted [OF l(3) log(1)] by simp
  have "x < next_id (ln_hub l)"
    using Cons.prems(8) log(2) set_mono_prefix [OF l(2)] l(1) by (auto simp: link_ok_def)
  moreover have "set (ln_log l) \<subseteq> set ms" using set_mono_prefix [OF pf] Cons.prems(3) by blast
  ultimately obtain y where y: "following sid ?s1" "cs_last (lp_client ?s1) = Some y" "x \<le> y"
    "y = x \<or> y \<in> msg_id ` set (ln_log l)"
    "handled_messages ?s1 = handled_messages s
        @ map (\<lambda>m. wire_event du (MessageEv m)) (filter (\<lambda>m. x < msg_id m \<and> msg_id m \<le> y) (ln_log l))"
    "uncut du l (Some (x, sid)) \<longrightarrow> (\<forall>m \<in> set (ln_log l). msg_id m \<le> y)"
    using connection_follows [OF env l(1) _ Cons.prems(4-7)] by blast
  have all: "filter (\<lambda>m. x < msg_id m \<and> msg_id m \<le> y) (ln_log l) = filter (\<lambda>m. x < msg_id m \<and> msg_id m \<le> y) ?final"
    by (rule prefix_up_to [OF pf fs]) (use y(3,4) in auto)
  have ya: "y = a \<or> y \<in> msg_id ` set (ln_log l)"
    using y(4) Cons.prems(8) set_mono_prefix [OF l(2)] by (auto simp: ln_log_def)
  have "set (final_log (ln_log l) ls) \<subseteq> set ms" "a \<le> y" using Cons.prems(3,7) y(3) by simp_all
  from Cons.IH [OF l(3) log(1) this(1) y(1,2) Cons.prems(6) this(2) ya]
  obtain z where z: "following sid (linked_run du env ls ?s1)" "cs_last (lp_client (linked_run du env ls ?s1)) = Some z" "y \<le> z"
    "handled_messages (linked_run du env ls ?s1) = handled_messages ?s1
        @ map (\<lambda>m. wire_event du (MessageEv m)) (filter (\<lambda>m. y < msg_id m \<and> msg_id m \<le> z) ?final)"
    "ls \<noteq> [] \<and> (\<forall>c. uncut du (last ls) c) \<longrightarrow> (\<forall>m \<in> set ?final. msg_id m \<le> z)"
    unfolding final_log.simps by blast
  have "\<forall>m \<in> set ?final. msg_id m \<le> z" if "ls = []" "\<forall>c. uncut du (last (l # ls)) c"
    using that y(6) z(3) by fastforce
  moreover have "handled_messages (linked_run du env (l # ls) s) = handled_messages s
      @ map (\<lambda>m. wire_event du (MessageEv m)) (filter (\<lambda>m. x < msg_id m \<and> msg_id m \<le> z) ?final)"
    using z(4) y(5) filter_between [OF fs y(3) z(3)] by (simp del: run_inbound.simps final_log.simps add: all map_append [symmetric])
  ultimately show ?case
    using z(1-3,5) y(3) by (intro exI [of _ z]) (simp del: run_inbound.simps final_log.simps)
qed

section \<open>A client without a cursor\<close>

text \<open>A client that was greeted but has not been sent a message yet has no cursor.  With a store
  nothing is pending, so what is published while it is away is never offered to it: its next
  connection starts with an empty queue.\<close>

lemma no_cursor_no_replay:
  assumes "hub_ok hub" "hub_store hub = Some st" "cs_last c = None"
  shows "subscribe_cursor c = None" "first_queue hub (subscribe_cursor c) = []"
proof -
  show c: "subscribe_cursor c = None" using assms(3) by (simp add: subscribe_cursor_def)
  have "pending hub = []" using hub_okD(10) [OF assms(1,2)] by blast
  then have "replay_list hub None None = []" by (simp add: replay_list_def valid_cursor_def)
  moreover have "next_sub hub \<notin> fst ` set (subs hub)" using hub_okD(9) [OF assms(1)] by force
  then have "map_of (subs hub) (next_sub hub) = None" by (simp add: map_of_eq_None_iff)
  ultimately show "first_queue hub (subscribe_cursor c) = []"
    by (simp add: c first_queue_def subscribe_def Let_def new_subscriber_def map_add_def)
qed

section \<open>Properties\<close>

text \<open>C7. Server, stream and client together: over any series of connections to a server with a
  store, however many messages it publishes before, between and during them, wherever each
  connection is cut (in the middle of a character as well) and whatever heartbeats, health reports
  and gap reports lie between, a client that starts with a cursor of the stream handles exactly the
  messages from there up to its new cursor, each once and in order; each is posted once, or skipped
  because its hash is in the journal; and a last connection that is not cut brings it to the end of
  the log.  Home Assistant may refuse attempts before it accepts, the disk of the client works, at
  most 500 messages wait at a time.\<close>

theorem client_follows_log:
  assumes "smooth env" "wire_ok du env sid (final_log before ls)" "sid \<noteq> []"
    and "history sid a before ls" "sorted_wrt (<) (map msg_id before)"
    and "client_ok c" "cs_stream c = Some sid" "cs_last c = Some a" "0 \<le> a"
  defines "s \<equiv> linked_run du env ls (start_loop c)"
  shows "\<exists>y. cs_last (lp_client s) = Some y \<and> a \<le> y
    \<and> handled_messages s
      = map (\<lambda>m. wire_event du (MessageEv m)) (filter (\<lambda>m. a < msg_id m \<and> msg_id m \<le> y) (final_log before ls))
    \<and> (\<forall>(ev, act) \<in> set (lp_log s). is_message ev \<longrightarrow> act \<in> {Message Skipped 0, Message Delivered 1})
    \<and> (ls \<noteq> [] \<and> (\<forall>cur. uncut du (last ls) cur) \<longrightarrow> (\<forall>m \<in> set (final_log before ls). msg_id m \<le> y))"
proof -
  have "following sid (start_loop c)" "cs_last (lp_client (start_loop c)) = Some a" "handled_messages (start_loop c) = []"
    using assms(6-8) by (simp_all add: following_def handled_well_def handled_messages_def start_loop_def)
  from linked_run_follows [OF assms(1-5) subset_refl this(1,2) assms(9) order_refl disjI1 [OF refl]] this(3)
  show ?thesis unfolding s_def following_def handled_well_def by simp
qed

definition example_env :: relay_env where
  "example_env = \<lparr>re_digest = id, re_hello = (\<lambda>_. Inr (Some [97])),
     re_load = (\<lambda>p. Inr (to_cmsg (with_id example_stamped (if p = [49] then 1 else 2)))),
     re_ha = \<lparr>ha_url = [], ha_token = [], ha_event = [], ha_sensor = []\<rparr>,
     re_outs = (\<lambda>_. [(Refused, False), (Accepted, True)]), re_mark = (\<lambda>_. True), re_advance = (\<lambda>_. True)\<rparr>"

definition example_dumps :: "nat dumps" where
  "example_dumps = \<lparr>du_hello = (\<lambda>_ _. [48]), du_message = (\<lambda>m. if msg_id m = 1 then [49] else [50]),
     du_health = (\<lambda>_. [51]), du_gap = [52]\<rparr>"

text \<open>A first connection that is cut within the second message, and one that is not cut.\<close>

definition example_links :: "nat link list" where
  "example_links = [\<lparr>ln_hub = example_store_hub, ln_live = [], ln_beats = [1], ln_cut = 100, ln_broken = True\<rparr>,
     \<lparr>ln_hub = example_store_hub, ln_live = [HealthEv 0], ln_beats = [], ln_cut = 1000, ln_broken = False\<rparr>]"

theorem client_follows_log_witness:
  "\<exists>y. cs_last (lp_client (linked_run example_dumps example_env example_links
        (start_loop (load_state (Some (Some [97], Some 0, [])))))) = Some y
    \<and> handled_messages (linked_run example_dumps example_env example_links
        (start_loop (load_state (Some (Some [97], Some 0, [])))))
      = map (\<lambda>m. wire_event example_dumps (MessageEv m))
          (filter (\<lambda>m. 0 < msg_id m \<and> msg_id m \<le> y) [with_id example_stamped 1, with_id example_stamped 2])"
proof -
  let ?ms = "[with_id example_stamped 1, with_id example_stamped 2]"
  let ?c = "load_state (Some (Some [97], Some 0, []))"
  have stored: "ln_stored l = ?ms" if "ln_hub l = example_store_hub" for l :: "nat link"
    using example_store_hub(4) that by (auto simp: ln_stored_def)
  have ok: "link_ok [97] 0 l" if "l \<in> set example_links" for l
    using that example_store_hub stored [of l] by (auto simp: example_links_def link_ok_def)
  have log: "final_log [] example_links = ?ms" using stored by (simp add: example_links_def ln_log_def)
  have "history [97] 0 [] example_links"
    using ok stored by (simp add: example_links_def ln_log_def)
  moreover have "smooth example_env"
    by (auto simp: smooth_def example_env_def retried_def intro!: exI [of _ "[(Refused, False)]"])
  moreover have "wire_ok example_dumps example_env [97] (final_log [] example_links)"
  proof -
    have "json_line [48]" "json_line [49]" "json_line [50]" "json_line [51]" "json_line [52]" by code_simp+
    moreover have "msg_hash (with_id example_stamped n) \<noteq> []" for n
      by (simp add: with_id_def example_stamped_def stamped.defs published.defs str_of_def)
    ultimately show ?thesis by (simp add: log wire_ok_def example_dumps_def example_env_def)
  qed
  moreover have "client_ok ?c" "cs_stream ?c = Some [97]" "cs_last ?c = Some 0"
    by (rule load_ok, simp) (simp_all add: load_state_def)
  ultimately obtain y where "cs_last (lp_client (linked_run example_dumps example_env example_links (start_loop ?c))) = Some y"
    "handled_messages (linked_run example_dumps example_env example_links (start_loop ?c))
      = map (\<lambda>m. wire_event example_dumps (MessageEv m)) (filter (\<lambda>m. 0 < msg_id m \<and> msg_id m \<le> y) (final_log [] example_links))"
    using client_follows_log [of example_env example_dumps "[97]" "[]" example_links 0 ?c] by auto
  then show ?thesis unfolding log by blast
qed

end
