(* ===== verification/Pinned_Http.thy ===== *)
theory Pinned_Http
  imports Config
begin

text \<open>
  The client's connection to the server, \<open>client/gtg_client/pinned_http.py\<close>: how the peer is
  verified before anything is sent.  The environment of a connection is what the TLS handshake gives,
  the certificate the peer presents and whether the trust store accepts it, and whether the state
  directory can be written.  \<open>digest\<close> is \<open>sha256(b).hexdigest()\<close>;
  \<open>tofu.pin\<close> is a text that may be absent.
\<close>

section \<open>Choosing how to verify\<close>

datatype trust_mode = Pin | Tofu | Ca | System

record server_conn =
  sc_host :: "pystr option"
  sc_port :: int
  sc_pin :: pystr
  sc_ca :: "pystr option"
  sc_tofu :: "pystr option"
  sc_mode :: trust_mode

definition strip_colons :: "pystr \<Rightarrow> pystr" where
  "strip_colons s = filter (\<lambda>c. c \<noteq> 58) (ascii_lower s)"

text \<open>\<open>os.path.join\<close> with a relative second part.\<close>

definition path_join :: "pystr \<Rightarrow> pystr \<Rightarrow> pystr" where
  "path_join a b = (if a = [] \<or> last a = 47 then a @ b else a @ [47] @ b)"

text \<open>The checks of \<open>ServerConnection.__init__\<close> on what is configured; \<open>exists\<close> is
  \<open>isfile or isdir\<close>, \<open>loads\<close>: the CA file can be loaded.\<close>

definition checked_conn ::
  "(pystr \<Rightarrow> bool) \<Rightarrow> (pystr \<Rightarrow> bool) \<Rightarrow> pystr option \<Rightarrow> int \<Rightarrow> pystr \<Rightarrow> pystr option \<Rightarrow> pystr option \<Rightarrow> exn + server_conn" where
  "checked_conn exists loads host port pin ca tofu =
     (let chosen = filter (\<lambda>b. b) [pin \<noteq> [], tofu \<noteq> None, ca \<noteq> None];
          mode = (if pin \<noteq> [] then Pin else if tofu \<noteq> None then Tofu else if ca \<noteq> None then Ca else System)
      in if length chosen > 1 then Inl ValueError
         else if pin \<noteq> [] \<and> (length pin \<noteq> 64 \<or> \<not> list_all lower_hex pin) then Inl ValueError
         else if (case ca of None \<Rightarrow> False | Some f \<Rightarrow> \<not> exists f) then Inl ValueError
         else if mode = Ca \<and> (case ca of None \<Rightarrow> False | Some f \<Rightarrow> \<not> loads f) then Inl ValueError
         else Inr \<lparr>sc_host = host, sc_port = port, sc_pin = pin, sc_ca = ca, sc_tofu = tofu, sc_mode = mode\<rparr>)"

text \<open>\<open>ServerConnection(cfg)\<close>.  \<open>urlsplit\<close> raises \<open>ValueError\<close> on a URL it cannot split; it gives the
  scheme, the host (or \<open>None\<close>) and what reading \<open>url.port\<close> gives, which raises the same on a port that
  is no number or out of range.\<close>

type_synonym url_parts = "pystr \<times> pystr option \<times> (exn + int option)"

definition server_connection ::
  "(pystr \<Rightarrow> exn + url_parts) \<Rightarrow> (pystr \<Rightarrow> bool) \<Rightarrow> (pystr \<Rightarrow> bool) \<Rightarrow> settings \<Rightarrow> exn + server_conn" where
  "server_connection urlsplit exists loads vals =
     bind_exn (urlsplit (cfg_str vals ''SERVER_URL'')) (\<lambda>(scheme, host, port).
       if scheme \<noteq> str_of ''https'' then Inl ValueError
       else bind_exn port (\<lambda>port. checked_conn exists loads host
         (case port of None \<Rightarrow> 8443 | Some p \<Rightarrow> if p = 0 then 8443 else p)
         (strip_colons (cfg_str vals ''SERVER_PIN_SHA256''))
         (if cfg_str vals ''SERVER_CA'' = [] then None else Some (cfg_str vals ''SERVER_CA''))
         (if cfg_bool vals ''SERVER_PIN_TOFU'' then Some (path_join (cfg_str vals ''STATE_DIR'') (str_of ''tofu.pin'')) else None)))"

section \<open>Connecting\<close>

datatype verdict = Connected | PinError | TrustError | StoreFailed

definition load_tofu :: "pystr option \<Rightarrow> pystr option" where
  "load_tofu file = map_option (\<lambda>s. ascii_lower (py_strip s)) file"

text \<open>\<open>_store_tofu\<close>: making the directory, writing or renaming may raise \<open>OSError\<close>, and the file is as
  it was; \<open>saved\<close> says whether they work.\<close>

definition store_tofu :: "bool \<Rightarrow> pystr \<Rightarrow> pystr option \<Rightarrow> verdict \<times> pystr option" where
  "store_tofu saved fp file = (if saved then (Connected, Some (fp @ [10])) else (StoreFailed, file))"

text \<open>\<open>connect\<close>: \<open>der\<close> is the certificate presented, \<open>valid\<close> the verdict of chain and host name
  for the trust-store modes; the content of \<open>tofu.pin\<close> is passed and returned.\<close>

type_synonym peer = "pybytes \<times> bool \<times> bool"

definition connect :: "(pybytes \<Rightarrow> pystr) \<Rightarrow> server_conn \<Rightarrow> peer \<Rightarrow> pystr option \<Rightarrow> verdict \<times> pystr option" where
  "connect digest c peer file =
     (case peer of (der, valid, saved) \<Rightarrow>
       if sc_pin c = [] \<and> sc_tofu c = None then (if valid then Connected else TrustError, file)
       else
         (let fp = digest der;
              expected = (if sc_pin c \<noteq> [] then Some (sc_pin c) else load_tofu file)
          in case expected of
               Some e \<Rightarrow> if e = [] then store_tofu saved fp file
                 else if fp \<noteq> e then (PinError, file) else (Connected, file)
             | None \<Rightarrow> store_tofu saved fp file))"

text \<open>A run: connection after connection, over restarts, since only the file is kept.\<close>

fun connects :: "(pybytes \<Rightarrow> pystr) \<Rightarrow> server_conn \<Rightarrow> peer list \<Rightarrow> pystr option \<Rightarrow>
    verdict list \<times> pystr option" where
  "connects digest c [] file = ([], file)"
| "connects digest c (p # ps) file =
     (case connect digest c p file of (v, f) \<Rightarrow> (case connects digest c ps f of (vs, f') \<Rightarrow> (v # vs, f')))"

section \<open>One kind of verification\<close>

lemma checked_mode:
  assumes "checked_conn exists loads host port pin ca tofu = Inr c"
  shows "sc_mode c = Pin \<and> sc_pin c \<noteq> [] \<and> length (sc_pin c) = 64 \<and> list_all lower_hex (sc_pin c) \<and> sc_tofu c = None \<and> sc_ca c = None
    \<or> sc_mode c = Tofu \<and> sc_pin c = [] \<and> sc_tofu c \<noteq> None \<and> sc_ca c = None
    \<or> sc_mode c \<in> {Ca, System} \<and> sc_pin c = [] \<and> sc_tofu c = None"
  using assms by (cases "pin = []"; cases tofu; cases ca) (auto simp: checked_conn_def split: if_splits)

lemma one_mode:
  assumes "server_connection urlsplit exists loads vals = Inr c"
  shows "sc_mode c = Pin \<and> sc_pin c \<noteq> [] \<and> length (sc_pin c) = 64 \<and> list_all lower_hex (sc_pin c) \<and> sc_tofu c = None \<and> sc_ca c = None
    \<or> sc_mode c = Tofu \<and> sc_pin c = [] \<and> sc_tofu c \<noteq> None \<and> sc_ca c = None
    \<or> sc_mode c \<in> {Ca, System} \<and> sc_pin c = [] \<and> sc_tofu c = None"
proof -
  from assms obtain scheme host port where u: "urlsplit (cfg_str vals ''SERVER_URL'') = Inr (scheme, host, port)"
    unfolding server_connection_def bind_exn_eq_Inr by auto
  with assms obtain h p pin ca tofu where "checked_conn exists loads h p pin ca tofu = Inr c"
    unfolding server_connection_def u by (cases "scheme = str_of ''https''") (auto simp: bind_exn_eq_Inr)
  then show ?thesis by (rule checked_mode)
qed

text \<open>A hash's text, as \<open>hexdigest\<close> writes it: not empty, lower case, no white space.\<close>

definition hex_text :: "(pybytes \<Rightarrow> pystr) \<Rightarrow> bool" where
  "hex_text digest \<longleftrightarrow> (\<forall>b. digest b \<noteq> [] \<and> list_all lower_hex (digest b))"

lemma hex_stored:
  assumes "hex_text digest"
  shows "load_tofu (Some (digest b @ [10])) = Some (digest b)"
proof -
  have d: "digest b \<noteq> []" "list_all lower_hex (digest b)" using assms by (auto simp: hex_text_def)
  have "\<not> py_isspace c" if "c \<in> set (digest b)" for c
  proof -
    have "list_all (\<lambda>c. lower_hex c \<longrightarrow> \<not> py_isspace c) [0..<128]" by code_simp
    moreover have "c < 128" "lower_hex c" using that d(2) by (auto simp: list_all_iff lower_hex_def)
    ultimately show ?thesis by (auto simp: list_all_iff)
  qed
  then have none: "\<forall>c \<in> set (digest b). \<not> py_isspace c" by blast
  have "py_strip (digest b @ [10]) = digest b"
  proof -
    have "py_isspace 10" by code_simp
    moreover have "dropWhile py_isspace (digest b @ [10]) = digest b @ [10]" using none d(1) by (cases "digest b") auto
    moreover have "dropWhile py_isspace (rev (digest b)) = rev (digest b)"
    proof (cases "rev (digest b)")
      case (Cons x xs)
      then have "x \<in> set (digest b)" by (metis list.set_intros(1) set_rev)
      with none Cons show ?thesis by simp
    qed simp
    ultimately show ?thesis by (simp add: py_strip_def py_lstrip_def py_rstrip_def)
  qed
  moreover have "ascii_lower (digest b) = digest b"
    unfolding ascii_lower_def by (rule map_idI) (use d(2) in \<open>auto simp: list_all_iff lower_hex_def\<close>)
  ultimately show ?thesis by (simp add: load_tofu_def)
qed

section \<open>Whom the client talks to\<close>

lemma connects_pin:
  "sc_pin c \<noteq> [] \<Longrightarrow> connects digest c ps file =
     (map (\<lambda>(der, _). if digest der = sc_pin c then Connected else PinError) ps, file)"
  by (induction ps) (auto simp: connect_def Let_def)

lemma connects_store:
  "sc_pin c = [] \<Longrightarrow> sc_tofu c = None \<Longrightarrow> connects digest c ps file =
     (map (\<lambda>(_, valid, _). if valid then Connected else TrustError) ps, file)"
  by (induction ps) (auto simp: connect_def Let_def)

lemma connects_tofu:
  assumes "sc_pin c = []" "sc_tofu c \<noteq> None" "hex_text digest"
  shows "connects digest c ps (Some (digest der @ [10])) =
     (map (\<lambda>(d, _). if digest d = digest der then Connected else PinError) ps, Some (digest der @ [10]))"
  using assms hex_stored [OF assms(3), of der]
  by (induction ps) (auto simp: connect_def Let_def hex_text_def)

text \<open>While the first fingerprint cannot be stored, no connection comes about.\<close>

lemma connects_unsaved:
  assumes "sc_pin c = []" "sc_tofu c \<noteq> None"
  shows "connects digest c (map (\<lambda>(der, v). (der, v, False)) unsaved @ ps) None =
     (map (\<lambda>_. StoreFailed) unsaved @ fst (connects digest c ps None), snd (connects digest c ps None))"
  using assms by (induction unsaved) (auto simp: connect_def load_tofu_def store_tofu_def Let_def split: prod.splits)

text \<open>C39. Whom the client talks to, over any number of connections and restarts: with a pin, only
  peers whose certificate has that fingerprint; with trust on first use and no file yet, nobody as
  long as the fingerprint cannot be stored, and then only peers with the fingerprint of the first one
  for which it could, which is stored once and for all; otherwise those
  the trust store accepts, and a configuration names at most one of these ways.  In every
  other case the connection ends before a byte of the request is written.\<close>

theorem peers_verified:
  assumes "server_connection urlsplit exists loads vals = Inr c" "hex_text digest"
  shows "case sc_mode c of
      Pin \<Rightarrow> connects digest c ps file = (map (\<lambda>(der, _). if digest der = sc_pin c then Connected else PinError) ps, file)
    | Tofu \<Rightarrow> connects digest c (map (\<lambda>(der, v). (der, v, False)) unsaved @ (first, v, True) # ps) None =
        (map (\<lambda>_. StoreFailed) unsaved
           @ map (\<lambda>(der, _). if digest der = digest first then Connected else PinError) ((first, v, True) # ps),
         Some (digest first @ [10]))
    | _ \<Rightarrow> connects digest c ps file = (map (\<lambda>(_, valid, _). if valid then Connected else TrustError) ps, file)"
proof -
  have first: "connect digest c (first, v, True) None = (Connected, Some (digest first @ [10]))"
    if "sc_pin c = []" "sc_tofu c \<noteq> None"
    using that by (auto simp: connect_def load_tofu_def store_tofu_def Let_def)
  from one_mode [OF assms(1)] show ?thesis
    using connects_tofu [OF _ _ assms(2), of c ps first] first
    by (elim disjE conjE) (auto simp: connects_pin connects_store connects_unsaved)
qed

text \<open>An example: trust on first use.\<close>

definition example_settings :: settings where
  "example_settings = fst (fold (\<lambda>(k, v) (vals, u). (AList.update (str_of k) (str_of v) vals, u))
     [(''SERVER_URL'', ''https://gw''), (''SERVER_PIN_TOFU'', ''yes'')] (CLIENT_DEFAULTS, ()))"

definition example_urlsplit :: "pystr \<Rightarrow> exn + url_parts" where
  "example_urlsplit url = Inr (str_of ''https'', Some (drop 8 url), Inr None)"

definition example_digest :: "pybytes \<Rightarrow> pystr" where
  "example_digest b = str_of (if b = [] then ''a0'' else ''b1'')"

theorem peers_verified_witness:
  "\<exists>c. server_connection example_urlsplit (\<lambda>_. False) (\<lambda>_. False) example_settings = Inr c \<and> sc_mode c = Tofu
    \<and> connects example_digest c [([], True, False), ([7], False, True), ([], True, True), ([9], True, False)] None
        = ([StoreFailed, Connected, PinError, Connected], Some (str_of ''b1'' @ [10]))"
proof -
  have run: "case server_connection example_urlsplit (\<lambda>_. False) (\<lambda>_. False) example_settings of
      Inr c \<Rightarrow> sc_mode c = Tofu | Inl _ \<Rightarrow> False" by code_simp
  then obtain c where c: "server_connection example_urlsplit (\<lambda>_. False) (\<lambda>_. False) example_settings = Inr c" "sc_mode c = Tofu"
    by (auto split: sum.splits)
  have "list_all lower_hex (str_of ''a0'')" "list_all lower_hex (str_of ''b1'')" "str_of ''a0'' \<noteq> []" "str_of ''b1'' \<noteq> []"
    and ne: "str_of ''a0'' \<noteq> str_of ''b1''"
    by code_simp+
  then have hex: "hex_text example_digest" by (auto simp: hex_text_def example_digest_def)
  from peers_verified [OF c(1) hex, where first = "[7]" and v = False
      and ps = "[([], True, True), ([9], True, False)]" and unsaved = "[([], True)]"] c ne
  show ?thesis by (auto simp: example_digest_def)
qed

text \<open>An empty \<open>tofu.pin\<close> counts as none: whoever answers next is trusted, with no error.\<close>

lemma empty_tofu_trusts_again:
  "sc_pin c = [] \<Longrightarrow> sc_tofu c \<noteq> None \<Longrightarrow> connect digest c (der, v, True) (Some []) = (Connected, Some (digest der @ [10]))"
  by (auto simp: connect_def load_tofu_def store_tofu_def ascii_lower_def py_strip_def py_lstrip_def py_rstrip_def Let_def)

end
