(* ===== verification/Base64.thy ===== *)
theory Base64
  imports Auth
begin

text \<open>
  The other side of \<open>base64.b64decode\<close> (\<open>b64decode\<close> of \<open>Auth\<close>): the encoding as the programs the
  gateway talks to write it (browsers and scripts in a Basic header, \<open>openssl\<close> in a certificate
  file), and the round trip, also when line breaks are put in.  \<open>str.split\<close> with a longer separator.
\<close>

section \<open>Encoding\<close>

definition b64_char :: "nat \<Rightarrow> nat" where
  "b64_char n = (if n < 26 then 65 + n else if n < 52 then 71 + n else if n < 62 then n - 4 else if n = 62 then 43 else 47)"

fun b64encode :: "pybytes \<Rightarrow> pystr" where
  "b64encode [] = []"
| "b64encode [a] = [b64_char (a div 4), b64_char (a mod 4 * 16), 61, 61]"
| "b64encode [a, b] = [b64_char (a div 4), b64_char (a mod 4 * 16 + b div 16), b64_char (b mod 16 * 4), 61]"
| "b64encode (a # b # c # r) =
     [b64_char (a div 4), b64_char (a mod 4 * 16 + b div 16), b64_char (b mod 16 * 4 + c div 64), b64_char (c mod 64)]
       @ b64encode r"

lemma b64_char_value [simp]: "n < 64 \<Longrightarrow> b64_value (b64_char n) = Some n"
  unfolding b64_char_def b64_value_def by (cases "n < 26"; cases "n < 52"; cases "n < 62"; cases "n = 62") auto

lemma b64_char_not_pad [simp]: "b64_char n \<noteq> 61"
  by (cases "n < 52") (auto simp: b64_char_def)

lemma b64_char_ascii: "n < 64 \<Longrightarrow> b64_char n < 128"
  by (auto simp: b64_char_def)

lemma b64_loop_encode: "\<forall>b \<in> set bs. b < 256 \<Longrightarrow> b64_loop 0 0 pads (b64encode bs) = Inr bs"
proof (induction bs arbitrary: pads rule: b64encode.induct)
  case (2 a)
  have "a div 4 < 64" "a mod 4 * 16 < 64" using 2 by auto
  then show ?case by (simp add: numeral_2_eq_2 [symmetric])
next
  case (3 a b)
  have d: "a div 4 < 64" "a mod 4 * 16 + b div 16 < 64" "b mod 16 * 4 < 64" using 3 by auto
  have "(a mod 4 * 16 + b div 16) div 16 = a mod 4" "(a mod 4 * 16 + b div 16) mod 16 = b div 16" using 3 by auto
  with d show ?case by simp
next
  case (4 a b c r)
  have d: "a div 4 < 64" "a mod 4 * 16 + b div 16 < 64" "b mod 16 * 4 + c div 64 < 64" "c mod 64 < 64" using "4.prems" by auto
  have "(a mod 4 * 16 + b div 16) div 16 = a mod 4" "(a mod 4 * 16 + b div 16) mod 16 = b div 16"
    "(b mod 16 * 4 + c div 64) div 4 = b mod 16" "(b mod 16 * 4 + c div 64) mod 4 = c div 64" using "4.prems" by auto
  with d 4 show ?case by simp
qed simp

text \<open>Characters outside the alphabet are skipped.\<close>

definition b64_relevant :: "nat \<Rightarrow> bool" where
  "b64_relevant c \<longleftrightarrow> c = 61 \<or> b64_value c \<noteq> None"

lemma b64_loop_relevant: "b64_loop pos left pads (filter b64_relevant s) = b64_loop pos left pads s"
  by (induction s arbitrary: pos left pads) (simp_all add: b64_relevant_def split: option.split)

lemma b64_round_trip:
  assumes "\<forall>b \<in> set bs. b < 256" "filter b64_relevant s = b64encode bs" "list_all (\<lambda>c. c < 128) s"
  shows "b64decode s = Inr bs"
  using assms b64_loop_encode [OF assms(1), of 0] b64_loop_relevant [of 0 0 0 s] by (simp add: b64decode_def)

lemma b64encode_chars: "\<forall>b \<in> set bs. b < 256 \<Longrightarrow> list_all (\<lambda>c. b64_relevant c \<and> c < 128) (b64encode bs)"
proof (induction bs rule: b64encode.induct)
  case (4 a b c r)
  have d: "a div 4 < 64" "a mod 4 * 16 + b div 16 < 64" "b mod 16 * 4 + c div 64 < 64" "c mod 64 < 64" using "4.prems" by auto
  with 4 show ?case by (simp add: b64_relevant_def b64_char_ascii)
qed (auto simp: b64_relevant_def b64_char_ascii)

lemma b64decode_encode: "\<forall>b \<in> set bs. b < 256 \<Longrightarrow> b64decode (b64encode bs) = Inr bs"
  using b64encode_chars [of bs]
  by (intro b64_round_trip) (auto simp: list_all_iff filter_id_conv)

section \<open>Splitting at a longer separator\<close>

text \<open>\<open>s.split(sep)\<close>; \<open>k\<close> is how many characters of the separator are still to be skipped.\<close>

fun split_loop_str :: "pystr \<Rightarrow> nat \<Rightarrow> pystr \<Rightarrow> pystr list" where
  "split_loop_str sep k [] = [[]]"
| "split_loop_str sep k (c # cs) =
     (if k > 0 then split_loop_str sep (k - 1) cs
      else if py_startswith (c # cs) sep then [] # split_loop_str sep (length sep - 1) cs
      else (case split_loop_str sep 0 cs of [] \<Rightarrow> [[c]] | w # ws \<Rightarrow> (c # w) # ws))"

definition split_str :: "pystr \<Rightarrow> pystr \<Rightarrow> pystr list" where
  "split_str sep s = split_loop_str sep 0 s"

lemma split_loop_str_not_Nil [simp]: "split_loop_str sep k s \<noteq> []"
  by (induction s arbitrary: k) (auto split: list.split)

lemma split_str_not_Nil [simp]: "split_str sep s \<noteq> []"
  by (simp add: split_str_def)

lemma split_loop_str_skip: "split_loop_str sep (length a) (a @ r) = split_loop_str sep 0 r"
  by (induction a) simp_all

lemma split_str_hit:
  assumes "sep \<noteq> []"
  shows "split_str sep (sep @ r) = [] # split_str sep r"
proof -
  from assms obtain c cs where sep: "sep = c # cs" by (meson list.exhaust)
  show ?thesis using split_loop_str_skip [of sep cs r] by (simp add: split_str_def sep py_startswith_def)
qed

text \<open>Characters that cannot begin the separator are kept.\<close>

lemma split_str_pass:
  assumes "hd sep \<notin> set a" "sep \<noteq> []"
  shows "split_str sep (a @ r) = (a @ hd (split_str sep r)) # tl (split_str sep r)"
  using assms(1)
proof (induction a)
  case (Cons c cs)
  then have "\<not> py_startswith ((c # cs) @ r) sep" using assms(2) by (cases sep) (auto simp: py_startswith_def)
  with Cons show ?case by (simp add: split_str_def)
qed (simp add: split_str_def)

end
