(* ===== verification/Tls.thy ===== *)
theory Tls
  imports Pinned_Http Base64 Actions
begin

text \<open>
  The server's certificate, \<open>server/gtg_server/tlsutil.py\<close>: the names it is made for, its creation
  by the \<open>openssl\<close> program, and the fingerprint clients pin; and the client of \<open>Pinned_Http\<close> that
  pins it.  Files are a map from paths to contents and permission bits; \<open>inet_pton\<close>, the machine's
  own names and the \<open>openssl\<close> program are the environment.  \<open>Inl OtherError\<close> of \<open>run_openssl\<close> is
  \<open>CalledProcessError\<close>.
\<close>

unbundle bit_operations_syntax

section \<open>The names\<close>

record tls_fs =
  tf_files :: "(pystr \<times> pystr \<times> nat) list"
  tf_umask :: nat

record tls_env =
  te_pton :: "family \<Rightarrow> pystr \<Rightarrow> exn + unit"
  te_host :: "pystr option"
  te_lan :: "pystr option"
  te_makedirs :: "pystr \<Rightarrow> exn + unit"
  te_openssl :: "pystr list \<Rightarrow> tls_fs \<Rightarrow> (exn + int) \<times> tls_fs"

text \<open>The set as a sorted list without repetitions; \<open>None\<close>: \<open>OSError\<close>.\<close>

definition default_sans :: "tls_env \<Rightarrow> pystr list" where
  "default_sans env = sort (remdups (map str_of [''localhost'', ''127.0.0.1'', ''::1'']
     @ (case te_host env of None \<Rightarrow> [] | Some h \<Rightarrow> [h]) @ (case te_lan env of None \<Rightarrow> [] | Some ip \<Rightarrow> [ip])))"

definition san_part :: "tls_env \<Rightarrow> pystr \<Rightarrow> exn + pystr" where
  "san_part env san =
     (let stripped = py_strip san
      in case te_pton env Inet stripped of
           Inr _ \<Rightarrow> Inr (str_of ''IP:'' @ stripped)
         | Inl e \<Rightarrow> if e \<noteq> OSError then Inl e
             else (case te_pton env Inet6 stripped of
               Inr _ \<Rightarrow> Inr (str_of ''IP:'' @ stripped)
             | Inl e \<Rightarrow> if e \<noteq> OSError then Inl e else Inr (str_of ''DNS:'' @ stripped)))"

definition san_string :: "tls_env \<Rightarrow> pystr list \<Rightarrow> exn + pystr" where
  "san_string env sans = bind_exn (traverse (san_part env) sans) (\<lambda>parts. Inr (py_join [44] parts))"

section \<open>The files\<close>

type_synonym 'r tact = "(tls_fs, 'r) act"

definition isfile :: "tls_fs \<Rightarrow> pystr \<Rightarrow> bool" where
  "isfile st path \<longleftrightarrow> map_of (tf_files st) path \<noteq> None"

definition set_umask :: "nat \<Rightarrow> tls_fs \<Rightarrow> tls_fs" where
  "set_umask bits st = st\<lparr>tf_umask := bits\<rparr>"

definition chmod :: "pystr \<Rightarrow> nat \<Rightarrow> unit tact" where
  "chmod path mode st = (case map_of (tf_files st) path of
     None \<Rightarrow> (Inl OSError, st)
   | Some (body, _) \<Rightarrow> (Inr (), st\<lparr>tf_files := AList.update path (body, mode) (tf_files st)\<rparr>))"

definition cert_path :: "pystr \<Rightarrow> pystr" where "cert_path dir = path_join dir (str_of ''server.crt'')"
definition key_path :: "pystr \<Rightarrow> pystr" where "key_path dir = path_join dir (str_of ''server.key'')"

definition openssl_args :: "pystr \<Rightarrow> pystr \<Rightarrow> pystr \<Rightarrow> pystr list" where
  "openssl_args key cert names =
     map str_of [''openssl'', ''req'', ''-x509'', ''-newkey'', ''ec'', ''-pkeyopt'', ''ec_paramgen_curve:P-256'', ''-nodes'', ''-keyout'']
     @ [key, str_of ''-out'', cert] @ map str_of [''-days'', ''3650'', ''-subj'', ''/CN=generic-text-gateway'', ''-addext'']
     @ [str_of ''subjectAltName='' @ names]"

definition run_openssl :: "tls_env \<Rightarrow> pystr list \<Rightarrow> unit tact" where
  "run_openssl env args = andThen (te_openssl env args) (\<lambda>code. if code \<noteq> 0 then throw OtherError else ret ())"

definition ensure_cert :: "tls_env \<Rightarrow> pystr \<Rightarrow> pystr list \<Rightarrow> (pystr \<times> pystr) tact" where
  "ensure_cert env dir sans =
     (let cert = cert_path dir; key = key_path dir
      in look (\<lambda>st.
        if isfile st cert \<and> isfile st key then ret (cert, key)
        else andThen (lift (te_makedirs env dir)) (\<lambda>_.
          andThen (change (set_umask 63)) (\<lambda>_.
          andThen (ensure (andThen (lift (san_string env sans)) (\<lambda>names. run_openssl env (openssl_args key cert names)))
                     (set_umask (tf_umask st))) (\<lambda>_.
          andThen (chmod key 384) (\<lambda>_.
          andThen (chmod cert 420) (\<lambda>_. ret (cert, key))))))))"

text \<open>\<open>fingerprint\<close>: what is between the first two markers, decoded and hashed.\<close>

definition BEGIN_CERT :: pystr where "BEGIN_CERT = str_of ''-----BEGIN CERTIFICATE-----''"
definition END_MARK :: pystr where "END_MARK = str_of ''-----END''"

definition fingerprint :: "(pybytes \<Rightarrow> pystr) \<Rightarrow> tls_fs \<Rightarrow> pystr \<Rightarrow> exn + pystr" where
  "fingerprint digest st path =
     (case map_of (tf_files st) path of
        None \<Rightarrow> Inl OSError
      | Some (pem, _) \<Rightarrow>
          bind_exn (py_index (split_str BEGIN_CERT pem) 1) (\<lambda>r.
          bind_exn (py_index (split_str END_MARK r) 0) (\<lambda>body.
          bind_exn (b64decode body) (\<lambda>der. Inr (digest der)))))"

section \<open>One certificate, for ever\<close>

lemma cert_key_differ: "cert_path dir \<noteq> key_path dir"
  by (simp add: cert_path_def key_path_def path_join_def str_of_def)

lemma ensure_cert_again:
  assumes "isfile st (cert_path dir)" "isfile st (key_path dir)"
  shows "ensure_cert env dir sans st = (Inr (cert_path dir, key_path dir), st)"
  using assms by (simp add: ensure_cert_def Let_def)

text \<open>The last two steps.\<close>

definition set_modes :: "pystr \<Rightarrow> (pystr \<times> pystr) tact" where
  "set_modes dir = andThen (chmod (key_path dir) 384) (\<lambda>_. andThen (chmod (cert_path dir) 420) (\<lambda>_. ret (cert_path dir, key_path dir)))"

lemma set_modes_cases:
  assumes "set_modes dir st = (r, st')"
  shows "tf_umask st' = tf_umask st" "map_option fst (map_of (tf_files st') p) = map_option fst (map_of (tf_files st) p)"
    and "map_of (tf_files st') (key_path dir) = map_option (\<lambda>(body, _). (body, 384)) (map_of (tf_files st) (key_path dir))"
    and "r = Inr y \<Longrightarrow> y = (cert_path dir, key_path dir) \<and> isfile st' (cert_path dir) \<and> isfile st' (key_path dir)"
  using assms cert_key_differ [of dir]
  by (auto simp: set_modes_def andThen_def chmod_def map_of_update isfile_def split: option.splits prod.splits if_splits)

text \<open>What a call does: nothing but raise or find both files; or it runs the program once, under the
  mask 077, and the modes are set when that succeeds.\<close>

lemma ensure_cert_cases:
  assumes "ensure_cert env dir sans st = (r, st')"
  obtains (none) e where "r = Inl e" "st' = st"
  | (there) "r = Inr (cert_path dir, key_path dir)" "st' = st" "isfile st (cert_path dir)" "isfile st (key_path dir)"
  | (failed) names e res st1 where "te_openssl env (openssl_args (key_path dir) (cert_path dir) names) (set_umask 63 st) = (res, st1)"
      "r = Inl e" "st' = set_umask (tf_umask st) st1"
  | (made) names st1 where "te_openssl env (openssl_args (key_path dir) (cert_path dir) names) (set_umask 63 st) = (Inr 0, st1)"
      "set_modes dir (set_umask (tf_umask st) st1) = (r, st')"
proof (cases "isfile st (cert_path dir) \<and> isfile st (key_path dir)")
  case True
  with assms ensure_cert_again there show thesis by auto
next
  case False
  let ?key = "key_path dir" and ?cert = "cert_path dir"
  show thesis
  proof (cases "te_makedirs env dir")
    case (Inl e)
    with assms False show thesis by (intro none) (auto simp: ensure_cert_def Let_def andThen_def)
  next
    case mk: (Inr x)
    show thesis
    proof (cases "san_string env sans")
      case (Inl e)
      with assms False mk show thesis by (intro none) (auto simp: ensure_cert_def Let_def andThen_def ensure_def set_umask_def)
    next
      case (Inr names)
      obtain res st1 where o: "te_openssl env (openssl_args ?key ?cert names) (set_umask 63 st) = (res, st1)" by fastforce
      have run: "(r, st') = (if res = Inr 0 then set_modes dir (set_umask (tf_umask st) st1)
          else (Inl (case res of Inl e \<Rightarrow> e | Inr _ \<Rightarrow> OtherError), set_umask (tf_umask st) st1))"
        using assms False mk Inr o
        by (auto simp: ensure_cert_def Let_def andThen_def ensure_def run_openssl_def set_modes_def split: sum.splits)
      show thesis
      proof (cases "res = Inr 0")
        case True
        with o run show thesis by (intro made) auto
      next
        case False
        with o run show thesis by (intro failed) auto
      qed
    qed
  qed
qed

lemma ensure_cert_files:
  assumes "ensure_cert env dir sans st = (Inr y, st')"
  shows "y = (cert_path dir, key_path dir) \<and> isfile st' (cert_path dir) \<and> isfile st' (key_path dir)"
  using assms by (cases rule: ensure_cert_cases) (use set_modes_cases(4) in auto)

text \<open>The process's mask is always set back.\<close>

lemma ensure_cert_umask: "ensure_cert env dir sans st = (r, st') \<Longrightarrow> tf_umask st' = tf_umask st"
  by (erule ensure_cert_cases) (use set_modes_cases(1) in \<open>auto simp: set_umask_def\<close>)

text \<open>The key is private from the moment it exists: when the program creates files as the mask allows,
  a key that was not there before never has a permission of group or others.\<close>

lemma key_private:
  assumes "ensure_cert env dir sans st = (r, st')" "\<not> isfile st (key_path dir)"
    and "\<And>args s res s1 p body mode. te_openssl env args s = (res, s1) \<Longrightarrow> map_of (tf_files s1) p = Some (body, mode)
      \<Longrightarrow> map_of (tf_files s) p = None \<Longrightarrow> mode AND tf_umask s = 0"
    and "map_of (tf_files st') (key_path dir) = Some (body, mode)"
  shows "mode AND 63 = 0"
  using assms(1)
proof (cases rule: ensure_cert_cases)
  case (failed names e res st1)
  have "map_of (tf_files (set_umask 63 st)) (key_path dir) = None"
    using assms(2) by (cases "map_of (tf_files st) (key_path dir)") (simp_all add: isfile_def set_umask_def)
  from assms(3) [OF failed(1) _ this] assms(4) failed(3) show ?thesis by (simp add: set_umask_def)
next
  case (made names st1)
  have "(384 :: nat) AND 63 = 0" by code_simp
  with set_modes_cases(3) [OF made(2)] assms(4) show ?thesis by (auto simp: map_option_case split: option.splits)
qed (use assms(2,4) in \<open>auto simp: isfile_def\<close>)

section \<open>The fingerprint of a certificate file\<close>

text \<open>A file that begins, after text without dashes, with the certificate \<open>der\<close>: its base64 form, broken
  into lines in any way, between the markers; what follows the end marker (more certificates of a
  chain, a key) does not matter.\<close>

definition pem_file :: "pybytes \<Rightarrow> pystr \<Rightarrow> bool" where
  "pem_file der pem \<longleftrightarrow> (\<exists>before body rest. pem = before @ BEGIN_CERT @ body @ END_MARK @ rest \<and> 45 \<notin> set before \<and> 45 \<notin> set body
     \<and> filter b64_relevant body = b64encode der \<and> list_all (\<lambda>c. c < 128) body)"

lemma split_end: "hd (split_str BEGIN_CERT (END_MARK @ rest)) = END_MARK @ hd (split_str BEGIN_CERT rest)"
proof -
  have marks: "BEGIN_CERT = [45, 45, 45, 45, 45, 66, 69, 71, 73, 78, 32, 67, 69, 82, 84, 73, 70, 73, 67, 65, 84, 69, 45, 45, 45, 45, 45]"
    "END_MARK = [45, 45, 45, 45, 45, 69, 78, 68]" by code_simp+
  show ?thesis by (simp add: marks split_str_def py_startswith_def split: list.split)
qed

lemma fingerprint_pem:
  assumes "pem_file der pem" "\<forall>b \<in> set der. b < 256" "map_of (tf_files st) path = Some (pem, mode)"
  shows "fingerprint digest st path = Inr (digest der)"
proof -
  obtain before body rest where pem: "pem = before @ BEGIN_CERT @ body @ END_MARK @ rest" "45 \<notin> set before" "45 \<notin> set body"
    and body: "filter b64_relevant body = b64encode der" "list_all (\<lambda>c. c < 128) body"
    using assms(1) unfolding pem_file_def by blast
  have marks: "hd BEGIN_CERT = 45" "BEGIN_CERT \<noteq> []" "hd END_MARK = 45" "END_MARK \<noteq> []" by code_simp+
  let ?after = "END_MARK @ hd (split_str BEGIN_CERT rest)"
  have "split_str BEGIN_CERT pem = before # (body @ ?after) # tl (split_str BEGIN_CERT (END_MARK @ rest))"
    using pem marks by (simp add: split_str_pass split_str_hit split_end)
  moreover have "py_index (split_str END_MARK (body @ ?after)) 0 = Inr body"
    using pem(3) marks by (simp add: split_str_pass split_str_hit)
  moreover have "b64decode body = Inr der" by (rule b64_round_trip [OF assms(2) body])
  ultimately show ?thesis using assms(3) by (simp add: fingerprint_def py_index_def)
qed

text \<open>Restarts, each in an environment of its own (other names, another \<open>openssl\<close>).\<close>

fun cert_runs :: "pystr \<Rightarrow> (tls_env \<times> pystr list) list \<Rightarrow> tls_fs \<Rightarrow> (exn + pystr \<times> pystr) list \<times> tls_fs" where
  "cert_runs dir [] st = ([], st)"
| "cert_runs dir ((env, sans) # rs) st =
     (case ensure_cert env dir sans st of (r, st1) \<Rightarrow> (case cert_runs dir rs st1 of (xs, st2) \<Rightarrow> (r # xs, st2)))"

lemma cert_runs_again:
  assumes "isfile st (cert_path dir)" "isfile st (key_path dir)"
  shows "cert_runs dir runs st = (replicate (length runs) (Inr (cert_path dir, key_path dir)), st)"
  using ensure_cert_again [OF assms] by (induction runs) auto

lemma configured_pin:
  assumes "server_connection urlsplit exists loads vals = Inr c"
  shows "sc_pin c = strip_colons (cfg_str vals ''SERVER_PIN_SHA256'')"
  using assms unfolding server_connection_def checked_conn_def
  by (auto simp: Let_def bind_exn_eq_Inr split: if_splits)

text \<open>C37. The pin works and lasts: once the server has its certificate, every restart, whatever names
  the machine has by then, finds the same files and changes nothing; the fingerprint it prints is
  the hash of the certificate in the file; and a client configured with it, in upper case or with
  colons as \<open>openssl\<close> prints it, connects, over any number of connections, exactly to peers that
  present a certificate with that hash.\<close>

theorem fingerprint_pins:
  assumes "ensure_cert env dir sans st = (Inr (cert, key), st1)" "map_of (tf_files st1) cert = Some (pem, mode)"
    and "pem_file der pem" "\<forall>b \<in> set der. b < 256" "hex_text digest"
    and "server_connection urlsplit exists loads vals = Inr c"
    and "fingerprint digest st1 cert = Inr (strip_colons (cfg_str vals ''SERVER_PIN_SHA256''))"
  shows "cert_runs dir runs st1 = (replicate (length runs) (Inr (cert, key)), st1)
    \<and> fingerprint digest st1 cert = Inr (digest der)
    \<and> connects digest c peers stored =
        (map (\<lambda>(d, _). if digest d = digest der then Connected else PinError) peers, stored)"
proof -
  have f: "cert = cert_path dir" "key = key_path dir" "isfile st1 (cert_path dir)" "isfile st1 (key_path dir)"
    using ensure_cert_files [OF assms(1)] by auto
  have fp: "fingerprint digest st1 cert = Inr (digest der)" by (rule fingerprint_pem [OF assms(3,4,2)])
  then have "sc_pin c = digest der" "digest der \<noteq> []"
    using assms(5,7) configured_pin [OF assms(6)] by (auto simp: hex_text_def)
  then show ?thesis using fp connects_pin [of c digest peers stored] cert_runs_again [OF f(3,4)] f(1,2) by simp
qed

text \<open>An example: a certificate of three bytes, two restarts under another name.\<close>

definition example_pem :: pystr where
  "example_pem = BEGIN_CERT @ [10] @ str_of ''AQID'' @ [10] @ END_MARK @ str_of '' CERTIFICATE-----'' @ [10]"

definition example_tls :: tls_env where
  "example_tls = \<lparr>te_pton = (\<lambda>_ s. if hd s < 60 then Inr () else Inl OSError), te_host = Some (str_of ''gw''), te_lan = None,
     te_makedirs = (\<lambda>_. Inr ()),
     te_openssl = (\<lambda>args st. (Inr 0, st\<lparr>tf_files := [(args ! 9, str_of ''KEY'', 384), (args ! 11, example_pem, 384)]\<rparr>))\<rparr>"

definition example_hash :: "pybytes \<Rightarrow> pystr" where
  "example_hash b = replicate 64 (if b = [1, 2, 3] then 98 else 97)"

definition example_pinned :: settings where
  "example_pinned = AList.update (str_of ''SERVER_URL'') (str_of ''https://gw'')
     (AList.update (str_of ''SERVER_PIN_SHA256'') ([66, 58] @ replicate 63 66) CLIENT_DEFAULTS)"

theorem fingerprint_pins_witness:
  "\<exists>st1 c. fst (ensure_cert example_tls (str_of ''/d'') (default_sans example_tls) \<lparr>tf_files = [], tf_umask = 18\<rparr>)
        = Inr (str_of ''/d/server.crt'', str_of ''/d/server.key'')
    \<and> fst (cert_runs (str_of ''/d'') [(example_tls, []), (example_tls, [[]])] st1)
        = replicate 2 (Inr (str_of ''/d/server.crt'', str_of ''/d/server.key''))
    \<and> server_connection example_urlsplit (\<lambda>_. False) (\<lambda>_. False) example_pinned = Inr c
    \<and> fst (connects example_hash c [([1, 2, 3], False, True), ([7], True, True)] None) = [Connected, PinError]"
proof -
  define st1 where "st1 = snd (ensure_cert example_tls (str_of ''/d'') (default_sans example_tls) \<lparr>tf_files = [], tf_umask = 18\<rparr>)"
  have "fst (ensure_cert example_tls (str_of ''/d'') (default_sans example_tls) \<lparr>tf_files = [], tf_umask = 18\<rparr>)
      = Inr (str_of ''/d/server.crt'', str_of ''/d/server.key'')" by code_simp
  then have e: "ensure_cert example_tls (str_of ''/d'') (default_sans example_tls) \<lparr>tf_files = [], tf_umask = 18\<rparr>
      = (Inr (str_of ''/d/server.crt'', str_of ''/d/server.key''), st1)" by (simp add: st1_def prod_eq_iff)
  have crt: "map_of (tf_files st1) (str_of ''/d/server.crt'') = Some (example_pem, 420)" unfolding st1_def by code_simp
  have "45 \<notin> set ([10] @ str_of ''AQID'' @ [10])" "filter b64_relevant ([10] @ str_of ''AQID'' @ [10]) = b64encode [1, 2, 3]"
    "list_all (\<lambda>c. c < 128) ([10] @ str_of ''AQID'' @ [10])" by code_simp+
  then have pem: "pem_file [1, 2, 3] example_pem" unfolding pem_file_def example_pem_def
    by (intro exI [of _ "[]"] exI [of _ "[10] @ str_of ''AQID'' @ [10]"]
        exI [of _ "str_of '' CERTIFICATE-----'' @ [10]"]) simp
  have "list_all lower_hex (replicate 64 98)" "list_all lower_hex (replicate 64 97)" by code_simp+
  then have hex: "hex_text example_hash" by (auto simp: hex_text_def example_hash_def)
  have "case server_connection example_urlsplit (\<lambda>_. False) (\<lambda>_. False) example_pinned of Inr c \<Rightarrow> True | Inl _ \<Rightarrow> False" by code_simp
  then obtain c where c: "server_connection example_urlsplit (\<lambda>_. False) (\<lambda>_. False) example_pinned = Inr c"
    by (auto split: sum.splits)
  have pin: "fingerprint example_hash st1 (str_of ''/d/server.crt'') = Inr (strip_colons (cfg_str example_pinned ''SERVER_PIN_SHA256''))"
    unfolding st1_def by code_simp
  have "example_hash [1, 2, 3] \<noteq> example_hash [7]" by (simp add: example_hash_def)
  with fingerprint_pins [OF e crt pem _ hex c pin, where peers = "[([1, 2, 3], False, True), ([7], True, True)]" and stored = None
      and runs = "[(example_tls, []), (example_tls, [[]])]"] e c
  show ?thesis
    by (intro exI [of _ st1] exI [of _ c]) (simp del: cert_runs.simps connects.simps One_nat_def add: numeral_2_eq_2)
qed

end
