(* ===== verification/Credentials.thy ===== *)
theory Credentials
  imports Base64 Config Sse
begin

text \<open>
  Making credentials, \<open>hash-password\<close> and \<open>hash-token\<close> of \<open>server/gtg_server/cli.py\<close>, and their way
  into the server: the printed line, the shell that reads it, the environment, the principals, and
  the header of a request.
\<close>

section \<open>The commands\<close>

definition PBKDF2_ITERATIONS :: int where "PBKDF2_ITERATIONS = 210000"

text \<open>\<open>lower\<close> on what the pattern accepts afterwards: ASCII capitals and the Kelvin sign, the only other
  character whose lower case is ASCII.\<close>

definition lower_name :: "pystr \<Rightarrow> pystr" where
  "lower_name s = map (\<lambda>c. if 65 \<le> c \<and> c \<le> 90 then c + 32 else if c = 8490 then 107 else c) s"

definition name_start :: "nat \<Rightarrow> bool" where
  "name_start c \<longleftrightarrow> 97 \<le> c \<and> c \<le> 122 \<or> ascii_digit c"

definition valid_name :: "pystr \<Rightarrow> bool" where
  "valid_name s \<longleftrightarrow> (case s of [] \<Rightarrow> False | c # cs \<Rightarrow> name_start c \<and> list_all (\<lambda>c. name_start c \<or> c = 95 \<or> c = 45) cs)"

definition chosen_scope :: "pystr \<Rightarrow> pystr" where
  "chosen_scope scope_in = (if py_strip scope_in = [] then str_of ''all'' else py_strip scope_in)"

text \<open>The exit code and what goes to the standard output; the four inputs are what is typed.\<close>

definition cmd_hash_password ::
  "kdf \<Rightarrow> pybytes \<Rightarrow> pystr \<Rightarrow> pystr \<Rightarrow> pystr \<Rightarrow> pystr \<Rightarrow> exn + int \<times> pystr" where
  "cmd_hash_password kdf salt name_in scope_in pw again =
     (let name = lower_name (py_strip name_in); sc = chosen_scope scope_in
      in if \<not> valid_name name then Inr (1, [])
         else if parse_scope sc = None then Inr (1, [])
         else if pw \<noteq> again then Inr (1, [])
         else bind_exn (hash_password kdf pw PBKDF2_ITERATIONS salt) (\<lambda>h.
           Inr (0, str_of ''export GTG_USER_'' @ name @ [61, 39] @ sc @ [58] @ h @ [39])))"

definition cmd_hash_token :: "(pybytes \<Rightarrow> pystr) \<Rightarrow> pystr \<Rightarrow> exn + int \<times> pystr" where
  "cmd_hash_token digest line =
     (let token = py_strip line
      in if token = [] then Inr (1, [])
         else bind_exn (hash_token digest token) (\<lambda>h. Inr (0, str_of ''sha256:'' @ h)))"

section \<open>The shell\<close>

text \<open>What a POSIX shell makes of a line \<open>export NAME='value'\<close>: the name is an identifier.\<close>

definition shell_name :: "pystr \<Rightarrow> bool" where
  "shell_name s \<longleftrightarrow> s \<noteq> [] \<and> \<not> ascii_digit (hd s)
     \<and> list_all (\<lambda>c. 65 \<le> c \<and> c \<le> 90 \<or> 97 \<le> c \<and> c \<le> 122 \<or> ascii_digit c \<or> c = 95) s"

definition shell_export :: "pystr \<Rightarrow> (pystr \<times> pystr) option" where
  "shell_export line =
     (if \<not> py_startswith line (str_of ''export '') then None
      else (case py_partition 61 (drop 7 line) of
          (_, None) \<Rightarrow> None
        | (k, Some v) \<Rightarrow>
            (if shell_name k \<and> length v \<ge> 2 \<and> hd v = 39 \<and> last v = 39 \<and> 39 \<notin> set (butlast (tl v))
             then Some (k, butlast (tl v)) else None)))"

lemma valid_name_chars:
  assumes "valid_name s" "c \<in> set s"
  shows "c \<notin> {0, 32, 36, 39, 58, 61}" "c < 128" "\<not> (65 \<le> c \<and> c \<le> 90)"
  using assms by (auto simp: valid_name_def name_start_def ascii_digit_def list_all_iff split: list.splits)

lemma parse_scope_chars:
  assumes "parse_scope s = Some x"
  shows "s \<noteq> []" "\<not> py_isspace (hd s)" "58 \<notin> set s" "39 \<notin> set s"
proof -
  have "s \<in> {str_of ''send'', str_of ''receive'', str_of ''all''}"
    using assms by (auto simp: parse_scope_def split: if_splits)
  moreover have "list_all (\<lambda>s. s \<noteq> [] \<and> \<not> py_isspace (hd s) \<and> 58 \<notin> set s \<and> 39 \<notin> set s)
    [str_of ''send'', str_of ''receive'', str_of ''all'']" by code_simp
  ultimately show "s \<noteq> []" "\<not> py_isspace (hd s)" "58 \<notin> set s" "39 \<notin> set s" by (auto simp: list_all_iff)
qed

text \<open>The hash is text without quotes, colons or blanks.\<close>

definition hash_char :: "nat \<Rightarrow> bool" where
  "hash_char c \<longleftrightarrow> ascii_digit c \<or> 97 \<le> c \<and> c \<le> 122 \<or> c \<in> {36, 45, 95}"

lemma hash_char_not: "hash_char c \<Longrightarrow> c \<noteq> 39 \<and> c \<noteq> 58 \<and> c \<noteq> 61"
  by (auto simp: hash_char_def ascii_digit_def)

lemma hash_char_space: "hash_char c \<Longrightarrow> \<not> py_isspace c"
proof -
  have "list_all (\<lambda>c. hash_char c \<longrightarrow> \<not> py_isspace c) [0..<128]" by code_simp
  moreover assume "hash_char c"
  moreover from this have "c < 128" by (auto simp: hash_char_def ascii_digit_def)
  ultimately show ?thesis by (auto simp: list_all_iff)
qed

lemma hash_password_chars:
  assumes "hash_password kdf pw n salt = Inr h" "\<forall>b \<in> set salt. b < 256"
    and "\<And>b dk. kdf b salt n = Inr dk \<Longrightarrow> \<forall>x \<in> set dk. x < 256"
  shows "list_all hash_char h" "py_startswith h (str_of ''pbkdf2_sha256$'')" "h \<noteq> []"
proof -
  obtain b dk where h: "h = str_of ''pbkdf2_sha256$'' @ int_dec n @ [36] @ hex_lower salt @ [36] @ hex_lower dk"
    and dk: "kdf b salt n = Inr dk"
    using assms(1) by (auto simp: hash_password_def bind_exn_eq_Inr)
  have "list_all hash_char (str_of ''pbkdf2_sha256$'')" by code_simp
  moreover have "hash_char c" if "c \<in> set (int_dec n)" for c using int_dec_chars [OF that] by (auto simp: hash_char_def)
  moreover have "hash_char c" if "c \<in> set (hex_lower salt)" for c
    using hex_lower_chars [OF assms(2) that] by (auto simp: hash_char_def lower_hex_def ascii_digit_def)
  moreover have "hash_char c" if "c \<in> set (hex_lower dk)" for c
    using hex_lower_chars [OF assms(3) [OF dk] that] by (auto simp: hash_char_def lower_hex_def ascii_digit_def)
  ultimately show "list_all hash_char h" unfolding h by (auto simp: list_all_iff hash_char_def)
  show "py_startswith h (str_of ''pbkdf2_sha256$'')" unfolding h by simp
  show "h \<noteq> []" unfolding h by (simp add: str_of_def)
qed

text \<open>What the shell makes of the printed line: nothing when the name has a hyphen, which the command
  accepts.\<close>

lemma printed_line:
  assumes "cmd_hash_password kdf salt name_in scope_in pw again = Inr (0, line)" "\<forall>b \<in> set salt. b < 256"
    and "\<And>b n dk. kdf b salt n = Inr dk \<Longrightarrow> \<forall>x \<in> set dk. x < 256"
  obtains name s h where "valid_name name" "name = lower_name (py_strip name_in)" "parse_scope (chosen_scope scope_in) = Some s"
    and "hash_password kdf pw PBKDF2_ITERATIONS salt = Inr h"
    and "shell_export line = (if 45 \<in> set name then None else Some (str_of ''GTG_USER_'' @ name, chosen_scope scope_in @ [58] @ h))"
proof -
  define name where "name = lower_name (py_strip name_in)"
  define sc where "sc = chosen_scope scope_in"
  obtain s h where n: "valid_name name" and s: "parse_scope sc = Some s" and h: "hash_password kdf pw PBKDF2_ITERATIONS salt = Inr h"
    and line: "line = str_of ''export GTG_USER_'' @ name @ [61, 39] @ sc @ [58] @ h @ [39]"
    using assms(1) unfolding cmd_hash_password_def name_def sc_def
    by (auto simp: Let_def bind_exn_eq_Inr split: if_splits)
  let ?k = "str_of ''GTG_USER_'' @ name" and ?v = "sc @ [58] @ h"
  have e: "str_of ''export GTG_USER_'' = str_of ''export '' @ str_of ''GTG_USER_''" "length (str_of ''export '') = 7"
    by code_simp+
  have d: "drop 7 line = ?k @ 61 # 39 # ?v @ [39]" and st: "py_startswith line (str_of ''export '')"
    unfolding line e using e(2) by simp_all
  have "61 \<notin> set (str_of ''GTG_USER_'')" by code_simp
  with valid_name_chars(1) [OF n] have "61 \<notin> set ?k" by auto
  then have p: "py_partition 61 (drop 7 line) = (?k, Some (39 # ?v @ [39]))" unfolding d by (rule py_partition_append)
  have "39 \<notin> set ?v"
    using hash_password_chars(1) [OF h assms(2)] assms(3) hash_char_not parse_scope_chars(4) [OF s]
    by (fastforce simp: list_all_iff)
  then have q: "39 \<notin> set (butlast (tl (39 # ?v @ [39])))" "butlast (tl (39 # ?v @ [39])) = ?v"
    by (simp_all add: butlast_append)
  have pre: "str_of ''GTG_USER_'' \<noteq> []" "\<not> ascii_digit (hd (str_of ''GTG_USER_''))"
    "list_all (\<lambda>c. 65 \<le> c \<and> c \<le> 90 \<or> 97 \<le> c \<and> c \<le> 122 \<or> ascii_digit c \<or> c = 95) (str_of ''GTG_USER_'')" by code_simp+
  have "shell_name ?k \<longleftrightarrow> 45 \<notin> set name"
  proof -
    have name: "c = 45 \<or> 97 \<le> c \<and> c \<le> 122 \<or> ascii_digit c \<or> c = 95" if "c \<in> set name" for c
      using n that by (auto simp: valid_name_def name_start_def list_all_iff split: list.splits)
    have "list_all (\<lambda>c. 65 \<le> c \<and> c \<le> 90 \<or> 97 \<le> c \<and> c \<le> 122 \<or> ascii_digit c \<or> c = 95) name \<longleftrightarrow> 45 \<notin> set name"
      using name by (fastforce simp: list_all_iff ascii_digit_def)
    with pre show ?thesis by (simp add: shell_name_def hd_append)
  qed
  then have "shell_export line = (if 45 \<in> set name then None else Some (?k, ?v))"
    using p q by (simp add: shell_export_def st)
  with n s h show thesis unfolding sc_def by (intro that [OF n name_def]) simp_all
qed

section \<open>From the environment to the principals\<close>

lemma fold_update_lookup:
  assumes "\<And>e v. e \<in> set es \<Longrightarrow> f e = Some (n, v) \<Longrightarrow> v = w" "e \<in> set es" "f e = Some (n, w)"
  shows "map_of (fold (\<lambda>e us. case f e of None \<Rightarrow> us | Some (k, v) \<Rightarrow> AList.update k v us) es us) n = Some w"
  using assms
proof (induction es arbitrary: e rule: rev_induct)
  case (snoc x xs)
  show ?case
  proof (cases "\<exists>v. f x = Some (n, v)")
    case True
    then obtain v where v: "f x = Some (n, v)" by blast
    with snoc.prems(1) [of x v] show ?thesis by (simp add: map_of_update)
  next
    case False
    with snoc.prems(2,3) have e: "e \<in> set xs" by auto
    have "v = w" if "e \<in> set xs" "f e = Some (n, v)" for e v using snoc.prems(1) [of e v] that by simp
    from snoc.IH [OF this e snoc.prems(3)] False show ?thesis
      by (auto simp: map_of_update split: option.splits)
  qed
qed simp

definition env_user :: "pystr \<times> pystr \<Rightarrow> (pystr \<times> pystr) option" where
  "env_user e = (case e of (k, v) \<Rightarrow>
     if py_startswith k (SERVER_PREFIX @ str_of ''USER_'') \<and> length k > 9 then Some (ascii_lower (drop 9 k), v) else None)"

lemma env_users_fold:
  "env_users env us = fold (\<lambda>e us. case env_user e of None \<Rightarrow> us | Some (k, v) \<Rightarrow> AList.update k v us) env us"
proof -
  have "length (SERVER_PREFIX @ str_of ''USER_'') = 9" by code_simp
  then have "(\<lambda>(k, v) us. if py_startswith k (SERVER_PREFIX @ str_of ''USER_'') \<and> length k > length (SERVER_PREFIX @ str_of ''USER_'')
        then AList.update (ascii_lower (drop (length (SERVER_PREFIX @ str_of ''USER_'')) k)) v us else us) e us
      = (case env_user e of None \<Rightarrow> us | Some (k, v) \<Rightarrow> AList.update k v us)" for e us
    by (cases e) (simp add: env_user_def)
  then show ?thesis unfolding env_users_def Let_def by presburger
qed

lemma fold_update_distinct:
  "distinct (map fst us) \<Longrightarrow> distinct (map fst (fold (\<lambda>e us. case f e of None \<Rightarrow> us | Some (k, v) \<Rightarrow> AList.update k v us) es us))"
  by (induction es arbitrary: us) (auto split: option.split intro: distinct_update)

lemma server_items_distinct: "distinct (map fst us) \<Longrightarrow> distinct (map fst (snd (fold server_item items (vals, us))))"
proof (induction items arbitrary: vals us)
  case (Cons item items)
  obtain x v where "item = (x, v)" by (cases item)
  with Cons show ?case by (auto simp: server_step distinct_update)
qed simp

lemma users_distinct: "distinct (map fst (snd (server_config env files)))"
proof -
  let ?f = "fold server_item (config_items SERVER_PREFIX SERVER_DEFAULTS env files) (SERVER_DEFAULTS, [])"
  have "distinct (map fst (snd ?f))" by (rule server_items_distinct) simp
  then show ?thesis
    by (cases ?f) (simp add: server_config_def env_users_fold fold_update_distinct)
qed

lemma environment_user:
  assumes "map_of env k = Some v" "distinct (map fst env)" "k = str_of ''GTG_USER_'' @ name" "name \<noteq> []" "ascii_lower name = name"
    and "\<And>k'. k' \<in> fst ` set env \<Longrightarrow> ascii_lower k' = ascii_lower k \<Longrightarrow> k' = k"
  shows "map_of (snd (server_config env files)) name = Some v"
proof -
  have pre: "SERVER_PREFIX @ str_of ''USER_'' = str_of ''GTG_USER_''" "length (str_of ''GTG_USER_'') = 9" by code_simp+
  have user: "env_user (k, v) = Some (name, v)"
    using assms(3,4,5) pre by (simp add: env_user_def)
  have "v' = v" if e: "e \<in> set env" "env_user e = Some (name, v')" for e v'
  proof -
    obtain k' w where kw: "e = (k', w)" by (cases e)
    have k': "py_startswith k' (str_of ''GTG_USER_'')" "ascii_lower (drop 9 k') = name" "w = v'"
      using e(2) pre by (auto simp: env_user_def kw split: if_splits)
    then have "take 9 k' = str_of ''GTG_USER_''" using pre(2) by (simp add: py_startswith_def)
    with append_take_drop_id [of 9 k'] have k2: "k' = str_of ''GTG_USER_'' @ drop 9 k'" by simp
    have "ascii_lower k' = ascii_lower (str_of ''GTG_USER_'') @ ascii_lower (drop 9 k')"
      using arg_cong [OF k2, of ascii_lower] by (simp only: ascii_lower_def map_append)
    also have "\<dots> = ascii_lower (str_of ''GTG_USER_'') @ ascii_lower name" using k'(2) assms(5) by (simp only:)
    also have "\<dots> = ascii_lower k" by (simp only: assms(3) ascii_lower_def map_append)
    finally have "ascii_lower k' = ascii_lower k" .
    moreover have "k' \<in> fst ` set env" using e(1) kw by force
    ultimately have "k' = k" using assms(6) by blast
    with e(1) kw k'(3) have "(k, v') \<in> set env" by blast
    then show ?thesis using map_of_SomeD [OF assms(1)] by (rule eq_key_imp_eq_value [OF assms(2)])
  qed
  from fold_update_lookup [where f = env_user and es = env and n = name, OF this map_of_SomeD [OF assms(1)] user] show ?thesis
    by (cases "fold server_item (config_items SERVER_PREFIX SERVER_DEFAULTS env files) (SERVER_DEFAULTS, [])")
      (simp add: server_config_def env_users_fold)
qed

lemma traverse_mem: "traverse f xs = Inr ys \<Longrightarrow> x \<in> set xs \<Longrightarrow> \<exists>y \<in> set ys. f x = Inr y"
  by (induction xs arbitrary: ys) (auto simp: bind_exn_eq_Inr)

lemma parse_user_name: "parse_user nv = Inr p \<Longrightarrow> p_name p = fst nv"
  by (cases nv) (auto simp: parse_user_def Let_def split: prod.splits option.splits if_splits)

lemma parse_users_names:
  assumes "parse_users us = Inr ps" "distinct (map fst us)"
  shows "distinct (map p_name ps)" "map_of us n = Some v \<Longrightarrow> \<exists>p \<in> set ps. parse_user (n, v) = Inr p \<and> p_name p = n"
proof -
  have t: "traverse parse_user (sort us) = Inr ps" using assms(1) by (simp add: parse_users_def)
  have "map p_name ps = map fst (sort us)"
  proof (rule nth_equalityI)
    show "length (map p_name ps) = length (map fst (sort us))" using traverse_eq_Inr_length [OF t] by simp
    fix i assume i: "i < length (map p_name ps)"
    then have "i < length (sort us)" using traverse_eq_Inr_length [OF t] by simp
    from parse_user_name [OF traverse_eq_Inr_nth [OF t this]] i this show "map p_name ps ! i = map fst (sort us) ! i" by simp
  qed
  moreover have "distinct (map fst (sort us))"
    using assms(2) by (metis distinct_map distinct_sort set_sort)
  ultimately show "distinct (map p_name ps)" by simp
  show "map_of us n = Some v \<Longrightarrow> \<exists>p \<in> set ps. parse_user (n, v) = Inr p \<and> p_name p = n"
    using traverse_mem [OF t, of "(n, v)"] parse_user_name by (fastforce dest: map_of_SomeD)
qed

section \<open>What a printed credential is worth\<close>

lemma printed_user:
  assumes "parse_scope sc = Some s" "list_all hash_char h" "py_startswith h (str_of ''pbkdf2_sha256$'')" "h \<noteq> []"
  shows "parse_user (name, sc @ [58] @ h) = Inr \<lparr>p_name = name, p_scope = s, p_kind = Pbkdf2, p_secret = h\<rparr>"
proof -
  note sc = parse_scope_chars [OF assms(1)]
  have "\<not> py_isspace (last h)" using assms(2,4) hash_char_space by (auto simp: list_all_iff)
  then have "py_strip (sc @ [58] @ h) = sc @ 58 # h"
    using sc assms(4) by (intro py_strip_id [THEN trans]) (auto simp: hd_append)
  moreover have "py_partition 58 (sc @ 58 # h) = (sc, Some h)" using sc(3) by (rule py_partition_append)
  ultimately show ?thesis using assms by (simp add: parse_user_def)
qed

lemma check_basic_own:
  assumes "p \<in> set ps" "distinct (map p_name ps)" "\<forall>q \<in> set ps. \<exists>b. utf8_encode (p_name q) = Inr b"
    and "p_kind p = Pbkdf2" "kdf_verify digest kdf (p_name p) pw (p_secret p) cache = (Inr True, cache')"
  shows "check_basic digest kdf (p_name p) pw ps cache = (Inr (Some (p_name p, p_scope p)), cache')"
  using assms(1-3)
proof (induction ps)
  case (Cons q ps)
  obtain a b where ab: "utf8_encode (p_name q) = Inr a" "utf8_encode (p_name p) = Inr b" using Cons.prems(1,3) by auto
  show ?case
  proof (cases "q = p")
    case True
    with ab assms(4,5) show ?thesis by (simp add: eq_text_def)
  next
    case False
    then have "p \<in> set ps" "p_name q \<noteq> p_name p" using Cons.prems(1,2) by auto
    moreover from this ab have "a \<noteq> b" using utf8_encode_inj by blast
    ultimately show ?thesis using Cons ab by (simp add: eq_text_def)
  qed
qed simp

lemma basic_header:
  assumes "utf8_encode (name @ [58] @ pw) = Inr cred" "58 \<notin> set name" "\<forall>b \<in> set cred. b < 256"
  shows "parse_auth (Some (str_of ''Basic '' @ b64encode cred)) = Basic name pw"
proof -
  have e: "str_of ''Basic '' = str_of ''Basic'' @ [32]" "32 \<notin> set (str_of ''Basic'')"
    "ascii_lower (py_strip (str_of ''Basic'')) = str_of ''basic''" "str_of ''basic'' \<noteq> str_of ''bearer''" by code_simp+
  have "cred \<noteq> []" using assms(1) by (auto simp: utf8_encode_append bind_exn_eq_Inr utf8_encode_Cons utf8_char_def is_surrogate_def)
  then have ne: "b64encode cred \<noteq> []" by (cases cred rule: b64encode.cases) simp_all
  have "\<not> py_isspace c" if "c \<in> set (b64encode cred)" for c
  proof -
    have "list_all (\<lambda>c. b64_relevant c \<longrightarrow> \<not> py_isspace c) [0..<128]" by code_simp
    with b64encode_chars [OF assms(3)] that show ?thesis by (auto simp: list_all_iff)
  qed
  then have s: "py_strip (b64encode cred) = b64encode cred" by (intro py_strip_no_space) blast
  have "py_partition 32 (str_of ''Basic '' @ b64encode cred) = (str_of ''Basic'', Some (b64encode cred))"
    using py_partition_append [OF e(2)] by (simp add: e(1))
  moreover have "py_partition 58 (name @ 58 # pw) = (name, Some pw)" using assms(2) by (rule py_partition_append)
  moreover have "utf8_decode_strict cred = Inr (name @ [58] @ pw)" using assms(1) by (rule utf8_decode_strict_encode)
  ultimately show ?thesis
    using e(3,4) ne s b64decode_encode [OF assms(3)] by (simp add: parse_auth_def Let_def e(1))
qed

lemma utf8_bytes: "utf8_encode s = Inr b \<Longrightarrow> x \<in> set b \<Longrightarrow> x < 256"
proof (induction s arbitrary: b)
  case (Cons c s)
  then obtain u v where u: "utf8_char c = Inr u" "utf8_encode s = Inr v" "b = u @ v" by (auto simp: utf8_encode_Cons bind_exn_eq_Inr)
  have "y < 256" if "y \<in> set u" for y
    using u(1) that by (auto simp: utf8_char_def split: if_splits)
  with u Cons show ?case by auto
qed simp

lemma ascii_encodes: "\<forall>c \<in> set s. c < 128 \<Longrightarrow> utf8_encode s = Inr s"
  by (induction s) (simp_all add: utf8_encode_Cons utf8_char_def is_surrogate_def)

text \<open>Nobody else: with an empty cache the check is the one without a cache, and a printed hash accepts
  only passwords with the same derived key.\<close>

lemma check_basic_empty: "fst (check_basic digest kdf user pw ps []) = check_basic_ref digest kdf user pw ps"
proof (induction ps)
  case (Cons p ps)
  have v: "fst (kdf_verify digest kdf n pw e []) = kdf_verify_ref kdf n pw e"
    "fst (kdf_verify digest kdf n pw e []) = Inr False \<Longrightarrow> snd (kdf_verify digest kdf n pw e []) = []" for n e
    by (auto simp: kdf_verify_def kdf_verify_ref_def Let_def split: sum.splits bool.splits)
  show ?case
  proof (cases "eq_text (p_name p) user = Inr True \<and> p_kind p = Pbkdf2")
    case True
    then have n: "p_name p = user" by (auto dest: eq_text_True)
    obtain r c where kv: "kdf_verify digest kdf user pw (p_secret p) [] = (r, c)" by fastforce
    with v [of user "p_secret p"] have "kdf_verify_ref kdf user pw (p_secret p) = r" "r = Inr False \<Longrightarrow> c = []" by simp_all
    with Cons True n kv show ?thesis by (cases r) (auto split: bool.split)
  next
    case False
    with Cons show ?thesis
      by (cases "eq_text (p_name p) user"; cases "p_kind p") (auto simp: bind_exn_def split: sum.splits bool.splits)
  qed
qed simp

lemma auth_check_empty: "fst (auth_check digest kdf users header []) = auth_ref digest kdf users header"
  using check_basic_empty by (cases "parse_auth header") (auto simp: auth_check_def auth_ref_def)

lemma printed_hash_only:
  assumes "hash_password kdf pw n salt = Inr encoded" "verify_password kdf pw' encoded = Inr True"
    and "\<forall>b \<in> set salt. b < 256" "\<And>b n dk. kdf b salt n = Inr dk \<Longrightarrow> \<forall>x \<in> set dk. x < 256"
  shows "\<exists>b b'. utf8_encode pw = Inr b \<and> utf8_encode pw' = Inr b' \<and> kdf b' salt n = kdf b salt n"
proof -
  obtain b dk where b: "utf8_encode pw = Inr b" "kdf b salt n = Inr dk"
    using assms(1) by (auto simp: hash_password_def bind_exn_eq_Inr)
  have e: "encoded = str_of ''pbkdf2_sha256'' @ 36 # int_dec n @ 36 # hex_lower salt @ 36 # hex_lower dk"
    using assms(1) b by (auto simp: hash_password_def str_of_def)
  have no: "36 \<notin> set (str_of ''pbkdf2_sha256'')" "36 \<notin> set (int_dec n)" "36 \<notin> set (hex_lower salt)"
    "36 \<notin> set (hex_lower dk)" "list_all (\<lambda>c. c < 128) (hex_lower dk)"
    using int_dec_chars [of 36 n] hex_lower_plain [OF assms(3)] hex_lower_plain [OF assms(4) [OF b(2)]]
    by (auto simp: ascii_digit_def str_of_def)
  then have "py_split 36 encoded = [str_of ''pbkdf2_sha256'', int_dec n, hex_lower salt, hex_lower dk]"
    unfolding e by (simp add: py_split_append py_split_one)
  with assms(2) no(5) fromhex_hex_lower [OF assms(3)] obtain b' dk' where
    "utf8_encode pw' = Inr b'" "kdf b' salt n = Inr dk'" "hex_lower dk' = hex_lower dk"
    by (auto simp: verify_password_def split: sum.splits exn.splits)
  with hex_lower_inj [OF assms(4) assms(4) [OF b(2)]] b show ?thesis by auto
qed

text \<open>C15. A credential made by \<open>hash-password\<close> works: when the shell takes the printed line and the
  server starts with an environment in which no other variable names the same principal, then
  whatever else is configured, a request with that name and the password is accepted with the
  scope that was asked for; and whatever request is accepted under that name is a Basic header with
  this name and this password, or one PBKDF2 derives the same key from, and gets no other scope.  (The
  shell does not take the line when the name has a hyphen.)\<close>

theorem printed_credential_works:
  assumes "cmd_hash_password kdf salt name_in scope_in pw again = Inr (0, line)" "shell_export line = Some (k, v)"
    and "map_of env k = Some v" "distinct (map fst env)"
    and "\<And>k'. k' \<in> fst ` set env \<Longrightarrow> ascii_lower k' = ascii_lower k \<Longrightarrow> k' = k"
    and "parse_users (snd (server_config env files)) = Inr ps" "\<forall>p \<in> set ps. \<exists>b. utf8_encode (p_name p) = Inr b"
    and "\<forall>b \<in> set salt. b < 256" "\<And>b n dk. kdf b salt n = Inr dk \<Longrightarrow> \<forall>x \<in> set dk. x < 256"
  shows "\<exists>name s cred. k = str_of ''GTG_USER_'' @ name \<and> parse_scope (chosen_scope scope_in) = Some s
    \<and> utf8_encode (name @ [58] @ pw) = Inr cred
    \<and> fst (auth_check digest kdf ps (Some (str_of ''Basic '' @ b64encode cred)) []) = Inr (Some (name, s))
    \<and> (\<forall>header s'. fst (auth_check digest kdf ps header []) = Inr (Some (name, s')) \<longrightarrow> s' = s
        \<and> (\<exists>pw' b b'. parse_auth header = Basic name pw' \<and> utf8_encode pw = Inr b \<and> utf8_encode pw' = Inr b'
             \<and> kdf b' salt PBKDF2_ITERATIONS = kdf b salt PBKDF2_ITERATIONS))"
proof -
  obtain name s h where n: "valid_name name" and s: "parse_scope (chosen_scope scope_in) = Some s"
    and h: "hash_password kdf pw PBKDF2_ITERATIONS salt = Inr h"
    and l: "shell_export line = (if 45 \<in> set name then None else Some (str_of ''GTG_USER_'' @ name, chosen_scope scope_in @ [58] @ h))"
    by (rule printed_line [OF assms(1,8,9)]) blast
  from l assms(2) have k: "k = str_of ''GTG_USER_'' @ name" and v: "v = chosen_scope scope_in @ [58] @ h"
    by (auto split: if_splits)
  note chars = valid_name_chars [OF n]
  have "name \<noteq> []" "ascii_lower name = name"
    using n chars(3) by (auto simp: valid_name_def ascii_lower_def intro!: map_idI)
  then have "map_of (snd (server_config env files)) name = Some v" using environment_user [OF assms(3,4) k] assms(5) by blast
  then obtain p where "p \<in> set ps" "parse_user (name, v) = Inr p"
    using parse_users_names(2) [OF assms(6) users_distinct] by blast
  then have p: "\<lparr>p_name = name, p_scope = s, p_kind = Pbkdf2, p_secret = h\<rparr> \<in> set ps" (is "?p \<in> _")
    using printed_user [OF s] hash_password_chars [OF h assms(8)] assms(9) v by fastforce
  obtain b dk where b: "utf8_encode pw = Inr b" "kdf b salt PBKDF2_ITERATIONS = Inr dk"
    using h by (auto simp: hash_password_def bind_exn_eq_Inr)
  have ok: "verify_password kdf pw h = Inr True"
    using hash_verify [OF h assms(8) b(2,1) b(2,1)] assms(9) [OF b(2)] by simp
  have enc: "utf8_encode name = Inr name" using chars(2) by (intro ascii_encodes) blast
  then have "utf8_encode (name @ [58] @ pw) = Inr (name @ [58] @ b)" "utf8_encode (name @ [0] @ pw) = Inr (name @ [0] @ b)"
    using b(1) by (simp_all add: utf8_encode_append utf8_encode_Cons utf8_char_def is_surrogate_def)
  moreover from this(2) obtain cache where "kdf_verify digest kdf name pw h [] = (Inr True, cache)"
    using ok by (simp add: kdf_verify_def kdf_key_def Let_def)
  with p check_basic_own [OF p parse_users_names(1) [OF assms(6) users_distinct] assms(7)]
  have "check_basic digest kdf name pw ps [] = (Inr (Some (name, s)), cache)" by simp
  moreover have "parse_auth (Some (str_of ''Basic '' @ b64encode (name @ [58] @ b))) = Basic name pw"
    using basic_header calculation(1) chars(1) utf8_bytes by blast
  moreover have "s' = s \<and> (\<exists>pw' b b'. parse_auth header = Basic name pw' \<and> utf8_encode pw = Inr b \<and> utf8_encode pw' = Inr b'
      \<and> kdf b' salt PBKDF2_ITERATIONS = kdf b salt PBKDF2_ITERATIONS)"
    if "fst (auth_check digest kdf ps header []) = Inr (Some (name, s'))" for header s'
  proof -
    from auth_ref_sound [OF that [unfolded auth_check_empty]] obtain q where q: "q \<in> set ps" "p_name q = name" "p_scope q = s'"
      "\<exists>x. parse_auth header = Bearer x \<and> p_kind q \<noteq> Pbkdf2 \<and> token_matches digest q x
         \<or> parse_auth header = Basic name x \<and> password_matches digest kdf q x" by blast
    have "q = ?p" using parse_users_names(1) [OF assms(6) users_distinct] p q(1,2) by (metis (mono_tags) distinct_map inj_onD principal.select_convs(1))
    with q(3,4) obtain pw' where "s' = s" "parse_auth header = Basic name pw'" "verify_password kdf pw' h = Inr True"
      by (auto simp: password_matches_def token_matches_def)
    moreover from this have "\<exists>b b'. utf8_encode pw = Inr b \<and> utf8_encode pw' = Inr b'
        \<and> kdf b' salt PBKDF2_ITERATIONS = kdf b salt PBKDF2_ITERATIONS"
      by (intro printed_hash_only [OF h _ assms(8)] assms(9))
    ultimately show ?thesis by blast
  qed
  ultimately show ?thesis using k s unfolding auth_check_def by (intro exI [of _ name] exI [of _ s] exI) (auto simp: auth_check_def)
qed

text \<open>An example: the name typed in capitals, the scope left empty.\<close>

definition byte_kdf :: kdf where
  "byte_kdf pw salt n = (if n < 1 then Inl ValueError else Inr (map (\<lambda>x. x mod 256) (salt @ pw)))"

definition example_printed :: "pystr \<times> pystr" where
  "example_printed = (case cmd_hash_password byte_kdf [10] (str_of '' Ann'') [] (str_of ''pw'') (str_of ''pw'') of
     Inl _ \<Rightarrow> ([], []) | Inr (_, line) \<Rightarrow> the (shell_export line))"

theorem printed_credential_works_witness:
  "\<exists>name s cred. fst example_printed = str_of ''GTG_USER_'' @ name \<and> s = AllScope \<and> utf8_encode (name @ 58 # str_of ''pw'') = Inr cred
    \<and> fst (auth_check id byte_kdf
          (case parse_users (snd (server_config [example_printed] (\<lambda>_. None))) of Inl _ \<Rightarrow> [] | Inr ps \<Rightarrow> ps)
          (Some (str_of ''Basic '' @ b64encode cred)) []) = Inr (Some (name, s))"
proof -
  define line where "line = (case cmd_hash_password byte_kdf [10] (str_of '' Ann'') [] (str_of ''pw'') (str_of ''pw'') of
     Inl _ \<Rightarrow> [] | Inr (_, line) \<Rightarrow> line)"
  have "map_option fst (case cmd_hash_password byte_kdf [10] (str_of '' Ann'') [] (str_of ''pw'') (str_of ''pw'') of
     Inl _ \<Rightarrow> None | Inr r \<Rightarrow> Some r) = Some 0" by code_simp
  then have l: "cmd_hash_password byte_kdf [10] (str_of '' Ann'') [] (str_of ''pw'') (str_of ''pw'') = Inr (0, line)"
    by (auto simp: line_def split: sum.splits)
  have "shell_export line \<noteq> None" unfolding line_def by code_simp
  then obtain k v where kv: "shell_export line = Some (k, v)" by auto
  then have e: "example_printed = (k, v)" using l by (simp add: example_printed_def)
  have "case parse_users (snd (server_config [example_printed] (\<lambda>_. None))) of Inl _ \<Rightarrow> False
    | Inr ps \<Rightarrow> list_all (\<lambda>p. list_all (\<lambda>c. c < 128) (p_name p)) ps" by code_simp
  then obtain ps where ps: "parse_users (snd (server_config [(k, v)] (\<lambda>_. None))) = Inr ps" "\<forall>p \<in> set ps. \<exists>b. utf8_encode (p_name p) = Inr b"
    using ascii_encodes unfolding e by (fastforce simp: list_all_iff split: sum.splits)
  have sc: "parse_scope (chosen_scope []) = Some AllScope" by code_simp
  have kdf: "\<forall>x \<in> set dk. x < 256" if "byte_kdf b [10] n = Inr dk" for b n dk
    using that by (auto simp: byte_kdf_def split: if_splits)
  have one: "map_of [(k, v)] k = Some v" "distinct (map fst [(k, v)])" "\<forall>b \<in> set [10]. b < (256 :: nat)" by simp_all
  have only: "k' = k" if "k' \<in> fst ` set [(k, v)]" for k' using that by simp
  have "\<exists>name s cred. k = str_of ''GTG_USER_'' @ name \<and> parse_scope (chosen_scope []) = Some s
      \<and> utf8_encode (name @ [58] @ str_of ''pw'') = Inr cred
      \<and> fst (auth_check id byte_kdf ps (Some (str_of ''Basic '' @ b64encode cred)) []) = Inr (Some (name, s))
      \<and> (\<forall>header s'. fst (auth_check id byte_kdf ps header []) = Inr (Some (name, s')) \<longrightarrow> s' = s
          \<and> (\<exists>pw' b b'. parse_auth header = Basic name pw' \<and> utf8_encode (str_of ''pw'') = Inr b \<and> utf8_encode pw' = Inr b'
               \<and> byte_kdf b' [10] PBKDF2_ITERATIONS = byte_kdf b [10] PBKDF2_ITERATIONS))"
    by (rule printed_credential_works [OF l kv one(1,2) _ ps one(3)]) (erule only, erule kdf)
  then obtain name s cred where "k = str_of ''GTG_USER_'' @ name" "parse_scope (chosen_scope []) = Some s"
      "utf8_encode (name @ [58] @ str_of ''pw'') = Inr cred"
      "fst (auth_check id byte_kdf ps (Some (str_of ''Basic '' @ b64encode cred)) []) = Inr (Some (name, s))"
    by (elim exE conjE)
  with sc ps(1) show ?thesis by - (rule exI [of _ name], rule exI [of _ s], rule exI [of _ cred], simp add: e)
qed

text \<open>The same for a token: the printed value, put behind a scope, is a principal that accepts it.\<close>

lemma printed_token:
  assumes "cmd_hash_token digest line = Inr (0, out)" "parse_scope sc = Some s"
    and "\<And>b. length (digest b) = 64 \<and> list_all lower_hex (digest b)"
  shows "\<exists>h. hash_token digest (py_strip line) = Inr h
    \<and> parse_user (name, sc @ [58] @ out) = Inr \<lparr>p_name = name, p_scope = s, p_kind = Sha256, p_secret = h\<rparr>"
proof -
  obtain b where h: "hash_token digest (py_strip line) = Inr (digest b)" "out = str_of ''sha256:'' @ digest b"
    using assms(1) by (auto simp: cmd_hash_token_def hash_token_def Let_def bind_exn_eq_Inr split: if_splits)
  note sc = parse_scope_chars [OF assms(2)] and d = assms(3) [of b]
  have ne: "digest b \<noteq> []" using d by auto
  then have "lower_hex (last (digest b))" using d by (auto simp: list_all_iff)
  moreover have "list_all (\<lambda>c. lower_hex c \<longrightarrow> \<not> py_isspace c) [0..<128]" by code_simp
  ultimately have "\<not> py_isspace (last (digest b))" by (auto simp: list_all_iff lower_hex_def)
  then have "py_strip (sc @ [58] @ out) = sc @ 58 # out"
    using sc ne h(2) by (intro py_strip_id [THEN trans]) (auto simp: hd_append)
  moreover have "py_partition 58 (sc @ 58 # out) = (sc, Some out)" using sc(3) by (rule py_partition_append)
  moreover have "out \<noteq> []" "\<not> py_startswith out (str_of ''pbkdf2_sha256$'')" "py_startswith out (str_of ''sha256:'')" "drop 7 out = digest b"
    by (simp_all add: h(2) str_of_def py_startswith_def)
  moreover have "ascii_lower (digest b) = digest b"
    unfolding ascii_lower_def by (rule map_idI) (use d in \<open>auto simp: list_all_iff lower_hex_def\<close>)
  ultimately show ?thesis using h(1) assms(2) d by (simp add: parse_user_def Let_def)
qed

end
