(* ===== verification/Server_Start.thy ===== *)
theory Server_Start
  imports Tls Credentials Api
begin

text \<open>
  The server's command line, \<open>server/gtg_server/cli.py\<close>, with \<open>serve\<close> and \<open>ApiState\<close> of \<open>api.py\<close>: from
  the configuration to the running gateway, the commands \<open>fingerprint\<close> and \<open>send\<close>.  The environment
  says what name resolution, the binding of sockets and the loading of a certificate give, and what
  the store's directory holds, or that it cannot be made, read or written.  An exception that leaves a command is the end of the program.
\<close>

section \<open>Starting\<close>

record run_env =
  rn_digest :: "pybytes \<Rightarrow> pystr"
  rn_uuid :: pystr
  rn_store :: "pystr \<Rightarrow> exn + disk"
  rn_resolve :: resolver
  rn_tls :: tls_env
  rn_chain :: "pystr \<Rightarrow> pystr \<Rightarrow> exn + unit"
  rn_webui :: "exn + unit"
  rn_bind :: "family \<times> sockaddr \<Rightarrow> bool"
  rn_port :: port
  rn_budget :: "nat list"
  rn_random :: "nat list"

definition new_health :: health where
  "new_health = \<lparr>hs_state = Starting, hs_sim = SimUnknown, hs_registration = None, hs_operator = None, hs_signal = None,
     hs_strategy = None, hs_storage = None, last_inbound = None, last_outbound = None, last_error = None, hs_modem = [],
     hs_port = None\<rparr>"

definition new_worker :: "run_env \<Rightarrow> health hub \<Rightarrow> outbox \<Rightarrow> worker" where
  "new_worker env hub ob = \<lparr>p_buf = [], p_feed = p_feed (rn_port env), p_clock = p_clock (rn_port env), p_written = [],
     p_faults = p_faults (rn_port env),
     w_hub = hub, w_outbox = ob, w_asm = [], seen_hashes = [], w_strategy = None, pdu_mode = True, cmgl_broken = False,
     modem_info = [], pin_submissions = 0, env_pin_tries = 0, runtime_pin = None, cmt_pending = False,
     w_health = new_health, jobs = [], replies = [], stopping = False, disk_budget = rn_budget env, random_bytes = rn_random env\<rparr>"

text \<open>\<open>ApiState\<close> and what else the running program holds.\<close>

record gateway =
  g_users :: "principal list"
  g_state :: api_state
  g_webui :: bool
  g_recipients :: "pystr list"
  g_tls :: "(pystr \<times> pystr) option"
  g_servers :: "(family \<times> sockaddr) list"

datatype started = Finished int | Serving gateway

definition ring_of :: "settings \<Rightarrow> exn + nat" where
  "ring_of vals = bind_exn (cfg_int vals ''RING_SIZE'') (\<lambda>n. if n < 0 then Inl ValueError else Inr (nat n))"

definition store_of :: "run_env \<Rightarrow> settings \<Rightarrow> exn + store option" where
  "store_of env vals = (if cfg_str vals ''STORE_DIR'' = [] then Inr None
     else bind_exn (rn_store env (cfg_str vals ''STORE_DIR'')) (\<lambda>d. Inr (Some (open_store (rn_uuid env) d))))"

definition sans_of :: "run_env \<Rightarrow> settings \<Rightarrow> pystr list" where
  "sans_of env vals = (case cfg_list vals ''TLS_SANS'' of [] \<Rightarrow> default_sans (rn_tls env) | names \<Rightarrow> names)"

definition own_cert :: "run_env \<Rightarrow> settings \<Rightarrow> (pystr \<times> pystr) tact" where
  "own_cert env vals = ensure_cert (rn_tls env) (cfg_str vals ''DATA_DIR'') (sans_of env vals)"

definition tls_setup :: "run_env \<Rightarrow> settings \<Rightarrow> (pystr \<times> pystr) option tact" where
  "tls_setup env vals =
     (if cfg_str vals ''TLS'' = str_of ''off'' then ret None
      else andThen (if cfg_str vals ''TLS_CERT'' \<noteq> [] \<and> cfg_str vals ''TLS_KEY'' \<noteq> []
                    then ret (cfg_str vals ''TLS_CERT'', cfg_str vals ''TLS_KEY'') else own_cert env vals) (\<lambda>(cert, key).
        andThen (look (\<lambda>st. lift (fingerprint (rn_digest env) st cert))) (\<lambda>_.
        andThen (lift (rn_chain env cert key)) (\<lambda>_. ret (Some (cert, key))))))"

text \<open>\<open>serve\<close>: \<open>RuntimeError\<close> is \<open>OtherError\<close>.\<close>

definition serve_binds :: "(family \<times> sockaddr \<Rightarrow> bool) \<Rightarrow> (family \<times> sockaddr) list \<Rightarrow> exn + (family \<times> sockaddr) list" where
  "serve_binds can binds = (let servers = filter can binds in if servers = [] then Inl OtherError else Inr servers)"

definition api_start :: "run_env \<Rightarrow> settings \<Rightarrow> principal list \<Rightarrow> worker \<Rightarrow> (pystr \<times> pystr) option \<Rightarrow>
    (family \<times> sockaddr) list \<Rightarrow> exn + gateway" where
  "api_start env vals users w tls binds =
     bind_exn (new_rate_limit (cfg_str vals ''SEND_RATE'')) (\<lambda>rate.
     bind_exn (if cfg_bool vals ''WEBUI'' then rn_webui env else Inr ()) (\<lambda>_.
     bind_exn (serve_binds (rn_bind env) binds) (\<lambda>servers.
       Inr \<lparr>g_users = users,
            g_state = \<lparr>a_worker = w, a_cache = [], a_backoff = [], a_rate = rate, a_subscribers = 0\<rparr>,
            g_webui = cfg_bool vals ''WEBUI'', g_recipients = cfg_list vals ''ALLOWED_RECIPIENTS'', g_tls = tls,
            g_servers = servers\<rparr>)))"

definition cmd_run :: "run_env \<Rightarrow> settings \<times> settings \<Rightarrow> started tact" where
  "cmd_run env cfg = (case cfg of (vals, user_values) \<Rightarrow>
     andThen (lift (parse_users user_values)) (\<lambda>users.
       if users = [] then ret (Finished 2)
       else andThen (lift (store_of env vals)) (\<lambda>store. andThen (lift (ring_of vals)) (\<lambda>ring.
         let w = new_worker env (new_hub ring (rn_uuid env) store) (new_outbox 500)
         in andThen (lift (listen_addrs vals)) (\<lambda>addrs.
            let binds = resolve_binds (rn_resolve env) addrs
            in andThen (lift (check_plaintext_binds vals binds)) (\<lambda>_.
               andThen (tls_setup env vals) (\<lambda>tls.
               andThen (lift (api_start env vals users w tls binds)) (\<lambda>g. ret (Serving g)))))))))"

definition cmd_fingerprint :: "run_env \<Rightarrow> settings \<Rightarrow> pystr tact" where
  "cmd_fingerprint env vals =
     andThen (if cfg_str vals ''TLS_CERT'' \<noteq> [] then ret (cfg_str vals ''TLS_CERT'')
              else andThen (own_cert env vals) (\<lambda>(cert, _). ret cert)) (\<lambda>cert.
       look (\<lambda>st. lift (fingerprint (rn_digest env) st cert)))"

section \<open>Sending from the command line\<close>

text \<open>\<open>seen\<close>: the worker's state at a time, \<open>stand\<close>: the record's state at a time, in milliseconds, as
  the worker's thread leaves them.\<close>

definition hopeless :: "conn_state \<Rightarrow> bool" where
  "hopeless s \<longleftrightarrow> s \<in> {PinNeeded, PukLocked, NoModem}"

function wait_ready :: "(int \<Rightarrow> conn_state) \<Rightarrow> int \<Rightarrow> int \<Rightarrow> bool \<times> int" where
  "wait_ready seen deadline t =
     (if t \<ge> deadline then (True, t)
      else if seen t = Online then (True, t)
      else if hopeless (seen t) then (False, t)
      else wait_ready seen deadline (t + 1000))"
  by pat_completeness auto

termination wait_ready
  by (relation "measure (\<lambda>(seen, deadline, t). nat (deadline - t))") auto

declare wait_ready.simps [simp del]

function wait_sent :: "(int \<Rightarrow> out_state) \<Rightarrow> int \<Rightarrow> out_state \<Rightarrow> int \<Rightarrow> out_state" where
  "wait_sent stand deadline last_seen t =
     (if t \<ge> deadline then last_seen
      else if stand t \<notin> {Queued, Sending} then stand t
      else wait_sent stand deadline (stand t) (t + 500))"
  by pat_completeness auto

termination wait_sent
  by (relation "measure (\<lambda>(stand, deadline, last_seen, t). nat (deadline - t))") auto

declare wait_sent.simps [simp del]

text \<open>The exit code, and the job the worker is given.\<close>

definition cmd_send :: "(int \<Rightarrow> conn_state) \<Rightarrow> (int \<Rightarrow> out_state) \<Rightarrow> pystr \<Rightarrow> pystr \<Rightarrow> pystr \<Rightarrow> int \<Rightarrow>
    (exn + int) \<times> (out_record \<times> job) option" where
  "cmd_send seen stand now to body start =
     (case wait_ready seen (start + 90000) start of
        (False, _) \<Rightarrow> (Inr 1, None)
      | (True, t) \<Rightarrow>
          (case fst (create [to] body None None now (new_outbox 500)) of
             Inl e \<Rightarrow> (Inl e, None)
           | Inr (r, _) \<Rightarrow>
               (Inr (if wait_sent stand (start + 90000) (out_state r) t = Submitted then 0 else 1), Some (r, SendJob (out_id r)))))"

section \<open>Safe to start\<close>

lemma tls_setup_cases:
  assumes "tls_setup env vals st = (Inr tls, st')"
  shows "if cfg_str vals ''TLS'' = str_of ''off'' then tls = None \<and> st' = st
    else (\<exists>cert key fp. tls = Some (cert, key) \<and> rn_chain env cert key = Inr () \<and> fingerprint (rn_digest env) st' cert = Inr fp)"
  using assms unfolding tls_setup_def
  by (auto simp: look_def lift_def elim!: andThen_eq_InrE split: if_splits prod.splits)

lemma api_start_cases:
  assumes "api_start env vals users w tls binds = Inr g"
  shows "g_users g = users" "g_tls g = tls" "a_worker (g_state g) = w" "a_cache (g_state g) = []" "a_backoff (g_state g) = []"
    "a_subscribers (g_state g) = 0" "g_servers g = filter (rn_bind env) binds" "g_servers g \<noteq> []"
  using assms by (auto simp: api_start_def serve_binds_def bind_exn_eq_Inr Let_def split: if_splits)

lemma cmd_run_cases:
  assumes "cmd_run env (vals, user_values) st = (Inr (Serving g), st')"
  obtains users store ring addrs tls where "parse_users user_values = Inr users" "users \<noteq> []" "store_of env vals = Inr store" "ring_of vals = Inr ring"
    "listen_addrs vals = Inr addrs" "check_plaintext_binds vals (resolve_binds (rn_resolve env) addrs) = Inr ()"
    "tls_setup env vals st = (Inr tls, st')"
    "api_start env vals users (new_worker env (new_hub ring (rn_uuid env) store) (new_outbox 500)) tls
       (resolve_binds (rn_resolve env) addrs) = Inr g"
  using assms unfolding cmd_run_def
  by (auto simp: lift_def Let_def elim!: andThen_eq_InrE split: if_splits)

text \<open>Without a principal nothing starts and nothing is touched.\<close>

lemma no_principals: "cmd_run env (vals, []) st = (Inr (Finished 2), st)"
  by (simp add: cmd_run_def parse_users_def lift_def andThen_def)

text \<open>The hub's invariant at the start: with a store, exactly when the directory is consistent, which a
  new directory is, and one that a server left between two saves.  After a crash between the two renames
  of a save it is not: \<open>store_crash_consistent\<close> says what then holds.\<close>

lemma new_hub_ok_iff:
  "hub_ok (new_hub n fresh st) \<longleftrightarrow> (case st of None \<Rightarrow> True | Some s \<Rightarrow> store_ok s \<and> 1 \<le> store_next s)"
proof
  assume "hub_ok (new_hub n fresh st)"
  then show "case st of None \<Rightarrow> True | Some s \<Rightarrow> store_ok s \<and> 1 \<le> store_next s"
    by (simp add: hub_ok_def new_hub_def split: option.splits)
qed (rule new_hub_ok)

definition left_in_order :: "disk \<Rightarrow> bool" where
  "left_in_order d \<longleftrightarrow> d = empty_disk \<or> (\<exists>s. store_ok s \<and> 1 \<le> store_next s \<and> d = store_disk s)"

lemma in_order_opens:
  assumes "left_in_order d"
  shows "store_ok (open_store fresh d) \<and> 1 \<le> store_next (open_store fresh d)"
proof (cases "d = empty_disk")
  case True
  then show ?thesis using open_empty_ok [of fresh] by (simp add: open_store_def load_stream_def empty_disk_def)
next
  case False
  with assms obtain s where s: "store_ok s" "1 \<le> store_next s" "d = store_disk s" unfolding left_in_order_def by blast
  then have "load_stream fresh d = (store_stream s, store_next s, d)" by (simp add: store_ok_def load_stream_def)
  with s show ?thesis by (auto simp: open_store_def store_ok_def box_ok_def)
qed

text \<open>C38. A server that starts is safe: it has principals, all of them from the configuration; it
  listens only on what \<open>GTG_LISTEN\<close> resolves to, on at least one address; it speaks plaintext only
  when \<open>GTG_TLS\<close> is off, and then only on loopback addresses unless that was expressly allowed; otherwise
  it has a certificate that was loaded and whose fingerprint was printed; nothing is held, no password is
  cached and nobody blocked, and the outbox is empty and satisfies its invariant.  Without a store the hub
  satisfies its invariant; with one it goes on with the stored stream and counter, and satisfies the
  invariant exactly when the directory it opened was consistent, as it is when new or left by a server
  that stopped between two saves.\<close>

theorem startup_safe:
  assumes "cmd_run env (vals, user_values) st = (Inr (Serving g), st')"
  shows "g_users g \<noteq> [] \<and> parse_users user_values = Inr (g_users g)
    \<and> (\<exists>addrs. listen_addrs vals = Inr addrs \<and> g_servers g \<noteq> []
        \<and> set (g_servers g) \<subseteq> set (resolve_binds (rn_resolve env) addrs))
    \<and> (case g_tls g of
          None \<Rightarrow> cfg_str vals ''TLS'' = str_of ''off''
            \<and> (cfg_bool vals ''TLS_INSECURE_OK'' \<or> (\<forall>(fam, sa) \<in> set (g_servers g). is_loopback sa))
        | Some (cert, key) \<Rightarrow> rn_chain env cert key = Inr () \<and> (\<exists>fp. fingerprint (rn_digest env) st' cert = Inr fp))
    \<and> (let hub = w_hub (a_worker (g_state g)) in
        store_of env vals = Inr (hub_store hub) \<and> ring hub = [] \<and> pending hub = [] \<and> subs hub = []
        \<and> (case hub_store hub of
              None \<Rightarrow> hub_ok hub \<and> stream_id hub = rn_uuid env \<and> next_id hub = 1
            | Some s \<Rightarrow> stream_id hub = store_stream s \<and> next_id hub = store_next s
                \<and> (hub_ok hub \<longleftrightarrow> store_ok s \<and> 1 \<le> store_next s)
                \<and> (\<forall>d. rn_store env (cfg_str vals ''STORE_DIR'') = Inr d \<and> left_in_order d \<longrightarrow> hub_ok hub)))
    \<and> outbox_ok (w_outbox (a_worker (g_state g)))
    \<and> a_cache (g_state g) = [] \<and> a_backoff (g_state g) = [] \<and> a_subscribers (g_state g) = 0"
proof -
  obtain users store n addrs tls where run: "parse_users user_values = Inr users" "users \<noteq> []" "listen_addrs vals = Inr addrs"
      "check_plaintext_binds vals (resolve_binds (rn_resolve env) addrs) = Inr ()" "tls_setup env vals st = (Inr tls, st')"
    and store: "store_of env vals = Inr store"
    and start: "api_start env vals users (new_worker env (new_hub n (rn_uuid env) store) (new_outbox 500)) tls
      (resolve_binds (rn_resolve env) addrs) = Inr g"
    using cmd_run_cases [OF assms(1)] by metis
  note g = api_start_cases [OF start] and tls = tls_setup_cases [OF run(5)]
  have served: "\<exists>addrs. listen_addrs vals = Inr addrs \<and> g_servers g \<noteq> []
      \<and> set (g_servers g) \<subseteq> set (resolve_binds (rn_resolve env) addrs)" using run(3) g(7,8) by auto
  have secured: "case g_tls g of
        None \<Rightarrow> cfg_str vals ''TLS'' = str_of ''off''
          \<and> (cfg_bool vals ''TLS_INSECURE_OK'' \<or> (\<forall>(fam, sa) \<in> set (g_servers g). is_loopback sa))
      | Some (cert, key) \<Rightarrow> rn_chain env cert key = Inr () \<and> (\<exists>fp. fingerprint (rn_digest env) st' cert = Inr fp)"
    using tls run(4) g(2,7) by (fastforce simp: check_plaintext_binds_def list_all_iff split: if_splits)
  have hub: "w_hub (a_worker (g_state g)) = new_hub n (rn_uuid env) store" "outbox_ok (w_outbox (a_worker (g_state g)))"
    using g(3) new_outbox_ok by (simp_all add: new_worker_def)
  have opened: "store_ok s \<and> 1 \<le> store_next s"
    if "store = Some s" "rn_store env (cfg_str vals ''STORE_DIR'') = Inr d" "left_in_order d" for s d
    using that store in_order_opens [of d "rn_uuid env"] by (auto simp: store_of_def split: if_splits)
  have "case store of None \<Rightarrow> True
      | Some s \<Rightarrow> \<forall>d. rn_store env (cfg_str vals ''STORE_DIR'') = Inr d \<and> left_in_order d \<longrightarrow> store_ok s \<and> 1 \<le> store_next s"
    using opened by (auto split: option.split)
  then have "let hub = w_hub (a_worker (g_state g)) in
        store_of env vals = Inr (hub_store hub) \<and> ring hub = [] \<and> pending hub = [] \<and> subs hub = []
        \<and> (case hub_store hub of
              None \<Rightarrow> hub_ok hub \<and> stream_id hub = rn_uuid env \<and> next_id hub = 1
            | Some s \<Rightarrow> stream_id hub = store_stream s \<and> next_id hub = store_next s
                \<and> (hub_ok hub \<longleftrightarrow> store_ok s \<and> 1 \<le> store_next s)
                \<and> (\<forall>d. rn_store env (cfg_str vals ''STORE_DIR'') = Inr d \<and> left_in_order d \<longrightarrow> hub_ok hub))"
    unfolding hub(1) Let_def new_hub_ok_iff by (cases store) (simp_all add: new_hub_def store)
  with served secured run(1,2) g(1,4-6) hub(2) show ?thesis by simp
qed

text \<open>An example: plaintext for one token, where the name resolves to a loopback address and another
  that cannot be bound.\<close>

definition example_run :: run_env where
  "example_run = \<lparr>rn_digest = (\<lambda>_. []), rn_uuid = [97], rn_store = (\<lambda>_. Inr empty_disk),
     rn_resolve = (\<lambda>host port. Some [(Inet6, (str_of ''::1'', port)), (Inet, (str_of ''127.0.0.1'', port))]), rn_tls = example_tls,
     rn_chain = (\<lambda>_ _. Inr ()), rn_webui = Inr (), rn_bind = (\<lambda>(fam, _). fam = Inet),
     rn_port = \<lparr>p_buf = [], p_feed = [], p_clock = 0, p_written = [], p_faults = []\<rparr>, rn_budget = [], rn_random = []\<rparr>"

definition example_config :: "settings \<times> settings" where
  "example_config = server_config (map (\<lambda>(k, v). (str_of k, str_of v))
     [(''GTG_USER_ann'', ''all:secret''), (''GTG_TLS'', ''off''), (''GTG_STORE_DIR'', ''/s'')]) (\<lambda>_. None)"

theorem startup_safe_witness:
  "\<exists>g st'. cmd_run example_run (fst example_config, snd example_config) \<lparr>tf_files = [], tf_umask = 18\<rparr> = (Inr (Serving g), st')
    \<and> g_users g \<noteq> [] \<and> g_servers g \<noteq> [] \<and> hub_ok (w_hub (a_worker (g_state g)))"
proof -
  let ?run = "cmd_run example_run (fst example_config, snd example_config) \<lparr>tf_files = [], tf_umask = 18\<rparr>"
  have "case fst ?run of Inr (Serving _) \<Rightarrow> True | _ \<Rightarrow> False" by code_simp
  then obtain g where g: "?run = (Inr (Serving g), snd ?run)"
    by (cases ?run) (auto split: sum.splits started.splits)
  have "rn_store example_run dir = Inr empty_disk" for dir by (simp add: example_run_def)
  with startup_safe [OF g] g show ?thesis by (auto simp: Let_def left_in_order_def split: option.splits)
qed

text \<open>\<open>gtg-server fingerprint\<close> prints the fingerprint of the certificate the server uses when certificate
  and key are both configured or neither is.\<close>

lemma fingerprint_of_the_server:
  assumes "tls_setup env vals st = (Inr (Some (cert, key)), st')" "cfg_str vals ''TLS_CERT'' = [] \<longleftrightarrow> cfg_str vals ''TLS_KEY'' = []"
  shows "\<exists>fp. cmd_fingerprint env vals st' = (Inr fp, st') \<and> fingerprint (rn_digest env) st' cert = Inr fp"
proof -
  from tls_setup_cases [OF assms(1)] obtain fp where fp: "fingerprint (rn_digest env) st' cert = Inr fp" by (auto split: if_splits)
  show ?thesis
  proof (cases "cfg_str vals ''TLS_CERT'' = []")
    case False
    with assms fp show ?thesis
      by (auto simp: tls_setup_def cmd_fingerprint_def andThen_def [of "ret _"] look_def lift_def elim!: andThen_eq_InrE split: if_splits)
  next
    case True
    with assms(1) have "own_cert env vals st = (Inr (cert, key), st')"
      by (auto simp: tls_setup_def look_def lift_def elim!: andThen_eq_InrE split: if_splits)
    then have "cert = cert_path (cfg_str vals ''DATA_DIR'')" "own_cert env vals st' = (Inr (cert, key), st')"
      using ensure_cert_files ensure_cert_again unfolding own_cert_def by blast+
    with True fp show ?thesis by (simp add: cmd_fingerprint_def andThen_def)
  qed
qed

text \<open>With a certificate but no key the two differ: the server makes a certificate of its own, and
  \<open>fingerprint\<close> reads the configured one.\<close>

lemma fingerprint_of_another:
  assumes "cfg_str vals ''TLS_CERT'' \<noteq> []" "cfg_str vals ''TLS_KEY'' = []" "tls_setup env vals st = (Inr (Some (cert, key)), st')"
  shows "cert = cert_path (cfg_str vals ''DATA_DIR'')"
    "cmd_fingerprint env vals st' = (fingerprint (rn_digest env) st' (cfg_str vals ''TLS_CERT''), st')"
proof -
  have "own_cert env vals st = (Inr (cert, key), st')"
    using assms by (auto simp: tls_setup_def look_def lift_def elim!: andThen_eq_InrE split: if_splits)
  then show "cert = cert_path (cfg_str vals ''DATA_DIR'')" using ensure_cert_files unfolding own_cert_def by blast
  show "cmd_fingerprint env vals st' = (fingerprint (rn_digest env) st' (cfg_str vals ''TLS_CERT''), st')"
    using assms(1) by (simp add: cmd_fingerprint_def andThen_def)
qed

text \<open>\<open>gtg-server send\<close> gives up within 90 seconds and 1 step, and hands the worker at most the one record.\<close>

lemma wait_ready_bound: "wait_ready seen deadline t = (b, t') \<Longrightarrow> t \<le> t' \<and> t' \<le> max t (deadline + 999)"
proof (induction seen deadline t rule: wait_ready.induct)
  case (1 seen deadline t)
  from 1(2) have "(if t \<ge> deadline then (True, t) else if seen t = Online then (True, t)
      else if hopeless (seen t) then (False, t) else wait_ready seen deadline (t + 1000)) = (b, t')"
    by (simp only: wait_ready.simps [of seen deadline t])
  with 1(1) show ?case by (auto split: if_splits)
qed

lemma cmd_send_result:
  assumes "cmd_send seen stand now to body start = (r, given)"
  shows "(r = Inr 1 \<and> given = None) \<or> (\<exists>rec. given = Some (rec, SendJob 1) \<and> out_to rec = [to] \<and> out_text rec = body
    \<and> out_state rec = Queued \<and> (r = Inr 0 \<or> r = Inr 1) \<and> (r = Inr 0 \<longrightarrow> (\<exists>t < start + 90000. stand t = Submitted)))"
proof -
  have sent: "last \<noteq> Submitted \<Longrightarrow> wait_sent stand d last t = Submitted \<Longrightarrow> \<exists>t < d. stand t = Submitted" for d last t
  proof (induction stand d last t rule: wait_sent.induct)
    case (1 stand d last t)
    from 1(3) have "(if t \<ge> d then last else if stand t \<notin> {Queued, Sending} then stand t
        else wait_sent stand d (stand t) (t + 500)) = Submitted" by (simp only: wait_sent.simps [of stand d last t])
    with 1(1,2) show ?case by (auto simp: not_le split: if_splits)
  qed
  have "fst (create [to] body None None now (new_outbox 500)) = Inr (new_record 1 [to] body None None now, True)"
    by (simp add: create_def truthy_def new_outbox_def Let_def split: prod.split)
  with assms sent [of Queued] show ?thesis
    by (auto simp: cmd_send_def new_record_def split: prod.splits bool.splits if_splits)
qed

end
