(* ===== verification/Usbdevfs.thy ===== *)
theory Usbdevfs
  imports Actions Sms_Codec
begin

text \<open>
  The raw USB write, \<open>server/gtg_server/modem/usbdevfs.py\<close>: the numbers of the ioctls, the search of
  sysfs for a device's node, and the sequence of calls that hands a message to a device.  The kernel
  is the environment: what the coming enumerations of sysfs find, whether the coming opens succeed,
  and what the coming ioctls return.  What is done to devices is recorded, with its answers.
\<close>

unbundle bit_operations_syntax

section \<open>The numbers of the ioctls\<close>

definition IOC :: "nat \<Rightarrow> nat \<Rightarrow> nat \<Rightarrow> nat \<Rightarrow> nat" where
  "IOC direction type_char nr bytes = push_bit 30 direction OR push_bit 16 bytes OR push_bit 8 type_char OR nr"

text \<open>The two structures, for pointers of \<open>p\<close> bytes (4 or 8): a pointer is aligned to its size.\<close>

definition aligned :: "nat \<Rightarrow> nat \<Rightarrow> nat" where
  "aligned p n = (n + p - 1) div p * p"

definition UsbIoctl_size :: "nat \<Rightarrow> nat" where "UsbIoctl_size p = aligned p (4 + 4) + p"
definition BulkTransfer_size :: "nat \<Rightarrow> nat" where "BulkTransfer_size p = aligned p (4 + 4 + 4) + p"

definition USBDEVFS_CLAIMINTERFACE :: nat where "USBDEVFS_CLAIMINTERFACE = IOC 2 85 15 4"
definition USBDEVFS_RELEASEINTERFACE :: nat where "USBDEVFS_RELEASEINTERFACE = IOC 2 85 16 4"
definition USBDEVFS_IOCTL :: "nat \<Rightarrow> nat" where "USBDEVFS_IOCTL p = IOC 3 85 18 (UsbIoctl_size p)"
definition USBDEVFS_BULK :: "nat \<Rightarrow> nat" where "USBDEVFS_BULK p = IOC 3 85 2 (BulkTransfer_size p)"
definition USBDEVFS_DISCONNECT :: nat where "USBDEVFS_DISCONNECT = IOC 0 85 22 0"

text \<open>The numbers of \<open>linux/usbdevice_fs.h\<close>.\<close>

lemma ioctl_numbers:
  "USBDEVFS_CLAIMINTERFACE = 0x8004550F" "USBDEVFS_RELEASEINTERFACE = 0x80045510" "USBDEVFS_DISCONNECT = 0x5516"
  "USBDEVFS_IOCTL 8 = 0xC0105512" "USBDEVFS_BULK 8 = 0xC0185502"
  "USBDEVFS_IOCTL 4 = 0xC00C5512" "USBDEVFS_BULK 4 = 0xC0105502"
  by code_simp+

section \<open>Sysfs\<close>

text \<open>\<open>int(s, 16)\<close>: as \<open>int(s)\<close>, with hexadecimal digits and an optional \<open>0x\<close>.\<close>

definition hex_value :: "nat \<Rightarrow> nat option" where
  "hex_value c = (case decimal_value c of Some d \<Rightarrow> Some d | None \<Rightarrow> ascii_hex_value c)"

fun scan_hex_digits :: "nat \<Rightarrow> pystr \<Rightarrow> nat option" where
  "scan_hex_digits acc [] = Some acc"
| "scan_hex_digits acc (c # cs) =
     (case hex_value c of
        Some d \<Rightarrow> scan_hex_digits (16 * acc + d) cs
      | None \<Rightarrow>
          if c = 95 then
            (case cs of
               [] \<Rightarrow> None
             | c' # cs' \<Rightarrow> (case hex_value c' of
                   Some d \<Rightarrow> scan_hex_digits (16 * acc + d) cs'
                 | None \<Rightarrow> None))
          else None)"

definition scan_hex :: "pystr \<Rightarrow> nat option" where
  "scan_hex s =
     (let body = (if py_startswith (ascii_lower s) (str_of ''0x'') then
                    (if py_startswith (drop 2 s) [95] then drop 3 s else drop 2 s) else s)
      in case body of
           [] \<Rightarrow> None
         | c # cs \<Rightarrow> (case hex_value c of Some d \<Rightarrow> scan_hex_digits d cs | None \<Rightarrow> None))"

definition py_int16 :: "pystr \<Rightarrow> int option" where
  "py_int16 s =
     (case py_strip s of
        [] \<Rightarrow> None
      | c # cs \<Rightarrow>
          if c = 43 then map_option int (scan_hex cs)
          else if c = 45 then map_option (\<lambda>n. - int n) (scan_hex cs)
          else map_option int (scan_hex (c # cs)))"

text \<open>The files of a device; \<open>None\<close>: reading raises \<open>OSError\<close>.\<close>

record sysfs_dev =
  sd_vendor :: "pystr option"
  sd_product :: "pystr option"
  sd_bus :: "pystr option"
  sd_num :: "pystr option"

type_synonym usb_id = "int \<times> int"

definition read_hex :: "pystr option \<Rightarrow> int option" where
  "read_hex file = (case file of None \<Rightarrow> None | Some s \<Rightarrow> py_int16 (py_strip s))"

definition read_dec :: "pystr option \<Rightarrow> int option" where
  "read_dec file = (case file of None \<Rightarrow> None | Some s \<Rightarrow> py_int (py_strip s))"

text \<open>\<open>f"{n:03d}"\<close>.\<close>

definition pad3 :: "int \<Rightarrow> pystr" where
  "pad3 n = (let s = nat_dec (nat \<bar>n\<bar>); sign = (if n < 0 then [45] else [])
     in sign @ replicate (3 - length sign - length s) 48 @ s)"

definition devnode :: "sysfs_dev \<Rightarrow> usb_id \<Rightarrow> pystr option" where
  "devnode d i =
     (if read_hex (sd_vendor d) \<noteq> Some (fst i) \<or> read_hex (sd_product d) \<noteq> Some (snd i) then None
      else (case (read_dec (sd_bus d), read_dec (sd_num d)) of
          (Some bus, Some dev) \<Rightarrow> Some (str_of ''/dev/bus/usb/'' @ pad3 bus @ [47] @ pad3 dev)
        | _ \<Rightarrow> None))"

fun find_devnode :: "sysfs_dev list \<Rightarrow> usb_id \<Rightarrow> pystr option" where
  "find_devnode [] i = None"
| "find_devnode (d # ds) i = (case devnode d i of Some node \<Rightarrow> Some node | None \<Rightarrow> find_devnode ds i)"

section \<open>Writing to a device\<close>

datatype usb_op =
    OpenNode pystr
  | Disconnect nat int
  | Claim nat int
  | Bulk nat pybytes nat int
  | Release nat int
  | CloseNode
  | Helper "pystr list"

record usb =
  u_clock :: int
  u_scans :: "sysfs_dev list list"
  u_opens :: "bool list"
  u_answers :: "int list"
  u_ttys :: "bool list"
  u_trace :: "usb_op list"

type_synonym 'r uact = "(usb, 'r) act"

definition record_op :: "usb_op \<Rightarrow> usb \<Rightarrow> usb" where
  "record_op e u = u\<lparr>u_trace := u_trace u @ [e]\<rparr>"

definition scan_sysfs :: "sysfs_dev list uact" where
  "scan_sysfs u = (case u_scans u of [] \<Rightarrow> (Inr [], u) | s # ss \<Rightarrow> (Inr s, u\<lparr>u_scans := ss\<rparr>))"

definition open_node :: "pystr \<Rightarrow> unit uact" where
  "open_node node u = (case u_opens u of
     True # os \<Rightarrow> (Inr (), record_op (OpenNode node) (u\<lparr>u_opens := os\<rparr>))
   | _ \<Rightarrow> (Inl OSError, u\<lparr>u_opens := tl (u_opens u)\<rparr>))"

text \<open>An ioctl and its return value; without a further answer it fails.\<close>

definition ioctl :: "(int \<Rightarrow> usb_op) \<Rightarrow> int uact" where
  "ioctl e u = (case u_answers u of
     [] \<Rightarrow> (Inr (- 1), record_op (e (- 1)) u)
   | r # rs \<Rightarrow> (Inr r, record_op (e r) (u\<lparr>u_answers := rs\<rparr>)))"

text \<open>From the opened node on.\<close>

definition bulk_calls :: "pybytes \<Rightarrow> nat \<Rightarrow> nat \<Rightarrow> bool uact" where
  "bulk_calls message interface endpoint =
     ensure
       (andThen (ioctl (Disconnect interface)) (\<lambda>_.
        andThen (ioctl (Claim interface)) (\<lambda>claimed.
          if claimed \<noteq> 0 then throw OSError
          else andThen (ioctl (Bulk endpoint message 3000)) (\<lambda>written.
            if written \<noteq> int (length message) then throw OSError
            else andThen (ioctl (Release interface)) (\<lambda>_. ret True)))))
       (record_op CloseNode)"

definition send_bulk_message :: "usb_id \<Rightarrow> pystr \<Rightarrow> nat \<Rightarrow> nat \<Rightarrow> bool uact" where
  "send_bulk_message i message_hex interface endpoint =
     andThen scan_sysfs (\<lambda>devs.
       case find_devnode devs i of
         None \<Rightarrow> throw OSError
       | Some node \<Rightarrow>
           andThen (lift (fromhex message_hex)) (\<lambda>message.
           andThen (open_node node) (\<lambda>_. bulk_calls message interface endpoint)))"

section \<open>What one call does to a device\<close>

text \<open>The calls of one write: nothing is written before the interface is claimed, nothing is
  written to another interface, and the node is closed whatever happened.\<close>

inductive bulk_session :: "pystr \<Rightarrow> pybytes \<Rightarrow> nat \<Rightarrow> nat \<Rightarrow> bool \<Rightarrow> usb_op list \<Rightarrow> bool"
  for node msg interface endpoint where
  Refused: "c \<noteq> 0 \<Longrightarrow> bulk_session node msg interface endpoint False
     [OpenNode node, Disconnect interface d, Claim interface c, CloseNode]"
| Partly: "w \<noteq> int (length msg) \<Longrightarrow> bulk_session node msg interface endpoint False
     [OpenNode node, Disconnect interface d, Claim interface 0, Bulk endpoint msg 3000 w, CloseNode]"
| Written: "bulk_session node msg interface endpoint True
     [OpenNode node, Disconnect interface d, Claim interface 0, Bulk endpoint msg 3000 (int (length msg)),
      Release interface r, CloseNode]"

lemma ioctl_result: "\<exists>r u'. ioctl e u = (Inr r, u') \<and> u_trace u' = u_trace u @ [e r] \<and> u_scans u' = u_scans u"
  by (cases "u_answers u") (simp_all add: ioctl_def record_op_def)

lemma fromhex_error: "fromhex s = Inl e \<Longrightarrow> e = ValueError"
  by (induction s rule: fromhex.induct)
    (auto simp: bind_exn_def split: if_splits list.splits option.splits sum.splits)

lemma open_node_cases:
  "(\<exists>u'. open_node node u = (Inl OSError, u') \<and> u_trace u' = u_trace u \<and> u_scans u' = u_scans u)
   \<or> (\<exists>u'. open_node node u = (Inr (), u') \<and> u_trace u' = u_trace u @ [OpenNode node] \<and> u_scans u' = u_scans u)"
  by (cases "u_opens u") (auto simp: open_node_def record_op_def split: bool.split)

lemma bulk_calls_session:
  assumes "u_trace u = before @ [OpenNode node]"
  shows "\<exists>r u' ops. bulk_calls msg interface endpoint u = (r, u') \<and> u_trace u' = before @ ops
    \<and> u_scans u' = u_scans u \<and> bulk_session node msg interface endpoint (r = Inr True) ops \<and> (r = Inr True \<or> r = Inl OSError)"
proof -
  obtain d u1 where d: "ioctl (Disconnect interface) u = (Inr d, u1)" "u_trace u1 = u_trace u @ [Disconnect interface d]" "u_scans u1 = u_scans u"
    using ioctl_result by blast
  obtain c u2 where c: "ioctl (Claim interface) u1 = (Inr c, u2)" "u_trace u2 = u_trace u1 @ [Claim interface c]" "u_scans u2 = u_scans u1"
    using ioctl_result by blast
  obtain w u3 where w: "ioctl (Bulk endpoint msg 3000) u2 = (Inr w, u3)" "u_trace u3 = u_trace u2 @ [Bulk endpoint msg 3000 w]" "u_scans u3 = u_scans u2"
    using ioctl_result by blast
  obtain r u4 where r: "ioctl (Release interface) u3 = (Inr r, u4)" "u_trace u4 = u_trace u3 @ [Release interface r]" "u_scans u4 = u_scans u3"
    using ioctl_result by blast
  note calls = bulk_calls_def ensure_def andThen_def record_op_def d c w r
  consider "c \<noteq> 0" | "c = 0" "w \<noteq> int (length msg)" | "c = 0" "w = int (length msg)" by blast
  then show ?thesis
  proof cases
    case 1
    from Refused [OF this, of node msg interface endpoint d] 1 show ?thesis
      by (intro exI conjI) (simp add: calls, simp add: calls assms, simp_all add: calls)
  next
    case 2
    from Partly [OF 2(2), of node interface endpoint d] 2 show ?thesis
      by (intro exI conjI) (simp add: calls, simp add: calls assms, simp_all add: calls)
  next
    case 3
    from Written [of node msg interface endpoint d r] 3 show ?thesis
      by (intro exI conjI) (simp add: calls, simp add: calls assms, simp_all add: calls)
  qed
qed

lemma send_bulk_session:
  assumes "send_bulk_message i message_hex interface endpoint u = (r, u')"
  shows "set (u_scans u') \<subseteq> set (u_scans u) \<and> ((u_trace u' = u_trace u \<and> (r = Inl OSError \<or> r = Inl ValueError))
    \<or> (\<exists>devs \<in> set (u_scans u). \<exists>node msg ops. find_devnode devs i = Some node
        \<and> fromhex message_hex = Inr msg \<and> u_trace u' = u_trace u @ ops
        \<and> bulk_session node msg interface endpoint (r = Inr True) ops \<and> (r = Inr True \<or> r = Inl OSError)))"
proof -
  let ?devs = "case u_scans u of [] \<Rightarrow> [] | s # _ \<Rightarrow> s"
  obtain u1 where u1: "scan_sysfs u = (Inr ?devs, u1)" "u_trace u1 = u_trace u" "set (u_scans u1) \<subseteq> set (u_scans u)"
    by (cases "u_scans u") (auto simp: scan_sysfs_def)
  have send: "(r, u') = (case find_devnode ?devs i of None \<Rightarrow> (Inl OSError, u1)
      | Some node \<Rightarrow> (case fromhex message_hex of Inl e \<Rightarrow> (Inl e, u1)
          | Inr msg \<Rightarrow> andThen (open_node node) (\<lambda>_. bulk_calls msg interface endpoint) u1))"
    unfolding assms [symmetric] send_bulk_message_def
    by (simp add: andThen_def u1(1) lift_def throw_def split: option.split sum.split)
  show ?thesis
  proof (cases "find_devnode ?devs i")
    case None
    with send u1(2,3) show ?thesis by simp
  next
    case (Some node)
    then have devs: "?devs \<in> set (u_scans u)" by (cases "u_scans u") simp_all
    show ?thesis
    proof (cases "fromhex message_hex")
      case (Inl e)
      with send Some u1(2,3) fromhex_error [OF Inl] show ?thesis by simp
    next
      case (Inr msg)
      show ?thesis
      proof (cases "fst (open_node node u1)")
        case (Inl e)
        with open_node_cases [of node u1] send Some Inr u1(2,3) show ?thesis by (auto simp: andThen_def)
      next
        case oi: (Inr x)
        then obtain u2 where u2: "open_node node u1 = (Inr (), u2)" "u_trace u2 = u_trace u @ [OpenNode node]" "u_scans u2 = u_scans u1"
          using open_node_cases [of node u1] u1(2) by auto
        obtain r' u3 ops where "bulk_calls msg interface endpoint u2 = (r', u3)" "u_trace u3 = u_trace u @ ops" "u_scans u3 = u_scans u2"
          "bulk_session node msg interface endpoint (r' = Inr True) ops" "r' = Inr True \<or> r' = Inl OSError"
          using bulk_calls_session [OF u2(2)] by blast
        with send Some Inr u2(1,3) u1(3) devs show ?thesis by (auto simp: andThen_def)
      qed
    qed
  qed
qed

end
