(* ===== verification/Modeswitch.thy ===== *)
theory Modeswitch
  imports Usbdevfs
begin

text \<open>
  ZeroCD mode switching, \<open>server/gtg_server/modem/modeswitch.py\<close>: the table of known devices, the
  built-in method over the raw USB write, the optional \<open>usb_modeswitch\<close> program, and the wait for the
  device to come back.  The environment says what the enumerations of sysfs find, whether a serial
  node exists at the coming looks, and whether the program is installed, can be executed and ends in time.  Times are
  milliseconds.
\<close>

section \<open>The table\<close>

record recipe =
  r_message :: "pystr option"
  r_interface :: nat
  r_endpoint :: nat
  r_helper_args :: "pystr list option"
  r_expected :: "usb_id list"

definition HUAWEI_ZEROCD_MESSAGE :: pystr where
  "HUAWEI_ZEROCD_MESSAGE = str_of ''55534243123456780000000000000011062000000100000000000000000000''"

definition KNOWN_SWITCHES :: "(usb_id \<times> recipe) list" where
  "KNOWN_SWITCHES = [((0x12D1, 0x1446), \<lparr>r_message = Some HUAWEI_ZEROCD_MESSAGE, r_interface = 0, r_endpoint = 1,
     r_helper_args = Some (map str_of [''-v'', ''0x12d1'', ''-p'', ''0x1446'', ''-J'']),
     r_expected = [(0x12D1, 0x1001), (0x12D1, 0x14AC), (0x12D1, 0x1436)]\<rparr>)]"

section \<open>Switching\<close>

text \<open>\<open>usb_modeswitch\<close>: \<open>None\<close> when it is not found, otherwise how \<open>subprocess.run\<close> with some arguments
  ends: the program ended, did not end in time, or could not be executed (\<open>OSError\<close>).\<close>

datatype helper_end = Ended | TimedOut | NotRun

type_synonym helper = "(pystr list \<Rightarrow> helper_end) option"

text \<open>The set of ids, as a list without repetitions.\<close>

definition ids_of :: "sysfs_dev list \<Rightarrow> usb_id list" where
  "ids_of devs = remdups (List.map_filter (\<lambda>d. case (read_hex (sd_vendor d), read_hex (sd_product d)) of
     (Some v, Some p) \<Rightarrow> Some (v, p) | _ \<Rightarrow> None) devs)"

definition usb_ids :: "usb_id list uact" where
  "usb_ids = andThen scan_sysfs (\<lambda>devs. ret (ids_of devs))"

definition storage_mode_devices :: "usb_id list uact" where
  "storage_mode_devices = andThen usb_ids (\<lambda>ids. ret (filter (\<lambda>i. i \<in> fst ` set KNOWN_SWITCHES) ids))"

definition os_or_value :: "exn \<Rightarrow> bool" where
  "os_or_value e \<longleftrightarrow> e = OSError \<or> e = ValueError"

definition switch_builtin :: "usb_id \<Rightarrow> recipe \<Rightarrow> bool uact" where
  "switch_builtin dev r =
     (case r_message r of
        None \<Rightarrow> ret False
      | Some msg \<Rightarrow> except (send_bulk_message dev msg (r_interface r) (r_endpoint r)) os_or_value (\<lambda>_. ret False))"

definition switch_helper :: "helper \<Rightarrow> recipe \<Rightarrow> bool uact" where
  "switch_helper helper r =
     (case (helper, r_helper_args r) of
        (Some run, Some args) \<Rightarrow> andThen (change (record_op (Helper args))) (\<lambda>_.
          case run args of Ended \<Rightarrow> ret True | TimedOut \<Rightarrow> ret False | NotRun \<Rightarrow> throw OSError)
      | _ \<Rightarrow> ret False)"

text \<open>The wait for the serial node: at most 20 looks.\<close>

fun wait_tty :: "nat \<Rightarrow> usb \<Rightarrow> usb" where
  "wait_tty 0 u = u"
| "wait_tty (Suc n) u =
     (case u_ttys u of
        True # rest \<Rightarrow> u\<lparr>u_ttys := rest\<rparr>
      | _ \<Rightarrow> wait_tty n (u\<lparr>u_ttys := tl (u_ttys u), u_clock := u_clock u + 500\<rparr>))"

function wait_switched :: "recipe \<Rightarrow> int \<Rightarrow> usb \<Rightarrow> bool \<times> usb" where
  "wait_switched r deadline u =
     (if u_clock u \<ge> deadline then (False, u)
      else (case scan_sysfs u of (devs, u') \<Rightarrow>
        if list_ex (\<lambda>t. t \<in> set (case devs of Inr ds \<Rightarrow> ids_of ds | Inl _ \<Rightarrow> [])) (r_expected r)
        then (True, wait_tty 20 u')
        else wait_switched r deadline (u'\<lparr>u_clock := u_clock u' + 1000\<rparr>)))"
  by pat_completeness auto

termination wait_switched
  by (relation "measure (\<lambda>(r, deadline, u). nat (deadline - u_clock u))")
    (auto simp: scan_sysfs_def split: list.splits)

declare wait_switched.simps [simp del]

definition switch_device :: "helper \<Rightarrow> usb_id \<Rightarrow> bool uact" where
  "switch_device helper dev =
     (case map_of KNOWN_SWITCHES dev of
        None \<Rightarrow> throw KeyError
      | Some r \<Rightarrow>
          andThen (switch_builtin dev r) (\<lambda>sent.
          andThen (if sent then ret True else switch_helper helper r) (\<lambda>sent.
            if \<not> sent then ret False
            else (\<lambda>u. case wait_switched r (u_clock u + 30000) u of (ok, u') \<Rightarrow> (Inr ok, u')))))"

fun switch_all :: "helper \<Rightarrow> usb_id list \<Rightarrow> bool \<Rightarrow> bool uact" where
  "switch_all helper [] switched = ret switched"
| "switch_all helper (d # ds) switched =
     andThen (switch_device helper d) (\<lambda>ok. switch_all helper ds (switched \<or> ok))"

definition maybe_switch :: "helper \<Rightarrow> bool uact" where
  "maybe_switch helper = andThen storage_mode_devices (\<lambda>devs. switch_all helper devs False)"

section \<open>Only known devices are written to\<close>

text \<open>What one method did: the calls of one raw write of a table's message to the node of a device
  with the table's id, or one run of the program with the table's arguments.\<close>

definition known_session :: "sysfs_dev list list \<Rightarrow> usb_op list \<Rightarrow> bool" where
  "known_session scans ops \<longleftrightarrow> (\<exists>(dev, r) \<in> set KNOWN_SWITCHES.
     (\<exists>devs \<in> set scans. \<exists>node text msg ok. find_devnode devs dev = Some node \<and> r_message r = Some text \<and> fromhex text = Inr msg
        \<and> bulk_session node msg (r_interface r) (r_endpoint r) ok ops)
     \<or> (\<exists>args. r_helper_args r = Some args \<and> ops = [Helper args]))"

definition known_trace :: "usb \<Rightarrow> usb \<Rightarrow> bool" where
  "known_trace u u' \<longleftrightarrow> set (u_scans u') \<subseteq> set (u_scans u)
     \<and> (\<exists>sessions. u_trace u' = u_trace u @ concat sessions \<and> list_all (known_session (u_scans u)) sessions)"

lemma known_session_mono: "known_session scans ops \<Longrightarrow> set scans \<subseteq> set scans' \<Longrightarrow> known_session scans' ops"
  unfolding known_session_def by blast

lemma known_trace_order: "preorder known_trace"
proof -
  have "known_trace u u" for u by (auto simp: known_trace_def intro: exI [of _ "[]"])
  moreover have "known_trace u w" if uv: "known_trace u v" "known_trace v w" for u v w
  proof -
    obtain a b where ab: "u_trace v = u_trace u @ concat a" "list_all (known_session (u_scans u)) a"
      "u_trace w = u_trace v @ concat b" "list_all (known_session (u_scans v)) b"
      using uv by (auto simp: known_trace_def)
    moreover have "list_all (known_session (u_scans u)) b"
      using ab(4) known_session_mono uv(1) by (force simp: known_trace_def list_all_iff)
    ultimately show ?thesis using uv by (auto simp: known_trace_def intro: exI [of _ "a @ b"])
  qed
  ultimately show ?thesis unfolding preorder_def by blast
qed

lemma same_trace: "u_trace u' = u_trace u \<Longrightarrow> set (u_scans u') \<subseteq> set (u_scans u) \<Longrightarrow> known_trace u u'"
  by (auto simp: known_trace_def intro: exI [of _ "[]"])

lemma scan_trace [simp]: "u_trace (snd (scan_sysfs u)) = u_trace u"
  and scan_scans [simp]: "set (u_scans (snd (scan_sysfs u))) \<subseteq> set (u_scans u)"
  by (auto simp: scan_sysfs_def split: list.split)

lemma wait_tty_trace [simp]: "u_trace (wait_tty n u) = u_trace u" "u_scans (wait_tty n u) = u_scans u"
  by (induction n u rule: wait_tty.induct) (simp_all split: list.split bool.split)

lemma wait_switched_trace:
  "u_trace (snd (wait_switched r deadline u)) = u_trace u
   \<and> set (u_scans (snd (wait_switched r deadline u))) \<subseteq> set (u_scans u)"
proof (induction r deadline u rule: wait_switched.induct)
  case (1 r deadline u)
  obtain devs u' where s: "scan_sysfs u = (devs, u')" by fastforce
  note IH = 1 [OF _ s [symmetric]]
  have "wait_switched r deadline u = (if u_clock u \<ge> deadline then (False, u)
      else if list_ex (\<lambda>t. t \<in> set (case devs of Inr ds \<Rightarrow> ids_of ds | Inl _ \<Rightarrow> [])) (r_expected r)
        then (True, wait_tty 20 u')
        else wait_switched r deadline (u'\<lparr>u_clock := u_clock u' + 1000\<rparr>))"
    by (subst wait_switched.simps) (simp add: s)
  with scan_trace [of u] scan_scans [of u] IH show ?case unfolding s by auto
qed

lemma builtin_known:
  assumes "(dev, r) \<in> set KNOWN_SWITCHES"
  shows "keeps known_trace (switch_builtin dev r)" "\<exists>b u'. switch_builtin dev r u = (Inr b, u')"
proof -
  have *: "(\<exists>b. fst (switch_builtin dev r u) = Inr b) \<and> known_trace u (snd (switch_builtin dev r u))" for u
  proof (cases "r_message r")
    case None
    then show ?thesis using same_trace [of u u] by (auto simp: switch_builtin_def)
  next
    case (Some hex)
    obtain x u' where s: "send_bulk_message dev hex (r_interface r) (r_endpoint r) u = (x, u')" by fastforce
    note session = send_bulk_session [OF s]
    have "known_trace u u' \<and> (x = Inr True \<or> x = Inl OSError \<or> x = Inl ValueError)"
    proof (cases "u_trace u' = u_trace u \<and> (x = Inl OSError \<or> x = Inl ValueError)")
      case True
      with session show ?thesis by (auto intro: same_trace)
    next
      case False
      with session obtain devs node msg ops where *: "devs \<in> set (u_scans u)" "find_devnode devs dev = Some node"
          "fromhex hex = Inr msg" "bulk_session node msg (r_interface r) (r_endpoint r) (x = Inr True) ops"
        and ops: "u_trace u' = u_trace u @ ops" "x = Inr True \<or> x = Inl OSError" by blast
      from * assms Some have "known_session (u_scans u) ops" unfolding known_session_def by blast
      with session ops show ?thesis by (auto simp: known_trace_def intro: exI [of _ "[ops]"])
    qed
    then show ?thesis by (auto simp: switch_builtin_def Some except_def s os_or_value_def)
  qed
  show "keeps known_trace (switch_builtin dev r)" using * by (simp add: keeps_def)
  show "\<exists>b u'. switch_builtin dev r u = (Inr b, u')" using * [of u] by (metis prod.collapse)
qed

text \<open>The one exception that is not contained: \<open>_switch_helper\<close> catches the time-out only.\<close>

definition contained :: "helper \<Rightarrow> exn + bool \<Rightarrow> bool" where
  "contained helper res \<longleftrightarrow> (\<exists>b. res = Inr b) \<or> res = Inl OSError \<and> (\<exists>run. helper = Some run \<and>
     (\<exists>(dev, r) \<in> set KNOWN_SWITCHES. \<exists>args. r_helper_args r = Some args \<and> run args = NotRun))"

lemma helper_known:
  assumes "(dev, r) \<in> set KNOWN_SWITCHES"
  shows "keeps known_trace (switch_helper helper r)" "contained helper (fst (switch_helper helper r u))"
proof -
  have "known_session scans [Helper args]" if "r_helper_args r = Some args" for args scans
    using assms that unfolding known_session_def by blast
  then have "known_trace u (snd (switch_helper helper r u))" for u
    using same_trace [of u u] by (auto simp: switch_helper_def record_op_def known_trace_def split: option.split helper_end.split
        intro: exI [of _ "[[Helper _]]"])
  then show "keeps known_trace (switch_helper helper r)" by (simp add: keeps_def)
  show "contained helper (fst (switch_helper helper r u))"
    using assms by (auto simp: switch_helper_def contained_def split: option.split helper_end.split)
qed

lemma device_known:
  assumes "map_of KNOWN_SWITCHES dev = Some r"
  shows "keeps known_trace (switch_device helper dev)" "contained helper (fst (switch_device helper dev u))"
proof -
  note in_table = map_of_SomeD [OF assms]
  have wait: "keeps known_trace (\<lambda>u. case wait_switched r (u_clock u + 30000) u of (ok, u') \<Rightarrow> (Inr ok, u'))"
  proof (rule keepsI)
    fix u x u'
    assume "(case wait_switched r (u_clock u + 30000) u of (ok, u') \<Rightarrow> (Inr ok :: exn + bool, u')) = (x, u')"
    then have "u' = snd (wait_switched r (u_clock u + 30000) u)" by (auto split: prod.splits)
    then show "known_trace u u'" using wait_switched_trace [of r "u_clock u + 30000" u] by (simp add: same_trace)
  qed
  show "keeps known_trace (switch_device helper dev)"
    unfolding switch_device_def assms option.case
    by (intro keeps_intros known_trace_order builtin_known(1) [OF in_table] helper_known(1) [OF in_table] wait)
  obtain b u1 where b: "switch_builtin dev r u = (Inr b, u1)" using builtin_known(2) [OF in_table] by blast
  obtain c u2 where c: "(if b then ret True else switch_helper helper r) u1 = (c, u2)" by fastforce
  have "contained helper (Inr b)" for b by (simp add: contained_def)
  moreover from c have "contained helper c"
    using helper_known(2) [OF in_table, of helper u1] by (cases b) (auto simp: contained_def)
  ultimately show "contained helper (fst (switch_device helper dev u))"
    using assms b c by (cases c) (auto simp: switch_device_def andThen_def split: prod.split)
qed

lemma all_known:
  assumes "set devs \<subseteq> fst ` set KNOWN_SWITCHES"
  shows "keeps known_trace (switch_all helper devs b) \<and> contained helper (fst (switch_all helper devs b u))"
  using assms
proof (induction devs arbitrary: b u)
  case Nil
  show ?case using keeps_ret [OF known_trace_order, of b] by (simp del: act_simps) (simp add: ret_def contained_def)
next
  case (Cons d ds)
  then obtain r where r: "map_of KNOWN_SWITCHES d = Some r"
    by (metis insert_subset list.set(2) map_of_eq_None_iff not_Some_eq)
  obtain c u1 where c: "switch_device helper d u = (c, u1)" by fastforce
  with device_known(2) [OF r, of helper u] have first: "contained helper c" by simp
  have IH: "keeps known_trace (switch_all helper ds b)" "contained helper (fst (switch_all helper ds b u))" for b u
    using Cons by simp_all
  have "keeps known_trace (switch_all helper (d # ds) b)"
    unfolding switch_all.simps by (intro keeps_intros known_trace_order device_known(1) [OF r] IH(1))
  moreover have "contained helper (fst (switch_all helper (d # ds) b u))"
    using IH(2) first by (cases c) (simp_all add: andThen_def c)
  ultimately show ?case by blast
qed


text \<open>It does raise: when the raw write fails and the helper cannot be executed, the connect cycle of
  the worker ends before the port is looked for.\<close>

lemma helper_not_run:
  assumes "map_of KNOWN_SWITCHES dev = Some r" "r_helper_args r = Some args" "run args = NotRun"
    and "fst (switch_builtin dev r u) = Inr False"
  shows "fst (switch_device (Some run) dev u) = Inl OSError"
  using assms by (auto simp: switch_device_def switch_helper_def andThen_def split: prod.splits)

end
