(* ===== verification/Discovery.thy ===== *)
theory Discovery
  imports Sim Modeswitch "HOL-Library.List_Lexorder"
begin

text \<open>
  Finding the modem, \<open>server/gtg_server/modem/discovery.py\<close>, and the report of \<open>gtg-server probe\<close>
  (\<open>cmd_probe\<close> of \<open>server/gtg_server/cli.py\<close>).  \<open>pyserial\<close> is the environment: the ports it lists,
  whether a port opens, and what the coming reads of it give.
\<close>

section \<open>Candidates\<close>

record comport =
  cp_device :: pystr
  cp_vid :: "int option"
  cp_pid :: "int option"
  cp_manufacturer :: "pystr option"
  cp_product :: "pystr option"
  cp_serial :: "pystr option"
  cp_location :: "pystr option"

text \<open>\<open>p.device or ""\<close> is the text of the device; the sort is stable, by code points.\<close>

definition tty_modem :: "comport \<Rightarrow> bool" where
  "tty_modem p \<longleftrightarrow> py_contains (str_of ''ttyUSB'') (cp_device p) \<or> py_contains (str_of ''ttyACM'') (cp_device p)"

definition candidates :: "comport list \<Rightarrow> comport list" where
  "candidates comports = sort_key cp_device (filter tty_modem comports)"

section \<open>Probing\<close>

text \<open>A serial device: \<open>None\<close> is an exception of the read, or of what precedes it.\<close>

record serial =
  sr_opens :: bool
  sr_reads :: "pybytes option list"

fun probe_reads :: "nat \<Rightarrow> pybytes option list \<Rightarrow> bool" where
  "probe_reads 0 rs = False"
| "probe_reads (Suc n) [] = False"
| "probe_reads (Suc n) (None # rs) = False"
| "probe_reads (Suc n) (Some bs # rs) = (py_contains (str_of ''OK'') (utf8_decode (take 256 bs)) \<or> probe_reads n rs)"

definition probe_port :: "serial \<Rightarrow> bool" where
  "probe_port s \<longleftrightarrow> sr_opens s \<and> probe_reads 3 (sr_reads s)"

datatype port_info = Configured | Found comport

fun first_answering :: "(pystr \<Rightarrow> serial) \<Rightarrow> comport list \<Rightarrow> (pystr \<times> port_info) option" where
  "first_answering serials [] = None"
| "first_answering serials (c # cs) =
     (if probe_port (serials (cp_device c)) then Some (cp_device c, Found c) else first_answering serials cs)"

definition find_at_port :: "(pystr \<Rightarrow> serial) \<Rightarrow> comport list \<Rightarrow> pystr \<Rightarrow> (pystr \<times> port_info) option" where
  "find_at_port serials comports configured =
     (if configured \<noteq> [] \<and> configured \<noteq> str_of ''auto'' then Some (configured, Configured)
      else first_answering serials (candidates comports))"

text \<open>How a cycle of the worker finds its port: mode switching first, when it is enabled.\<close>

definition locate :: "helper \<Rightarrow> bool \<Rightarrow> pystr \<Rightarrow> (pystr \<Rightarrow> serial) \<Rightarrow> comport list \<Rightarrow> (pystr \<times> port_info) option uact" where
  "locate helper modeswitch configured serials comports =
     andThen (if modeswitch then andThen (maybe_switch helper) (\<lambda>_. ret ()) else ret ()) (\<lambda>_.
       ret (find_at_port serials comports configured))"

section \<open>The report\<close>

record report =
  re_storage :: "usb_id list"
  re_candidates :: "(comport \<times> bool) list"
  re_port :: "pystr option"
  re_identity :: "(pystr \<times> pystr option) list"
  re_capabilities :: "(pystr \<times> (exn + pystr)) list"

definition capability_queries :: "pystr list" where
  "capability_queries = map str_of [''AT+CMGF=?'', ''AT+CPMS=?'', ''AT+CNMI=?'', ''AT+CPIN?'']"

definition quiet :: "unit urc_cb" where "quiet = (\<lambda>_. ret ())"

definition capability :: "pystr \<Rightarrow> (port, (pystr \<times> (exn + pystr)) list) act" where
  "capability cmd = (\<lambda>p. case execute quiet cmd 5000 None False p of
     (r, p') \<Rightarrow> (Inr [(cmd, case r of Inl e \<Rightarrow> Inl e | Inr ls \<Rightarrow> Inr (py_join [32] ls))], p'))"

definition inspect :: "(port, (pystr \<times> pystr option) list \<times> (pystr \<times> (exn + pystr)) list) act" where
  "inspect = andThen (execute quiet (str_of ''ATE0'') 5000 None False) (\<lambda>_.
     andThen (identify quiet) (\<lambda>info. andThen (gather capability capability_queries) (\<lambda>caps. ret (info, caps))))"

text \<open>\<open>ports\<close>: the opened port of a device, or the exception of \<open>open\<close>.\<close>

fun probe_all :: "(pystr \<Rightarrow> serial) \<Rightarrow> (pystr \<Rightarrow> exn + port) \<Rightarrow> comport list \<Rightarrow> report \<Rightarrow> exn + report" where
  "probe_all serials ports [] rep = Inr rep"
| "probe_all serials ports (c # cs) rep =
     (let ok = probe_port (serials (cp_device c));
          rep1 = rep\<lparr>re_candidates := re_candidates rep @ [(c, ok)]\<rparr>
      in if ok \<and> re_port rep = None then
           bind_exn (ports (cp_device c)) (\<lambda>p. bind_exn (fst (inspect p)) (\<lambda>(info, caps).
             probe_all serials ports cs (rep1\<lparr>re_identity := info, re_capabilities := caps, re_port := Some (cp_device c)\<rparr>)))
         else probe_all serials ports cs rep1)"

definition cmd_probe :: "helper \<Rightarrow> bool \<Rightarrow> comport list \<Rightarrow> (pystr \<Rightarrow> serial) \<Rightarrow> (pystr \<Rightarrow> exn + port) \<Rightarrow> report uact" where
  "cmd_probe helper modeswitch comports serials ports =
     andThen storage_mode_devices (\<lambda>ids.
     andThen (if ids \<noteq> [] \<and> modeswitch then andThen (maybe_switch helper) (\<lambda>_. ret ()) else ret ()) (\<lambda>_.
       lift (probe_all serials ports (candidates comports)
         \<lparr>re_storage = ids, re_candidates = [], re_port = None, re_identity = [], re_capabilities = []\<rparr>)))"

section \<open>What is found\<close>

lemma candidates_sorted:
  "sorted (map cp_device (candidates comports))" "set (candidates comports) = {p \<in> set comports. tty_modem p}"
  by (simp_all add: candidates_def)

text \<open>The port the modem is looked for at: the configured one, or the first, in the order of the device
  names, of the listed modem ports that answers; nothing else is probed after it.\<close>

lemma first_answering_cases:
  "case first_answering serials cs of
     None \<Rightarrow> \<forall>c \<in> set cs. \<not> probe_port (serials (cp_device c))
   | Some (d, i) \<Rightarrow> \<exists>as c bs. cs = as @ c # bs \<and> d = cp_device c \<and> i = Found c \<and> probe_port (serials d)
       \<and> (\<forall>a \<in> set as. \<not> probe_port (serials (cp_device a)))"
proof (induction cs)
  case (Cons c cs)
  show ?case
  proof (cases "probe_port (serials (cp_device c))")
    case True
    then show ?thesis by (auto intro: exI [of _ "[]"])
  next
    case False
    with Cons show ?thesis by (auto split: option.splits) (metis append_Cons set_ConsD)
  qed
qed simp

lemma find_at_port_auto:
  assumes "configured \<in> {[], str_of ''auto''}" "find_at_port serials comports configured = Some (d, i)"
  shows "\<exists>c \<in> set comports. tty_modem c \<and> d = cp_device c \<and> i = Found c \<and> probe_port (serials d)
    \<and> (\<forall>a \<in> set comports. tty_modem a \<and> cp_device a < d \<longrightarrow> \<not> probe_port (serials (cp_device a)))"
proof -
  have "first_answering serials (candidates comports) = Some (d, i)" using assms by (auto simp: find_at_port_def split: if_splits)
  then obtain as c bs where c: "candidates comports = as @ c # bs" "d = cp_device c" "i = Found c" "probe_port (serials d)"
      "\<forall>a \<in> set as. \<not> probe_port (serials (cp_device a))"
    using first_answering_cases [where serials = serials and cs = "candidates comports"] by auto
  have later: "d \<le> cp_device b" if "b \<in> set bs" for b using candidates_sorted(1) [of comports] that by (simp add: c(1,2) sorted_append)
  have "\<not> probe_port (serials (cp_device a))" if "a \<in> set comports" "tty_modem a" "cp_device a < d" for a
  proof -
    have "a \<in> set as \<union> {c} \<union> set bs" using that(1,2) candidates_sorted(2) [of comports] c(1) by auto
    with that(3) later c(2,5) show ?thesis by (auto simp: not_le [symmetric])
  qed
  moreover have "c \<in> set comports" "tty_modem c" using candidates_sorted(2) [of comports] c(1) by auto
  ultimately show ?thesis using c(2-4) by blast
qed

text \<open>The report names, when it names one, the port the worker would find.\<close>

lemma probe_all_port:
  assumes "probe_all serials ports cs rep = Inr rep'"
  shows "re_port rep' = (case re_port rep of Some d \<Rightarrow> Some d | None \<Rightarrow> map_option fst (first_answering serials cs))
    \<and> re_candidates rep' = re_candidates rep @ map (\<lambda>c. (c, probe_port (serials (cp_device c)))) cs"
  using assms
proof (induction cs arbitrary: rep)
  case (Cons c cs)
  show ?case
  proof (cases "probe_port (serials (cp_device c)) \<and> re_port rep = None")
    case True
    with Cons.prems obtain info caps where
      "probe_all serials ports cs (rep\<lparr>re_candidates := re_candidates rep @ [(c, True)], re_identity := info,
         re_capabilities := caps, re_port := Some (cp_device c)\<rparr>) = Inr rep'"
      by (auto simp: Let_def bind_exn_eq_Inr)
    from Cons.IH [OF this] True show ?thesis by simp
  next
    case False
    with Cons.prems have "probe_all serials ports cs
        (rep\<lparr>re_candidates := re_candidates rep @ [(c, probe_port (serials (cp_device c)))]\<rparr>) = Inr rep'"
      by (auto simp: Let_def)
    from Cons.IH [OF this] False show ?thesis by (auto split: option.split)
  qed
qed (simp split: option.split)

lemma probe_report:
  assumes "cmd_probe helper modeswitch comports serials ports u = (Inr rep, u')"
  shows "re_port rep = map_option fst (find_at_port serials comports [])"
    "re_candidates rep = map (\<lambda>c. (c, probe_port (serials (cp_device c)))) (candidates comports)"
proof -
  obtain ids where "probe_all serials ports (candidates comports)
      \<lparr>re_storage = ids, re_candidates = [], re_port = None, re_identity = [], re_capabilities = []\<rparr> = Inr rep"
    using assms by (auto simp: cmd_probe_def lift_def elim!: andThen_eq_InrE split: if_splits)
  from probe_all_port [OF this] show "re_port rep = map_option fst (find_at_port serials comports [])"
    "re_candidates rep = map (\<lambda>c. (c, probe_port (serials (cp_device c)))) (candidates comports)"
    by (simp_all add: find_at_port_def)
qed

end
