(* ===== verification/Client_Send.thy ===== *)
theory Client_Send
  imports Config Api
begin

text \<open>
  The client's local send endpoint, \<open>client/gtg_client/sendapi.py\<close>, and \<open>normalize_targets\<close> of
  \<open>client/gtg_client/config.py\<close>.  The forwarding to the server is the environment: \<open>server\<close>
  answers a request with a status and JSON, or fails.  Which requests were forwarded is recorded;
  the idempotency key of a request is the next \<open>uuid4\<close>.
\<close>

section \<open>Requests\<close>

text \<open>A request of the client's own endpoint; the body as for the server's API.\<close>

datatype local_reply =
    LocalJson nat json
  | LocalOk
  | LocalError nat string
  | Unauthorized
  | NoReply

record forwarded =
  fw_to :: "pystr list"
  fw_text :: pystr
  fw_key :: pystr
  fw_bearer :: pystr

datatype server_outcome = Answered nat json | ConnectionRefused | ForwardFailed

record send_state =
  ss_sent :: "forwarded list"
  ss_uuids :: "pystr list"

type_synonym 'r sact = "(send_state, 'r) act"

section \<open>Targets\<close>

text \<open>\<open>str(t)\<close> of a JSON value that is neither text nor integer is a parameter; \<open>True\<close> is an
  integer to Python, and iterating a dictionary gives its keys.\<close>

definition bool_text :: "bool \<Rightarrow> pystr" where
  "bool_text b = (if b then str_of ''True'' else str_of ''False'')"

definition normal_text :: "pystr \<Rightarrow> pystr list" where
  "normal_text t =
     (let s = filter (\<lambda>c. c \<noteq> 32) (py_strip t)
      in if s = [] then [] else if \<not> py_startswith s [43] \<and> py_isdigit s then [43 # s] else [s])"

fun normal_target :: "(json \<Rightarrow> pystr) \<Rightarrow> json \<Rightarrow> pystr list" where
  "normal_target show_json JNull = []"
| "normal_target show_json (JInt i) = [43 # int_dec i]"
| "normal_target show_json (JBool b) = [43 # bool_text b]"
| "normal_target show_json (JStr s) = normal_text s"
| "normal_target show_json j = normal_text (show_json j)"

fun normalize_targets :: "(json \<Rightarrow> pystr) \<Rightarrow> json option \<Rightarrow> exn + pystr list" where
  "normalize_targets show_json None = Inr []"
| "normalize_targets show_json (Some JNull) = Inr []"
| "normalize_targets show_json (Some (JList xs)) = Inr (concat (map (normal_target show_json) xs))"
| "normalize_targets show_json (Some (JObj kvs)) = Inr (concat (map (\<lambda>(k, _). normal_text k) kvs))"
| "normalize_targets show_json (Some (JFloat _)) = Inl TypeError"
| "normalize_targets show_json (Some j) = Inr (normal_target show_json j)"

section \<open>Authorization\<close>

text \<open>\<open>compare_digest\<close> of two texts raises \<open>TypeError\<close> when one of them is not ASCII.\<close>

definition compare_text :: "pystr \<Rightarrow> pystr \<Rightarrow> exn + bool" where
  "compare_text a b = (if list_all (\<lambda>c. c < 128) a \<and> list_all (\<lambda>c. c < 128) b then Inr (a = b) else Inl TypeError)"

definition basic_credential :: "pystr option \<Rightarrow> (pystr \<times> pystr) option" where
  "basic_credential header =
     (case py_partition 32 (case header of None \<Rightarrow> [] | Some h \<Rightarrow> h) of (k, v) \<Rightarrow>
       if ascii_lower k \<noteq> str_of ''basic'' then None
       else (case bind_exn (b64decode (case v of None \<Rightarrow> [] | Some x \<Rightarrow> x)) utf8_decode_strict of
           Inl _ \<Rightarrow> None
         | Inr cred \<Rightarrow> (case py_partition 58 cred of (u, p) \<Rightarrow> Some (u, case p of None \<Rightarrow> [] | Some q \<Rightarrow> q))))"

definition check_local_auth :: "settings \<Rightarrow> pystr option \<Rightarrow> exn + bool" where
  "check_local_auth vals header =
     (let user = cfg_str vals ''BASIC_USER''; password = cfg_str vals ''BASIC_PASS''
      in if user = [] then Inr True
         else (case basic_credential header of
             None \<Rightarrow> Inr False
           | Some (got_user, got_pass) \<Rightarrow> bind_exn (compare_text got_user user) (\<lambda>ok.
               if ok then compare_text got_pass password else Inr False)))"

section \<open>The endpoint\<close>

definition read_local_json :: "request \<Rightarrow> local_reply + json" where
  "read_local_json rq =
     (let n = (case rq_length rq of
          None \<Rightarrow> 0 | Some l \<Rightarrow> if l = [] then 0 else (case py_int l of None \<Rightarrow> 0 | Some n \<Rightarrow> n))
      in if n \<le> 0 \<or> n > MAX_BODY then Inl (LocalError 400 ''missing or oversized body'')
         else (case rq_json rq of None \<Rightarrow> Inl (LocalError 400 ''body is not valid JSON'') | Some j \<Rightarrow> Inr j))"

text \<open>\<open>AttributeError\<close> is \<open>OtherError\<close>.\<close>

definition dict_get :: "json \<Rightarrow> string \<Rightarrow> exn + json option" where
  "dict_get j key = (case j of JObj kvs \<Rightarrow> Inr (map_of kvs (str_of key)) | _ \<Rightarrow> Inl OtherError)"

definition compat_text :: "json \<Rightarrow> exn + json option" where
  "compat_text data = bind_exn (dict_get data ''textMessage'') (\<lambda>m.
     case m of None \<Rightarrow> Inr None | Some v \<Rightarrow> if json_true v then dict_get v ''text'' else Inr None)"

definition send_token :: "settings \<Rightarrow> pystr" where
  "send_token vals =
     (if cfg_str vals ''SERVER_SEND_TOKEN'' \<noteq> [] then cfg_str vals ''SERVER_SEND_TOKEN'' else cfg_str vals ''SERVER_TOKEN'')"

text \<open>\<open>json.dumps(payload, ensure_ascii=False).encode()\<close> raises at a lone surrogate in any text of the
  value.\<close>

fun json_scalar :: "json \<Rightarrow> bool" where
  "json_scalar (JStr s) = scalar_text s"
| "json_scalar (JList xs) = list_all json_scalar xs"
| "json_scalar (JObj kvs) = list_all (\<lambda>(k, v). scalar_text k \<and> json_scalar v) kvs"
| "json_scalar _ = True"

text \<open>The answer of the server is written inside the \<open>try\<close>: one that cannot be encoded is caught there,
  before anything of it was sent.\<close>

definition forward :: "settings \<Rightarrow> (forwarded \<Rightarrow> server_outcome) \<Rightarrow> pystr list \<Rightarrow> pystr \<Rightarrow> local_reply sact" where
  "forward vals server to body = (\<lambda>s.
     let key = (case ss_uuids s of [] \<Rightarrow> [] | u # _ \<Rightarrow> u);
         rq = \<lparr>fw_to = to, fw_text = body, fw_key = key, fw_bearer = send_token vals\<rparr>;
         s' = s\<lparr>ss_sent := ss_sent s @ [rq], ss_uuids := tl (ss_uuids s)\<rparr>
     in case server rq of
          Answered status j \<Rightarrow>
            (Inr (if json_scalar j then LocalJson status j else LocalError 502 ''forward failed (state unknown)''), s')
        | ConnectionRefused \<Rightarrow> (Inr (LocalError 502 ''gateway server unreachable''), s')
        | ForwardFailed \<Rightarrow> (Inr (LocalError 502 ''forward failed (state unknown)''), s'))"

text \<open>What a body asks to send: the recipients and the text on either route.\<close>

definition asked :: "(json \<Rightarrow> pystr) \<Rightarrow> pystr \<Rightarrow> json \<Rightarrow> exn + (pystr list \<times> json option) option" where
  "asked show_json path data =
     (if path = str_of ''/v1/send'' then
        bind_exn (bind_exn (dict_get data ''to'') (normalize_targets show_json)) (\<lambda>to.
        bind_exn (dict_get data ''text'') (\<lambda>body. Inr (Some (to, body))))
      else if path = str_of ''/message'' then
        bind_exn (bind_exn (dict_get data ''phoneNumbers'') (normalize_targets show_json)) (\<lambda>to.
        bind_exn (compat_text data) (\<lambda>body. Inr (Some (to, body))))
      else Inr None)"

definition local_POST :: "(json \<Rightarrow> pystr) \<Rightarrow> settings \<Rightarrow> (forwarded \<Rightarrow> server_outcome) \<Rightarrow> request \<Rightarrow> local_reply sact" where
  "local_POST show_json vals server rq =
     andThen (lift (check_local_auth vals (rq_auth rq))) (\<lambda>ok.
       if \<not> ok then ret Unauthorized
       else (case read_local_json rq of
           Inl reply \<Rightarrow> ret reply
         | Inr data \<Rightarrow>
             if data = JNull then ret NoReply
             else andThen (lift (asked show_json (py_rstrip (\<lambda>c. c = 47) (rq_path rq)) data)) (\<lambda>a.
               case a of
                 None \<Rightarrow> ret (LocalError 404 ''not found'')
               | Some (to, body) \<Rightarrow>
                   if to = [] then ret (LocalError 400 ''no recipients'')
                   else (case body_text body of
                       None \<Rightarrow> ret (LocalError 400 ''no text'')
                     | Some t \<Rightarrow> forward vals server to t))))"

definition local_GET :: "request \<Rightarrow> local_reply" where
  "local_GET rq =
     (if py_rstrip (\<lambda>c. c = 47) (rq_path rq) = str_of ''/health'' \<or> rq_path rq = str_of ''/healthz''
      then LocalOk else LocalError 404 ''not found'')"

section \<open>What is forwarded\<close>

lemma normal_text_shape: "x \<in> set (normal_text s) \<Longrightarrow> x \<noteq> [] \<and> 32 \<notin> set x"
  by (auto simp: normal_text_def Let_def split: if_splits)

text \<open>C40. The local endpoint never repeats and never makes up a send: a POST forwards at most one
  request, never two, and it forwards one only for a caller with the configured credential (or
  none configured), at a known route, with at least one target and a text that is not blank,
  exactly as they stand in the body; the reply is then the server's own answer, or a 502 when there is
  none or it cannot be encoded, and a
  reply in the server's name is given in no other case.\<close>

theorem forwarded_once:
  "(snd (local_POST show_json vals server rq s) = s
     \<and> (\<forall>status j. fst (local_POST show_json vals server rq s) \<noteq> Inr (LocalJson status j)))
   \<or> (\<exists>data to body fw. check_local_auth vals (rq_auth rq) = Inr True \<and> rq_json rq = Some data
       \<and> asked show_json (py_rstrip (\<lambda>c. c = 47) (rq_path rq)) data = Inr (Some (to, Some (JStr body)))
       \<and> to \<noteq> [] \<and> py_strip body \<noteq> [] \<and> fw_to fw = to \<and> fw_text fw = body \<and> fw_bearer fw = send_token vals
       \<and> ss_sent (snd (local_POST show_json vals server rq s)) = ss_sent s @ [fw]
       \<and> fst (local_POST show_json vals server rq s) = Inr (case server fw of
            Answered status j \<Rightarrow> if json_scalar j then LocalJson status j else LocalError 502 ''forward failed (state unknown)''
          | ConnectionRefused \<Rightarrow> LocalError 502 ''gateway server unreachable''
          | ForwardFailed \<Rightarrow> LocalError 502 ''forward failed (state unknown)''))"
proof -
  let ?run = "local_POST show_json vals server rq s" and ?path = "py_rstrip (\<lambda>c. c = 47) (rq_path rq)"
  have quiet: "?thesis" if "?run = (r, s)" "\<And>status j. r \<noteq> Inr (LocalJson status j)" for r
    using that by simp
  show ?thesis
  proof (cases "check_local_auth vals (rq_auth rq)")
    case (Inl e)
    then have "?run = (Inl e, s)" by (simp add: local_POST_def andThen_def)
    then show ?thesis by (rule quiet) simp
  next
    case (Inr ok)
    note auth = this
    show ?thesis
    proof (cases "ok \<and> (\<exists>data a. read_local_json rq = Inr data \<and> data \<noteq> JNull \<and> asked show_json ?path data = Inr (Some a))")
      case False
      have "\<exists>r. ?run = (r, s) \<and> (\<forall>status j. r \<noteq> Inr (LocalJson status j))"
        using False auth
        by (auto simp: local_POST_def andThen_def read_local_json_def Let_def split: sum.splits option.splits)
      with quiet show ?thesis by blast
    next
      case True
      then obtain data to tx where d: "read_local_json rq = Inr data" "data \<noteq> JNull" "asked show_json ?path data = Inr (Some (to, tx))"
        and ok by auto
      have run: "?run = (if to = [] then ret (LocalError 400 ''no recipients'')
          else (case body_text tx of None \<Rightarrow> ret (LocalError 400 ''no text'') | Some t \<Rightarrow> forward vals server to t)) s"
        using auth d \<open>ok\<close> by (simp add: local_POST_def andThen_def)
      show ?thesis
      proof (cases "to = [] \<or> body_text tx = None")
        case True
        with run have "\<exists>r. ?run = (r, s) \<and> (\<forall>status j. r \<noteq> Inr (LocalJson status j))" by auto
        with quiet show ?thesis by blast
      next
        case False
        then obtain body where b: "tx = Some (JStr body)" "py_strip body \<noteq> []" "body_text tx = Some body"
          by (auto simp: body_text_def split: option.splits json.splits if_splits)
        let ?fw = "\<lparr>fw_to = to, fw_text = body, fw_key = (case ss_uuids s of [] \<Rightarrow> [] | u # _ \<Rightarrow> u), fw_bearer = send_token vals\<rparr>"
        have "ss_sent (snd ?run) = ss_sent s @ [?fw] \<and> fst ?run = Inr (case server ?fw of
            Answered status j \<Rightarrow> if json_scalar j then LocalJson status j else LocalError 502 ''forward failed (state unknown)''
          | ConnectionRefused \<Rightarrow> LocalError 502 ''gateway server unreachable''
          | ForwardFailed \<Rightarrow> LocalError 502 ''forward failed (state unknown)'')"
          using run False b(3) by (simp add: forward_def Let_def split: server_outcome.split)
        moreover have "rq_json rq = Some data"
          using d(1) by (auto simp: read_local_json_def Let_def split: if_splits option.splits)
        ultimately show ?thesis using auth \<open>ok\<close> d(3) b(1,2) False
          by (intro disjI2 exI [of _ data] exI [of _ to] exI [of _ body] exI [of _ ?fw]) simp
      qed
    qed
  qed
qed

text \<open>A password that is not ASCII is never accepted: the comparison raises, and the request ends
  without a reply.\<close>

lemma password_not_ascii:
  assumes "cfg_str vals ''BASIC_USER'' \<noteq> []" "basic_credential header = Some (cfg_str vals ''BASIC_USER'', cfg_str vals ''BASIC_PASS'')"
    and "\<not> list_all (\<lambda>c. c < 128) (cfg_str vals ''BASIC_PASS'')"
  shows "check_local_auth vals header = Inl TypeError"
  using assms by (auto simp: check_local_auth_def compare_text_def Let_def bind_exn_def)

text \<open>A body that is the JSON \<open>null\<close> gets no reply at all.\<close>

lemma null_body_no_reply:
  assumes "check_local_auth vals (rq_auth rq) = Inr True" "rq_json rq = Some JNull" "rq_length rq = Some (str_of ''4'')"
  shows "local_POST show_json vals server rq s = (Inr NoReply, s)"
proof -
  have "py_int (str_of ''4'') = Some 4" "str_of ''4'' \<noteq> []" by code_simp+
  with assms show ?thesis by (simp add: local_POST_def andThen_def read_local_json_def MAX_BODY_def Let_def)
qed

end
