(* ===== verification/Client_Main.thy ===== *)
theory Client_Main
  imports Client_Loop Client_Send Pinned_Http
begin

text \<open>
  The client's start, \<open>client/gtg_client/cli.py\<close>, with \<open>serve\<close> of \<open>sendapi.py\<close> and \<open>describe\<close> of
  \<open>pinned_http.py\<close>: what the configuration must have, how the server is verified, where the local
  endpoint listens, and whether messages are relayed.
\<close>

section \<open>Listening\<close>

definition client_listen :: "settings \<Rightarrow> exn + (pystr \<times> int) list" where
  "client_listen vals = traverse listen_entry
     (filter (\<lambda>e. e \<noteq> []) (map py_strip (py_split 44 (cfg_value vals ''LISTEN''))))"

text \<open>The addresses one entry asks for: each once, of the two families.\<close>

definition entry_binds :: "resolver \<Rightarrow> pystr \<times> int \<Rightarrow> (family \<times> sockaddr) list" where
  "entry_binds getaddrinfo a = (case getaddrinfo (fst a) (snd a) of
     None \<Rightarrow> []
   | Some infos \<Rightarrow> fold (\<lambda>i bs. if fst i \<in> {Inet, Inet6} \<and> i \<notin> set bs then bs @ [i] else bs) infos [])"

text \<open>\<open>can n\<close>: the \<open>n\<close>-th attempt to bind succeeds.\<close>

definition local_servers :: "resolver \<Rightarrow> (nat \<Rightarrow> bool) \<Rightarrow> (pystr \<times> int) list \<Rightarrow> exn + (family \<times> sockaddr) list" where
  "local_servers getaddrinfo can addrs =
     (let servers = map snd (filter (\<lambda>(n, _). can n) (List.enumerate 0 (concat (map (entry_binds getaddrinfo) addrs))))
      in if servers = [] then Inl OtherError else Inr servers)"

section \<open>Starting\<close>

record client_env =
  ce_urlsplit :: "pystr \<Rightarrow> exn + url_parts"
  ce_exists :: "pystr \<Rightarrow> bool"
  ce_loads :: "pystr \<Rightarrow> bool"
  ce_resolve :: resolver
  ce_can :: "nat \<Rightarrow> bool"
  ce_state :: state_file

datatype client_run = Stopped int | SendOnly server_conn "(family \<times> sockaddr) list"
  | Relaying server_conn "(family \<times> sockaddr) list" client ha pystr

definition client_main :: "client_env \<Rightarrow> settings \<Rightarrow> exn + client_run" where
  "client_main env vals =
     (if cfg_str vals ''SERVER_URL'' = [] \<or> cfg_str vals ''SERVER_TOKEN'' = [] then Inr (Stopped 2)
      else (case server_connection (ce_urlsplit env) (ce_exists env) (ce_loads env) vals of
          Inl e \<Rightarrow> if e = ValueError then Inr (Stopped 2) else Inl e
        | Inr conn \<Rightarrow>
            bind_exn (client_listen vals) (\<lambda>addrs.
            bind_exn (local_servers (ce_resolve env) (ce_can env) addrs) (\<lambda>servers.
              if cfg_str vals ''HA_URL'' \<noteq> [] \<and> cfg_str vals ''HA_TOKEN'' \<noteq> []
              then Inr (Relaying conn servers (load_state (ce_state env)) (ha_poster vals) (cfg_str vals ''SERVER_TOKEN''))
              else Inr (SendOnly conn servers)))))"

text \<open>\<open>describe\<close>; the texts of the two stores are one word each.\<close>

definition describe :: "server_conn \<Rightarrow> pystr" where
  "describe c = (case sc_mode c of
     Pin \<Rightarrow> str_of ''certificate pin '' @ take 16 (sc_pin c) @ str_of ''...''
   | Tofu \<Rightarrow> str_of ''trust-on-first-use pin ('' @ (case sc_tofu c of None \<Rightarrow> str_of ''None'' | Some p \<Rightarrow> p) @ [41]
   | Ca \<Rightarrow> str_of ''system trust store + CA bundle '' @ (case sc_ca c of None \<Rightarrow> str_of ''None'' | Some p \<Rightarrow> p)
   | System \<Rightarrow> str_of ''system trust store, hostname-verified'')"

section \<open>A client that runs\<close>

lemma listen_ok_fold:
  "distinct bs \<and> fst ` set bs \<subseteq> {Inet, Inet6} \<Longrightarrow>
   (let r = fold (\<lambda>i bs. if fst i \<in> {Inet, Inet6} \<and> i \<notin> set bs then bs @ [i] else bs) infos bs
    in distinct r \<and> fst ` set r \<subseteq> {Inet, Inet6})"
  by (induction infos arbitrary: bs) (auto simp: Let_def)

lemma entry_binds_ok: "distinct (entry_binds g a) \<and> fst ` set (entry_binds g a) \<subseteq> {Inet, Inet6}"
proof (cases "g (fst a) (snd a)")
  case (Some infos)
  with listen_ok_fold [of "[]" infos] show ?thesis by (simp add: entry_binds_def Let_def)
qed (simp add: entry_binds_def)

text \<open>A client that runs has an address and a token of the server, one way of verifying it, and listens
  somewhere; it relays exactly when Home Assistant's address and token are there, and then starts
  from its state file.\<close>

lemma client_starts:
  assumes "client_main env vals = Inr r" "\<And>n. r \<noteq> Stopped n"
  shows "\<exists>conn servers. cfg_str vals ''SERVER_TOKEN'' \<noteq> []
    \<and> server_connection (ce_urlsplit env) (ce_exists env) (ce_loads env) vals = Inr conn
    \<and> servers \<noteq> [] \<and> fst ` set servers \<subseteq> {Inet, Inet6}
    \<and> r = (if cfg_str vals ''HA_URL'' \<noteq> [] \<and> cfg_str vals ''HA_TOKEN'' \<noteq> []
        then Relaying conn servers (load_state (ce_state env)) (ha_poster vals) (cfg_str vals ''SERVER_TOKEN'') else SendOnly conn servers)"
proof -
  let ?conn = "server_connection (ce_urlsplit env) (ce_exists env) (ce_loads env) vals"
  have fam: "servers \<noteq> [] \<and> fst ` set servers \<subseteq> {Inet, Inet6}" if "local_servers g can addrs = Inr servers" for g can addrs servers
  proof -
    let ?all = "concat (map (entry_binds g) addrs)"
    have "set (map snd (List.enumerate 0 ?all)) = set ?all" by simp
    then have "snd ` set (List.enumerate 0 ?all) = set ?all" unfolding set_map .
    moreover have "servers = map snd (filter (\<lambda>(n, _). can n) (List.enumerate 0 ?all))" "servers \<noteq> []"
      using that by (auto simp: local_servers_def Let_def split: if_splits)
    moreover from this(1) have "set servers \<subseteq> snd ` set (List.enumerate 0 ?all)" by auto
    moreover have "fst ` set ?all \<subseteq> {Inet, Inet6}" using entry_binds_ok [of g] by fastforce
    ultimately show ?thesis by blast
  qed
  have set: "cfg_str vals ''SERVER_TOKEN'' \<noteq> []" "cfg_str vals ''SERVER_URL'' \<noteq> []"
    using assms(1) assms(2) [of 2] by (auto simp: client_main_def)
  with assms(1) assms(2) [of 2] obtain conn where conn: "?conn = Inr conn"
    by (cases ?conn) (auto simp: client_main_def split: if_splits)
  with assms(1) set obtain addrs servers where s: "local_servers (ce_resolve env) (ce_can env) addrs = Inr servers"
    and r: "r = (if cfg_str vals ''HA_URL'' \<noteq> [] \<and> cfg_str vals ''HA_TOKEN'' \<noteq> []
        then Relaying conn servers (load_state (ce_state env)) (ha_poster vals) (cfg_str vals ''SERVER_TOKEN'') else SendOnly conn servers)"
    by (auto simp: client_main_def bind_exn_eq_Inr split: if_splits)
  from set(1) conn fam [OF s] r show ?thesis by blast
qed

text \<open>What is missing or contradictory stops it with exit code 2 before anything is opened.\<close>

lemma client_refuses:
  "cfg_str vals ''SERVER_URL'' = [] \<or> cfg_str vals ''SERVER_TOKEN'' = [] \<Longrightarrow> client_main env vals = Inr (Stopped 2)"
  "server_connection (ce_urlsplit env) (ce_exists env) (ce_loads env) vals = Inl ValueError \<Longrightarrow> client_main env vals = Inr (Stopped 2)"
  by (simp_all add: client_main_def)

end
