(* ===== verification/Spec2Isabelle.thy ===== *)
theory Spec2Isabelle
  imports Delivery Relay Api_Props Held_Messages Client_Follow Server_Start Discovery Client_Main
begin

text \<open>
  A verification development for generic-text-gateway: an SMS gateway in Python.  The server
  (\<open>server/gtg_server\<close>) owns a USB modem, offers an HTTPS API for sending, and streams received
  messages to subscribers; the client (\<open>client/gtg_client\<close>) subscribes, fires events in Home
  Assistant, and offers a local endpoint for sending.

  How the parts interact.  The worker thread is the only one that talks to the modem.  It takes
  jobs (send, PIN, delete) from a queue the API fills, and reads messages that the modem
  announces or stores.  A message goes through the codec and the reassembly to the hub, which
  numbers it, saves it when there is a store, keeps it pending when there is none, and offers it
  to the queue of each subscriber.  A subscriber's thread writes its queue to its socket and
  confirms; the confirmation of a pending message releases its slots at the modem.  The client
  parses the stream, marks a message in its journal, posts it and moves its cursor.

  The theories, in the order of their imports:

    \<^item> \<open>Gtg_Prelude\<close>: Python strings (lists of code points), bytes (lists of byte values), string
      methods, \<open>int\<close> on texts, hexadecimal and UTF-8, exceptions (\<open>exn\<close>) and the error monad.
    \<^item> \<open>Sms_Codec\<close>, \<open>Sms_Roundtrip\<close>, \<open>Codec_Errors\<close>: \<open>modem/sms_codec.py\<close>; its definitions, what
      encoding and decoding preserve, and which exceptions it raises.
    \<^item> \<open>Receive\<close>: \<open>modem/receive.py\<close>, the parsers, the hash and the reassembly (\<open>Assembler\<close>); the
      end-to-end round trip of a message.
    \<^item> \<open>File_Store\<close>: \<open>store.py\<close>; directories are association lists of names and contents, every write
      is the list of its file operations, so that a crash is a prefix of that list.
    \<^item> \<open>Hub\<close>, \<open>Delivery\<close>: \<open>hub.py\<close> and the writing loop of \<open>_subscribe\<close> in \<open>api.py\<close>; the runs of hub
      and writers are a step relation with its reachable states.
    \<^item> \<open>Outbox\<close>: \<open>outbox.py\<close>, the records of messages to send.
    \<^item> \<open>Auth\<close>: \<open>auth.py\<close>, principals, credentials, the password cache, backoff and rate limit.
    \<^item> \<open>Sse\<close>, \<open>Client_State\<close>, \<open>Relay\<close>: the event stream of \<open>api.py\<close> and \<open>relay.py\<close>, the client's
      \<open>state.py\<close>, and the relay with its crashes and restarts.
    \<^item> \<open>Actions\<close>, \<open>At_Port\<close>, \<open>Sim\<close>: functions from a state to a result or exception and a state;
      \<open>modem/at.py\<close> over a modem that is a list of timed reads and of writes that fail; \<open>modem/sim.py\<close>, \<open>identify\<close> of
      \<open>modem/discovery.py\<close> and the set-up of \<open>modem/receive.py\<close>.
    \<^item> \<open>Worker\<close>, \<open>Worker_Frames\<close>, \<open>Worker_Props\<close>, \<open>Worker_Send\<close>, \<open>Worker_Receive\<close>, \<open>Held_Messages\<close>:
      \<open>modem/worker.py\<close>.  Its definitions, up to \<open>worker_run\<close>, the loop over connections; what its operations leave alone, once for any relation,
      in the locales \<open>worker_frame\<close>, \<open>control_frame\<close> and, for relations of the hub alone,
      \<open>hub_frame\<close>; termination, what is written to the modem and the PIN caps over whole runs; sending; receiving;
      what hub and store hold over runs of the worker, the subscribers and restarts.
    \<^item> \<open>Api\<close>, \<open>Api_Props\<close>: the handlers of \<open>api.py\<close> over the state they share (\<open>ApiState\<close>).
    \<^item> \<open>Config\<close>, \<open>Pinned_Http\<close>, \<open>Client_Send\<close>: the two \<open>config.py\<close>, \<open>resolve_binds\<close>,
      \<open>pinned_http.py\<close>, \<open>sendapi.py\<close> with \<open>normalize_targets\<close>.
    \<^item> \<open>Client_Loop\<close>, \<open>Client_Follow\<close>: the requests of \<open>HAPoster\<close> and the loop of \<open>run_inbound\<close> over its
      connections, the server's end of them, and what comes of the two together.
    \<^item> \<open>Usbdevfs\<close>, \<open>Modeswitch\<close>, \<open>Discovery\<close>: \<open>modem/usbdevfs.py\<close> (the calls to the kernel as a recorded
      sequence), \<open>modem/modeswitch.py\<close>, \<open>modem/discovery.py\<close> and \<open>cmd_probe\<close> of \<open>cli.py\<close>.
    \<^item> \<open>Base64\<close>, \<open>Tls\<close>: \<open>tlsutil.py\<close> over a map of files with their permission bits, and the base64 form
      of certificates and Basic headers.
    \<^item> \<open>Credentials\<close>, \<open>Server_Start\<close>, \<open>Client_Main\<close>: the commands of both \<open>cli.py\<close>, with \<open>serve\<close> of \<open>api.py\<close>
      and \<open>sendapi.py\<close> and \<open>ApiState\<close>: from the configuration to what runs.

  What the properties say.  Codec: a text the API accepts survives splitting, encoding, relaying
  and reassembly in any order.  Hub and store: no message is lost without a store, every
  subscriber gets what it is due in order and once, a cursor replays exactly what follows it,
  also across a restart, and a crash in the middle of a save loses nothing saved before.  Outbox:
  idempotency, its invariant, and what becomes of its ids after a restart.  Authentication: the cache is
  transparent, what is accepted is a credential of the principal, backoff (over any run of failures and
  successes) and rate limit keep their bounds.  Client: the stream is
  parsed as it was written, no message fires twice when what is retried never arrived, and over any
  series of connections, cut anywhere, the client handles the server's log from its cursor on, each
  message once and in order.  Port: the
  answer of a command does not depend on how the modem's output is cut into reads, as long as no line in
  it announces a message.  Worker: it
  always returns, it writes nothing that could inject a command, PIN submissions are capped over any
  number of connections, a
  record is sent at most once and its final state says what happened, a message leaves the
  modem only after a restart would find it, except for three errors that are named, and every message that hub and store hold can be
  encoded by those that write it.  API: nothing is answered or changed without the
  scope, and a POST hands over exactly one validated job.  Mode switching: all it
  does to a device is the table's, and all it lets out is the failure to execute its helper.  Start-up: a
  server that starts has principals, speaks plaintext only where that is allowed, and its hub satisfies
  the invariant unless a crash in the middle of a save left the store's directory inconsistent; the
  credential it prints is accepted and no other password is, and the fingerprint it prints is what a
  pinning client needs.
  Where the code departs from what its documents promise, a theorem shows it: \<open>backoff_overflow\<close>,
  \<open>outbox_id_reuse\<close>, \<open>retry_duplicates\<close>, \<open>client_hash_differs\<close>, \<open>registration_blind\<close>,
  \<open>no_cursor_no_replay\<close>, \<open>printed_line\<close>, \<open>fingerprint_of_another\<close>, \<open>helper_not_run\<close> and the lemmas at the end of
  \<open>Worker_Receive\<close>, \<open>Pinned_Http\<close> and \<open>Client_Send\<close>.

  Bounds.  An answer to a command is read with one step of fuel more than the number of reads and
  buffered bytes that are left (\<open>avail\<close>), and each step uses one, so \<open>execute\<close> and \<open>drain_urcs\<close>
  never run out.  An unsolicited line met inside a command runs its own commands and may meet the
  next: \<open>on_urc\<close> is given the depth \<open>avail\<close> too, and \<open>worker_returns\<close> shows that this depth is never
  used up and that more changes nothing.  \<open>wait_registered\<close> has 30 rounds (60 seconds at 2 seconds
  of sleep, time does not run backwards) and \<open>wait_tty\<close> the 20 of the code.  \<open>wait_switched\<close>,
  \<open>wait_ready\<close> and \<open>wait_sent\<close> end because each round sleeps and there is a deadline; \<open>run_inbound\<close> runs
  over the list of its connections, whose end is the stop event, and \<open>worker_run\<close> over the list of its
  cycles.  \<open>serve\<close> and
  \<open>run_cycle\<close> take a number of rounds, since the code serves until it is stopped: what is proved
  holds for every number.

  Parameters.  SHA-256 and PBKDF2, \<open>urlsplit\<close>, \<open>getaddrinfo\<close>, the parsing of JSON and INI texts,
  \<open>str\<close> of a JSON value, the clocks, the random references, the outcome of every HTTP exchange,
  of every disk write and of every write to the serial port are arguments of the definitions or parts of the state.  Times are in
  milliseconds.  Each operation runs to its end before the next: the code holds a lock or owns
  its state there, and what threads may interleave between operations is the order of the steps.

  Not modelled.  The parsing of the command line, signals, logging and the printing of JSON; the
  page of the web UI and its headers, \<open>port_info\<close>; the sockets, threads and TLS handshakes of both
  HTTP servers (\<open>GatewayHTTPServer\<close>, \<open>LocalHTTPServer\<close>: what arrives is a request, what is bound is told
  by the environment); \<open>openssl\<close>, \<open>ssl\<close>, \<open>pyserial\<close>, \<open>usb_modeswitch\<close> and the kernel, which are
  environments.
\<close>

end
